(* ===== verification/Prelude.thy ===== *)
theory Prelude
  imports Main "HOL-Library.Multiset" "HOL-Library.Word"
begin

text \<open>
  Shared ground of the development: the named collections that carry the automation, facts on
  lists and options, and the container that almost every component of the program uses, the
  \<open>ankerl::unordered_dense\<close> map and set (aliases \<open>a_hashmap\<close> and \<open>a_hashset\<close> in
  src/src/core/ankerl.h). These containers keep their elements in one vector (\<open>m_values\<close>), in
  insertion order, and an erase moves the last element into the hole (src/src/ankerl/unordered_dense.h,
  \<open>do_erase\<close>). Iteration walks the vector, so the order in which the program visits its objects is
  a function of its operations, and the model keeps it: a map is the list of its pairs and a set
  the list of its elements.
\<close>

named_theorems dense_simps \<open>rewriting of lookups in updated dense containers\<close>
named_theorems dense_intros \<open>preservation of the container invariant (no key twice)\<close>

section \<open>Lists\<close>

fun find_index :: "('a \<Rightarrow> bool) \<Rightarrow> 'a list \<Rightarrow> nat option" where
  "find_index P [] = None"
| "find_index P (x # xs) = (if P x then Some 0 else map_option Suc (find_index P xs))"

lemma find_index_None: "find_index P xs = None \<longleftrightarrow> (\<forall>x \<in> set xs. \<not> P x)"
  by (induction xs) auto

lemma find_index_Some: "find_index P xs = Some i \<Longrightarrow> i < length xs \<and> P (xs ! i)"
  by (induction xs arbitrary: i) (auto split: if_splits)

text \<open>\<open>swap_remove\<close> is the tail of \<open>do_erase\<close>: the last value replaces the removed one.\<close>

definition swap_remove :: "nat \<Rightarrow> 'a list \<Rightarrow> 'a list" where
  "swap_remove i xs = butlast (xs[i := last xs])"

lemma mset_swap_remove:
  assumes "i < length xs"
  shows "mset (swap_remove i xs) = mset xs - {#xs ! i#}"
proof -
  obtain ys y where xs: "xs = ys @ [y]"
    using assms by (metis append_butlast_last_id length_0_conv not_less_zero)
  show ?thesis
  proof (cases "i = length ys")
    case True
    then show ?thesis by (simp add: swap_remove_def xs)
  next
    case False
    then have i: "i < length ys" using assms xs by simp
    then have "ys ! i \<in># mset ys" by simp
    then show ?thesis using i
      by (simp add: swap_remove_def xs list_update_append butlast_append nth_append mset_update
          add_mset_commute)
  qed
qed

lemma length_swap_remove: "length (swap_remove i xs) = length xs - 1"
  by (simp add: swap_remove_def)

lemma distinct_mset_sub: "distinct xs \<Longrightarrow> x \<in> set xs \<Longrightarrow> mset ys = mset xs - {#x#}
   \<Longrightarrow> distinct ys \<and> set ys = set xs - {x}"
proof -
  assume d: "distinct xs" and x: "x \<in> set xs" and m: "mset ys = mset xs - {#x#}"
  have "mset ys = mset (remove1 x xs)" using m by simp
  then have "set ys = set (remove1 x xs)" and "distinct ys = distinct (remove1 x xs)"
    using mset_eq_setD mset_eq_imp_distinct_iff by blast+
  then show ?thesis using d by (simp add: set_remove1_eq distinct_remove1)
qed

section \<open>Dense sets\<close>

type_synonym 'k a_hashset = "'k list"

definition ds_insert :: "'k \<Rightarrow> 'k a_hashset \<Rightarrow> 'k a_hashset" where
  "ds_insert k s = (if k \<in> set s then s else s @ [k])"

definition ds_erase :: "'k \<Rightarrow> 'k a_hashset \<Rightarrow> 'k a_hashset" where
  "ds_erase k s = (case find_index (\<lambda>x. x = k) s of None \<Rightarrow> s | Some i \<Rightarrow> swap_remove i s)"

lemma set_ds_insert [simp]: "set (ds_insert k s) = insert k (set s)"
  by (auto simp: ds_insert_def)

lemma distinct_ds_insert [simp, dense_intros]: "distinct s \<Longrightarrow> distinct (ds_insert k s)"
  by (auto simp: ds_insert_def)

lemma ds_erase_props:
  assumes "distinct s"
  shows "distinct (ds_erase k s) \<and> set (ds_erase k s) = set s - {k}"
proof (cases "find_index (\<lambda>x. x = k) s")
  case None
  then have "k \<notin> set s" by (auto simp: find_index_None)
  with None show ?thesis using assms by (simp add: ds_erase_def)
next
  case (Some i)
  have i: "i < length s" "s ! i = k" using find_index_Some [OF Some] by auto
  then show ?thesis
    using distinct_mset_sub [OF assms nth_mem [OF i(1)] mset_swap_remove [OF i(1)]] Some
    by (simp add: ds_erase_def)
qed

lemma set_ds_erase [simp]: "distinct s \<Longrightarrow> set (ds_erase k s) = set s - {k}"
  by (simp add: ds_erase_props)

lemma distinct_ds_erase [simp, dense_intros]: "distinct s \<Longrightarrow> distinct (ds_erase k s)"
  by (simp add: ds_erase_props)

text \<open>The loops that insert or erase the elements of a range.\<close>

lemma ds_insert_all:
  "distinct p \<Longrightarrow> distinct (foldl (\<lambda>p i. ds_insert i p) p xs) \<and> set (foldl (\<lambda>p i. ds_insert i p) p xs) = set p \<union> set xs"
  by (induction xs arbitrary: p) auto

lemma ds_erase_all:
  "distinct p \<Longrightarrow> distinct (foldl (\<lambda>p i. ds_erase i p) p xs) \<and> set (foldl (\<lambda>p i. ds_erase i p) p xs) = set p - set xs"
  by (induction xs arbitrary: p) auto

section \<open>Dense maps\<close>

type_synonym ('k, 'v) a_hashmap = "('k \<times> 'v) list"

definition dm_inv :: "('k, 'v) a_hashmap \<Rightarrow> bool" where
  "dm_inv m \<longleftrightarrow> distinct (map fst m)"

text \<open>\<open>dm_put\<close> is \<open>m[k] = v\<close>: in place when the key is there, at the end of the vector if not.\<close>

definition dm_put :: "'k \<Rightarrow> 'v \<Rightarrow> ('k, 'v) a_hashmap \<Rightarrow> ('k, 'v) a_hashmap" where
  "dm_put k v m = (if k \<in> fst ` set m then map (\<lambda>(k', v'). (k', if k' = k then v else v')) m
                   else m @ [(k, v)])"

text \<open>\<open>emplace\<close> leaves a key that is already there as it is.\<close>

definition dm_emplace :: "'k \<Rightarrow> 'v \<Rightarrow> ('k, 'v) a_hashmap \<Rightarrow> ('k, 'v) a_hashmap" where
  "dm_emplace k v m = (if map_of m k = None then m @ [(k, v)] else m)"

definition dm_erase :: "'k \<Rightarrow> ('k, 'v) a_hashmap \<Rightarrow> ('k, 'v) a_hashmap" where
  "dm_erase k m = (case find_index (\<lambda>p. fst p = k) m of None \<Rightarrow> m | Some i \<Rightarrow> swap_remove i m)"

lemma dm_inv_Nil [simp, dense_intros]: "dm_inv []"
  by (simp add: dm_inv_def)

lemma map_fst_dm_put: "map fst (dm_put k v m) = ds_insert k (map fst m)"
  by (auto simp: dm_put_def ds_insert_def)

lemma map_of_update_in_place:
  "map_of (map (\<lambda>(k', v'). (k', if k' = k then v else v')) m) x =
    (if x = k \<and> map_of m k \<noteq> None then Some v else map_of m x)"
  by (induction m) auto

lemma map_of_dm_put [simp, dense_simps]: "map_of (dm_put k v m) = (map_of m)(k \<mapsto> v)"
proof (cases "k \<in> fst ` set m")
  case True
  then have "map_of m k \<noteq> None" by (simp add: map_of_eq_None_iff)
  with True show ?thesis by (simp add: dm_put_def fun_eq_iff map_of_update_in_place)
next
  case False
  then have "map_of m k = None" by (simp add: map_of_eq_None_iff)
  with False show ?thesis
    by (simp add: dm_put_def fun_eq_iff map_add_def split: option.split)
qed

lemma dm_inv_put [simp, dense_intros]: "dm_inv m \<Longrightarrow> dm_inv (dm_put k v m)"
  by (simp add: dm_inv_def map_fst_dm_put)

lemma keys_dm_put [simp]: "fst ` set (dm_put k v m) = insert k (fst ` set m)"
  using arg_cong [OF map_fst_dm_put, of set k v m] by simp

lemma dm_erase_props:
  assumes "dm_inv m"
  shows "dm_inv (dm_erase k m) \<and> map_of (dm_erase k m) = (map_of m)(k := None)"
proof (cases "find_index (\<lambda>p. fst p = k) m")
  case None
  then have "map_of m k = None" by (auto simp: find_index_None map_of_eq_None_iff)
  then have "map_of m = (map_of m)(k := None)" by (simp add: fun_eq_iff)
  with None show ?thesis using assms by (simp add: dm_erase_def)
next
  case (Some i)
  have i: "i < length m" "fst (m ! i) = k" using find_index_Some [OF Some] by auto
  have d: "distinct m" using assms by (simp add: dm_inv_def distinct_map)
  have e: "dm_erase k m = swap_remove i m" using Some by (simp add: dm_erase_def)
  have s: "set (dm_erase k m) = set m - {m ! i}" and "distinct (dm_erase k m)"
    using distinct_mset_sub [OF d nth_mem [OF i(1)] mset_swap_remove [OF i(1)]] e by auto
  moreover have inj: "inj_on fst (set m)" using assms by (simp add: dm_inv_def distinct_map)
  ultimately have inv: "dm_inv (dm_erase k m)"
    by (auto simp: dm_inv_def distinct_map intro: inj_on_subset)
  have "map_of (dm_erase k m) x = ((map_of m)(k := None)) x" for x
  proof (cases "x = k")
    case True
    have "k \<notin> fst ` (set m - {m ! i})" using i inj nth_mem [OF i(1)] by (auto dest: inj_onD)
    then have "map_of (dm_erase k m) k = None" using s by (simp add: map_of_eq_None_iff)
    with True show ?thesis by simp
  next
    case False
    then have "(x, v) \<noteq> m ! i" for v using i(2) by (metis fst_conv)
    then have "(x, v) \<in> set (dm_erase k m) \<longleftrightarrow> (x, v) \<in> set m" for v by (simp add: s)
    then have "map_of (dm_erase k m) x = Some v \<longleftrightarrow> map_of m x = Some v" for v
      using map_of_eq_Some_iff [of "dm_erase k m"] map_of_eq_Some_iff [of m] inv assms
      unfolding dm_inv_def by blast
    then have "map_of (dm_erase k m) x = map_of m x"
      by (metis not_Some_eq)
    with False show ?thesis by simp
  qed
  then have "map_of (dm_erase k m) = (map_of m)(k := None)" by (rule ext)
  with inv show ?thesis by (rule conjI)
qed

lemma map_of_dm_erase [simp, dense_simps]:
  "dm_inv m \<Longrightarrow> map_of (dm_erase k m) = (map_of m)(k := None)"
  by (simp add: dm_erase_props)

lemma dm_inv_erase [simp, dense_intros]: "dm_inv m \<Longrightarrow> dm_inv (dm_erase k m)"
  by (simp add: dm_erase_props)

lemma keys_dm_erase [simp]: "dm_inv m \<Longrightarrow> fst ` set (dm_erase k m) = fst ` set m - {k}"
proof -
  assume "dm_inv m"
  then have "dom (map_of (dm_erase k m)) = dom (map_of m) - {k}" by simp
  then show ?thesis by (simp add: dom_map_of_conv_image_fst)
qed

lemma dm_emplace_new: "map_of m k = None \<Longrightarrow> dm_emplace k v m = dm_put k v m"
  by (simp add: dm_emplace_def dm_put_def map_of_eq_None_iff)

lemma length_dm_put: "length (dm_put k v m) = (if k \<in> fst ` set m then length m else Suc (length m))"
  by (simp add: dm_put_def)

lemma length_dm_erase:
  "length (dm_erase k m) = (if k \<in> fst ` set m then length m - 1 else length m)"
proof (cases "find_index (\<lambda>p. fst p = k) m")
  case None
  then have "k \<notin> fst ` set m" by (auto simp: find_index_None)
  with None show ?thesis by (simp add: dm_erase_def)
next
  case (Some i)
  then have "i < length m" "fst (m ! i) = k" using find_index_Some [OF Some] by auto
  then have "k \<in> fst ` set m" by (metis imageI nth_mem)
  then show ?thesis using Some by (simp add: dm_erase_def length_swap_remove)
qed

section \<open>Options: a result that is absent where the C++ behaviour is undefined\<close>

lemma bind_eq_Some_conv': "(case x of None \<Rightarrow> None | Some y \<Rightarrow> f y) = Some z \<longleftrightarrow>
    (\<exists>y. x = Some y \<and> f y = Some z)"
  by (cases x) auto

text \<open>\<open>yields m P\<close>: the computation has a result, and it satisfies \<open>P\<close>. Sequences of operations are proved
  with it one operation at a time.\<close>

definition yields :: "'a option \<Rightarrow> ('a \<Rightarrow> bool) \<Rightarrow> bool" where
  "yields m P \<longleftrightarrow> (case m of None \<Rightarrow> False | Some x \<Rightarrow> P x)"

lemma yields_Some [simp]: "yields (Some x) P \<longleftrightarrow> P x"
  by (simp add: yields_def)

lemma yields_None [simp]: "\<not> yields None P"
  by (simp add: yields_def)

lemma yields_bind [simp]: "yields (Option.bind m f) P \<longleftrightarrow> yields m (\<lambda>x. yields (f x) P)"
  by (simp add: yields_def split: option.split)

lemma yields_iff: "yields m P \<longleftrightarrow> (\<exists>x. m = Some x \<and> P x)"
  by (simp add: yields_def split: option.split)

lemma yields_weaken: "yields m P \<Longrightarrow> (\<And>x. P x \<Longrightarrow> Q x) \<Longrightarrow> yields m Q"
  by (auto simp: yields_iff)

end
