(* ===== verification/Wyhash.thy ===== *)
theory Wyhash
  imports Prelude "HOL-Library.Monad_Syntax"
begin

unbundle bit_operations_syntax

text \<open>
  The hash of src/src/ankerl/unordered_dense.h (namespace \<open>detail::wyhash\<close>), which the map and the set
  apply to every key, and the hashes of the header built on it. A buffer is the list of its bytes and a
  pointer into it an offset; a read past its end has no result. \<open>mum\<close> has two bodies, chosen by the
  compiler: the product in 128 bits, and the portable one from four 32 bit products. They are proved
  equal, and the hash of a buffer is proved to read only inside it.
\<close>

section \<open>The product of two 64 bit numbers in 128 bits\<close>

definition mum :: "64 word \<times> 64 word \<Rightarrow> 64 word \<times> 64 word" where
  "mum = (\<lambda>(a, b). let r = (ucast a :: 128 word) * ucast b in (ucast r, ucast (drop_bit 64 r)))"

text \<open>\<open>static_cast<std::uint32_t>\<close> of a 64 bit number, read as a 64 bit number again.\<close>

definition low32 :: "64 word \<Rightarrow> 64 word" where
  "low32 a = ucast (ucast a :: 32 word)"

definition mum_portable :: "64 word \<times> 64 word \<Rightarrow> 64 word \<times> 64 word" where
  "mum_portable = (\<lambda>(a, b).
     let ha = drop_bit 32 a; hb = drop_bit 32 b; la = low32 a; lb = low32 b;
         rh = ha * hb; rm0 = ha * lb; rm1 = hb * la; rl = la * lb;
         t = rl + push_bit 32 rm0;
         c = (if t < rl then 1 else 0);
         lo = t + push_bit 32 rm1;
         c = c + (if lo < t then 1 else 0);
         hi = rh + drop_bit 32 rm0 + drop_bit 32 rm1 + c
     in (lo, hi))"

lemma u64: "unat (a :: 64 word) < 2 ^ 64"
  using unsigned_less [of a] by simp

lemma unat_low32: "unat (low32 a) = unat a mod 2 ^ 32"
proof -
  have "unat (take_bit 32 a) = take_bit 32 (unat a)" by (rule unsigned_take_bit_eq)
  then show ?thesis by (simp only: low32_def unsigned_ucast_eq) (simp add: take_bit_eq_mod)
qed

lemma unat_drop64: "unat (drop_bit n (a :: 64 word)) = unat a div 2 ^ n"
  using u64 [of a] by (simp only: unsigned_drop_bit_eq) (simp add: drop_bit_eq_div take_bit_eq_mod)

lemma unat_hi32: "unat (drop_bit 32 (a :: 64 word)) = unat a div 2 ^ 32"
  by (rule unat_drop64)

lemma mult_below_32: "x < 2 ^ 32 \<Longrightarrow> y < 2 ^ 32 \<Longrightarrow> x * y \<le> (2 ^ 32 - 1) * (2 ^ 32 - 1)" for x y :: nat
  by (rule mult_mono) auto

lemma unat_mult_32:
  assumes "unat x < 2 ^ 32" "unat y < 2 ^ 32"
  shows "unat (x * y :: 64 word) = unat x * unat y"
proof -
  have "unat x * unat y < 2 ^ 64" using mult_below_32 [OF assms] by simp
  then show ?thesis by (simp add: unat_word_ariths)
qed

text \<open>One addition of the portable body: the sum is exact with the carry it finds by comparing.\<close>

lemma add_with_carry:
  "unat r + unat s = unat (r + s) + (if r + s < r then 2 ^ 64 else 0)" for r s :: "64 word"
proof (cases "unat r + unat s < 2 ^ 64")
  case True
  then have "unat (r + s) = unat r + unat s" by (simp add: unat_word_ariths)
  then show ?thesis by (simp add: word_less_nat_alt)
next
  case False
  moreover have "unat r < 2 ^ 64" "unat s < 2 ^ 64" by (rule u64)+
  ultimately have "unat (r + s) = unat r + unat s - 2 ^ 64"
    by (simp add: unat_word_ariths mod_if)
  with False \<open>unat s < 2 ^ 64\<close> show ?thesis by (auto simp: word_less_nat_alt)
qed

lemma unat_push_32: "unat (push_bit 32 (x :: 64 word)) = (unat x mod 2 ^ 32) * 2 ^ 32"
proof -
  have "unat x * 2 ^ 32 mod (2 ^ 32 * 2 ^ 32) = (unat x mod 2 ^ 32) * 2 ^ 32"
    by (rule mult_mod_left [symmetric])
  then show ?thesis by (simp add: unsigned_push_bit_eq push_bit_eq_mult take_bit_eq_mod unat_word_ariths)
qed

lemma mum_portable_value:
  "unat (fst (mum_portable (a, b))) + 2 ^ 64 * unat (snd (mum_portable (a, b))) = unat a * unat b"
proof -
  define A B C D where "A = unat a div 2 ^ 32" and "B = unat b div 2 ^ 32"
    and "C = unat a mod 2 ^ 32" and "D = unat b mod 2 ^ 32"
  have ab: "unat a = A * 2 ^ 32 + C" "unat b = B * 2 ^ 32 + D" by (simp_all add: A_def B_def C_def D_def)
  have lt: "A < 2 ^ 32" "B < 2 ^ 32" "C < 2 ^ 32" "D < 2 ^ 32"
    using u64 [of a] u64 [of b]
    by (simp_all add: A_def B_def C_def D_def less_mult_imp_div_less)
  define rh rm0 rm1 rl where "rh = drop_bit 32 a * drop_bit 32 b" and "rm0 = drop_bit 32 a * low32 b"
    and "rm1 = drop_bit 32 b * low32 a" and "rl = low32 a * low32 b"
  have R: "unat rh = A * B" "unat rm0 = A * D" "unat rm1 = B * C" "unat rl = C * D"
    using lt unfolding rh_def rm0_def rm1_def rl_def
    by (subst unat_mult_32; simp add: unat_hi32 unat_low32 A_def B_def C_def D_def)+
  define t where "t = rl + push_bit 32 rm0"
  define lo where "lo = t + push_bit 32 rm1"
  define c1 c2 :: "64 word" where "c1 = (if t < rl then 1 else 0)" and "c2 = (if lo < t then 1 else 0)"
  have T: "C * D + (A * D mod 2 ^ 32) * 2 ^ 32 = unat t + unat c1 * 2 ^ 64"
    using add_with_carry [of rl "push_bit 32 rm0"] by (simp add: unat_push_32 R t_def c1_def)
  have L: "unat t + (B * C mod 2 ^ 32) * 2 ^ 32 = unat lo + unat c2 * 2 ^ 64"
    using add_with_carry [of t "push_bit 32 rm1"] by (simp add: unat_push_32 R lo_def c2_def)
  define q0 q1 where "q0 = A * D div 2 ^ 32" and "q1 = B * C div 2 ^ 32"
  have "A * D = q0 * 2 ^ 32 + A * D mod 2 ^ 32" "B * C = q1 * 2 ^ 32 + B * C mod 2 ^ 32"
    by (simp_all add: q0_def q1_def)
  then have P: "unat a * unat b = unat lo + 2 ^ 64 * (A * B + q0 + q1 + unat c1 + unat c2)"
    using T L unfolding ab by (simp add: algebra_simps)
  have "unat a * unat b < 2 ^ 64 * 2 ^ 64"
    by (rule mult_strict_mono) (use u64 [of a] u64 [of b] in auto)
  then have small: "A * B + q0 + q1 + unat c1 + unat c2 < 2 ^ 64" using P by simp
  have "mum_portable (a, b) = (lo, rh + drop_bit 32 rm0 + drop_bit 32 rm1 + (c1 + c2))"
    by (simp add: mum_portable_def Let_def rh_def rm0_def rm1_def rl_def t_def lo_def c1_def c2_def)
  moreover have "unat (rh + drop_bit 32 rm0 + drop_bit 32 rm1 + (c1 + c2)) = A * B + q0 + q1 + unat c1 + unat c2"
    using small by (simp add: unat_word_ariths unat_hi32 R q0_def q1_def mod_simps)
  ultimately show ?thesis using P by simp
qed

lemma mum_value: "unat (fst (mum (a, b))) + 2 ^ 64 * unat (snd (mum (a, b))) = unat a * unat b"
proof -
  have "unat a * unat b < 2 ^ 64 * 2 ^ 64"
    by (rule mult_strict_mono) (use u64 [of a] u64 [of b] in auto)
  then have p: "unat ((ucast a :: 128 word) * ucast b) = unat a * unat b"
    using u64 [of a] u64 [of b] by (simp add: unat_word_ariths unsigned_ucast_eq take_bit_eq_mod mod_less)
  have "unat a * unat b div 2 ^ 64 < 2 ^ 64"
    using \<open>unat a * unat b < 2 ^ 64 * 2 ^ 64\<close> by (rule less_mult_imp_div_less)
  moreover have "unat (drop_bit 64 ((ucast a :: 128 word) * ucast b)) = unat a * unat b div 2 ^ 64"
    using \<open>unat a * unat b < 2 ^ 64 * 2 ^ 64\<close>
    by (simp only: unsigned_drop_bit_eq p) (simp add: take_bit_eq_mod drop_bit_eq_div)
  ultimately have "unat (snd (mum (a, b))) = unat a * unat b div 2 ^ 64"
    by (simp only: mum_def Let_def split snd_conv unsigned_ucast_eq) (simp add: take_bit_eq_mod)
  moreover have "unat (fst (mum (a, b))) = unat a * unat b mod 2 ^ 64"
    by (simp only: mum_def Let_def split fst_conv unsigned_ucast_eq p) (simp add: take_bit_eq_mod)
  ultimately show ?thesis by simp
qed

lemma split_128:
  fixes x y x' y' :: "64 word"
  assumes "unat x + 2 ^ 64 * unat y = unat x' + 2 ^ 64 * unat y'"
  shows "x = x' \<and> y = y'"
proof -
  have b: "unat x < 2 ^ 64" "unat x' < 2 ^ 64"
    using u64 [of x] u64 [of x'] by simp_all
  have "(unat x + 2 ^ 64 * unat y) mod 2 ^ 64 = (unat x' + 2 ^ 64 * unat y') mod 2 ^ 64" using assms by (rule arg_cong)
  then have "unat x = unat x'" using b by simp
  then show ?thesis using assms by (simp add: word_unat_eq_iff)
qed

text \<open>The portable body of \<open>mum\<close>, four 32 bit products and two carries found by comparing, computes the
  same 128 bit product as the body that uses a 128 bit integer.\<close>

theorem mum_bodies_agree: "mum_portable p = mum p"
proof -
  obtain a b where p: "p = (a, b)" by (cases p)
  show ?thesis
    using split_128 [of "fst (mum_portable (a, b))" "snd (mum_portable (a, b))" "fst (mum (a, b))" "snd (mum (a, b))"]
      mum_portable_value [of a b] mum_value [of a b]
    by (simp add: p prod_eq_iff)
qed

section \<open>Mixing and reading\<close>

definition mix :: "64 word \<Rightarrow> 64 word \<Rightarrow> 64 word" where
  "mix a b = (let (a, b) = mum (a, b) in a XOR b)"

lemma mix_commute: "mix a b = mix b a"
  by (simp add: mix_def mum_def mult.commute)

text \<open>\<open>memcpy\<close> of the bytes at \<open>p\<close> into a number, on a little endian machine.\<close>

fun little_endian :: "8 word list \<Rightarrow> 64 word" where
  "little_endian [] = 0"
| "little_endian (b # bs) = ucast b OR push_bit 8 (little_endian bs)"

definition read_bytes :: "nat \<Rightarrow> 8 word list \<Rightarrow> nat \<Rightarrow> 64 word option" where
  "read_bytes n buf p = (if p + n \<le> length buf then Some (little_endian (take n (drop p buf))) else None)"

definition r8 :: "8 word list \<Rightarrow> nat \<Rightarrow> 64 word option" where
  "r8 = read_bytes 8"

definition r4 :: "8 word list \<Rightarrow> nat \<Rightarrow> 64 word option" where
  "r4 = read_bytes 4"

text \<open>Reads 1, 2 or 3 bytes.\<close>

definition r3 :: "8 word list \<Rightarrow> nat \<Rightarrow> nat \<Rightarrow> 64 word option" where
  "r3 buf p k = do {
     x \<leftarrow> read_bytes 1 buf p;
     y \<leftarrow> read_bytes 1 buf (p + k div 2);
     z \<leftarrow> read_bytes 1 buf (p + k - 1);
     Some (push_bit 16 x OR push_bit 8 y OR z)
   }"

section \<open>The hash of a buffer\<close>

definition secret0 :: "64 word" where "secret0 = 0xa0761d6478bd642f"
definition secret1 :: "64 word" where "secret1 = 0xe7037ed1a0b428db"
definition secret2 :: "64 word" where "secret2 = 0x8ebc6af09c88c6e3"
definition secret3 :: "64 word" where "secret3 = 0x589965cc75374cc3"

text \<open>The \<open>do\<close> loop takes 48 bytes a round into three seeds, the \<open>while\<close> loop 16 bytes into one. \<open>i\<close> is the
  number of bytes left and \<open>p\<close> the offset of the next one.\<close>

fun loop48 :: "8 word list \<Rightarrow> nat \<Rightarrow> nat \<Rightarrow> 64 word \<Rightarrow> 64 word \<Rightarrow> 64 word \<Rightarrow>
    (nat \<times> nat \<times> 64 word \<times> 64 word \<times> 64 word) option" where
  "loop48 buf p i seed see1 see2 = do {
     x0 \<leftarrow> r8 buf p; x1 \<leftarrow> r8 buf (p + 8);
     x2 \<leftarrow> r8 buf (p + 16); x3 \<leftarrow> r8 buf (p + 24);
     x4 \<leftarrow> r8 buf (p + 32); x5 \<leftarrow> r8 buf (p + 40);
     let seed = mix (x0 XOR secret1) (x1 XOR seed);
         see1 = mix (x2 XOR secret2) (x3 XOR see1);
         see2 = mix (x4 XOR secret3) (x5 XOR see2)
     in if i - 48 > 48 then loop48 buf (p + 48) (i - 48) seed see1 see2
        else Some (p + 48, i - 48, seed, see1, see2)
   }"

fun loop16 :: "8 word list \<Rightarrow> nat \<Rightarrow> nat \<Rightarrow> 64 word \<Rightarrow> (nat \<times> nat \<times> 64 word) option" where
  "loop16 buf p i seed =
     (if i > 16 then do {
        x \<leftarrow> r8 buf p; y \<leftarrow> r8 buf (p + 8);
        loop16 buf (p + 16) (i - 16) (mix (x XOR secret1) (y XOR seed))
      } else Some (p, i, seed))"

declare loop48.simps [simp del] and loop16.simps [simp del]

definition hash_short :: "8 word list \<Rightarrow> (64 word \<times> 64 word) option" where
  "hash_short buf = (let len = length buf; k = len div 8 * 4 in
     if len \<ge> 4 then do {
       x \<leftarrow> r4 buf 0; y \<leftarrow> r4 buf k;
       z \<leftarrow> r4 buf (len - 4); w \<leftarrow> r4 buf (len - 4 - k);
       Some (push_bit 32 x OR y, push_bit 32 z OR w)
     }
     else if len > 0 then map_option (\<lambda>a. (a, 0)) (r3 buf 0 len)
     else Some (0, 0))"

definition hash_long :: "8 word list \<Rightarrow> (64 word \<times> 64 word \<times> 64 word) option" where
  "hash_long buf = (let len = length buf; seed = secret0 in do {
     (p, i, seed) \<leftarrow>
       (if len > 48 then map_option (\<lambda>(p, i, seed, see1, see2). (p, i, seed XOR (see1 XOR see2)))
          (loop48 buf 0 len seed seed seed)
        else Some (0, len, seed));
     (p, i, seed) \<leftarrow> loop16 buf p i seed;
     a \<leftarrow> r8 buf (p + i - 16);
     b \<leftarrow> r8 buf (p + i - 8);
     Some (a, b, seed)
   })"

definition wyhash :: "8 word list \<Rightarrow> 64 word option" where
  "wyhash buf = (let len = length buf in do {
     (a, b, seed) \<leftarrow> (if len \<le> 16 then map_option (\<lambda>(a, b). (a, b, secret0)) (hash_short buf) else hash_long buf);
     Some (mix (secret1 XOR of_nat len) (mix (a XOR secret1) (b XOR seed)))
   })"

lemma yields_r8 [simp]: "yields (r8 buf p) P \<longleftrightarrow> p + 8 \<le> length buf \<and> P (little_endian (take 8 (drop p buf)))"
  by (simp add: r8_def read_bytes_def)

lemma r8_inside: "p + 8 \<le> length buf \<Longrightarrow> r8 buf p = Some (little_endian (take 8 (drop p buf)))"
  by (simp add: r8_def read_bytes_def)

lemma yields_r4 [simp]: "yields (r4 buf p) P \<longleftrightarrow> p + 4 \<le> length buf \<and> P (little_endian (take 4 (drop p buf)))"
  by (simp add: r4_def read_bytes_def)

lemma yields_map [simp]: "yields (map_option f m) P \<longleftrightarrow> yields m (\<lambda>x. P (f x))"
  by (simp add: yields_def split: option.split)

text \<open>Both loops keep the sum of the offset and the bytes left.\<close>

lemma loop48_reads_inside:
  "p + i = length buf \<Longrightarrow> 48 < i \<Longrightarrow>
   yields (loop48 buf p i seed see1 see2) (\<lambda>(p', i', _). p' + i' = length buf \<and> 0 < i' \<and> i' \<le> 48 \<and> p < p')"
proof (induction buf p i seed see1 see2 rule: loop48.induct)
  case (1 buf p i seed see1 see2)
  show ?case
  proof (cases "48 < i - 48")
    case True
    show ?thesis using 1(2,3) True
      by (subst loop48.simps) (auto simp: Let_def r8_inside intro!: yields_weaken [OF 1(1)])
  next
    case False
    then show ?thesis using 1(2,3) by (subst loop48.simps) (simp add: Let_def)
  qed
qed

lemma loop16_reads_inside:
  "p + i = length buf \<Longrightarrow> 0 < i \<Longrightarrow>
   yields (loop16 buf p i seed) (\<lambda>(p', i', _). p' + i' = length buf)"
proof (induction buf p i seed rule: loop16.induct)
  case (1 buf p i seed)
  show ?case
  proof (cases "16 < i")
    case True
    then show ?thesis using 1(2) by (subst loop16.simps) (auto simp: r8_inside intro!: 1(1))
  next
    case False
    then show ?thesis using 1(2) by (subst loop16.simps) simp
  qed
qed

lemma hash_short_reads_inside: "length buf \<le> 16 \<Longrightarrow> yields (hash_short buf) (\<lambda>_. True)"
proof -
  assume "length buf \<le> 16"
  moreover have "n div 8 * 4 + 4 \<le> n" if "4 \<le> n" for n :: nat using that by presburger
  ultimately show ?thesis
    by (cases "length buf = 0") (auto simp: hash_short_def Let_def r3_def read_bytes_def Suc_le_eq)
qed

lemma hash_long_reads_inside:
  assumes "16 < length buf"
  shows "yields (hash_long buf) (\<lambda>_. True)"
proof -
  have loop: "yields (Option.bind (loop16 buf p i seed) (\<lambda>(p, i, seed). do {
      a \<leftarrow> r8 buf (p + i - 16); b \<leftarrow> r8 buf (p + i - 8); Some (a, b, seed)})) (\<lambda>_. True)"
    if "p + i = length buf" "0 < i" for p i and seed
    using assms by (auto intro!: yields_weaken [OF loop16_reads_inside [OF that]])
  show ?thesis
  proof (cases "48 < length buf")
    case True
    then show ?thesis
      by (auto simp: hash_long_def Let_def simp del: yields_r8
          intro!: yields_weaken [OF loop48_reads_inside] loop [unfolded yields_bind])
  next
    case False
    then show ?thesis using loop [of 0 "length buf" secret0] assms
      by (simp add: hash_long_def Let_def flip: length_greater_0_conv)
  qed
qed

text \<open>The hash of a buffer of any length ends and reads only bytes of the buffer, also where it reads the
  last 16 bytes backwards from the end.\<close>

theorem wyhash_reads_inside: "\<exists>h. wyhash buf = Some h"
proof -
  have "yields (wyhash buf) (\<lambda>_. True)"
    using hash_short_reads_inside [of buf] hash_long_reads_inside [of buf]
    by (auto simp: wyhash_def Let_def case_prod_unfold)
  then show ?thesis by (simp add: yields_iff)
qed

section \<open>The hashes of the header\<close>

text \<open>Of one number (integers, enums, pointers) and of a tuple, whose components come as numbers: integers
  as they are, everything else hashed.\<close>

definition hash64 :: "64 word \<Rightarrow> 64 word" where
  "hash64 x = mix x 0x9E3779B97F4A7C15"

datatype hash_arg = Integral "64 word" | Hashed "64 word"

definition to64 :: "hash_arg \<Rightarrow> 64 word" where
  "to64 a = (case a of Integral x \<Rightarrow> x | Hashed h \<Rightarrow> h)"

definition mix64 :: "64 word \<Rightarrow> 64 word \<Rightarrow> 64 word" where
  "mix64 state v = mix (state + v) 0x9ddfea08eb382d69"

definition calc_hash :: "hash_arg list \<Rightarrow> 64 word" where
  "calc_hash t = foldl (\<lambda>h a. mix64 h (to64 a)) 0 t"

end
