(* ===== verification/Float32.thy ===== *)
theory Float32
  imports Prelude Complex_Main "HOL-Library.Log_Nat"
begin

text \<open>
  The arithmetic of \<open>float\<close>, in which Godot's vectors and boxes compute (\<open>real_t\<close>). A finite
  \<open>float\<close> is a rational number; an operation is the exact one followed by \<open>fl32\<close>, rounding to the
  nearest number with a significand of 24 bits, ties to even. Not modelled: infinities, NaN, the
  bounds of the exponent (overflow and subnormal numbers) and the sign of zero.
\<close>

named_theorems float_exact \<open>operations that round nothing\<close>

section \<open>Rounding to an integer, ties to even\<close>

definition round_even :: "rat \<Rightarrow> int" where
  "round_even q = (let f = \<lfloor>q\<rfloor>; r = q - of_int f in
     if r < 1/2 then f else if r > 1/2 then f + 1 else if even f then f else f + 1)"

lemma round_even_bounds: "\<lfloor>q\<rfloor> \<le> round_even q \<and> round_even q \<le> \<lfloor>q\<rfloor> + 1"
  by (simp add: round_even_def Let_def)

lemma round_even_int [simp]: "round_even (of_int z) = z"
  by (simp add: round_even_def)

lemma round_even_mono:
  assumes "q \<le> p" shows "round_even q \<le> round_even p"
proof (cases "\<lfloor>q\<rfloor> = \<lfloor>p\<rfloor>")
  case True
  then show ?thesis using assms by (auto simp: round_even_def Let_def)
next
  case False
  then have "\<lfloor>q\<rfloor> + 1 \<le> \<lfloor>p\<rfloor>" using floor_mono [OF assms] by linarith
  then show ?thesis using round_even_bounds [of q] round_even_bounds [of p] by linarith
qed

section \<open>The exponent of a positive number\<close>

definition ilog2 :: "rat \<Rightarrow> int" where
  "ilog2 x = (let (n, d) = quotient_of x; k = int (floorlog 2 (nat n)) - int (floorlog 2 (nat d))
     in if 2 powi k \<le> x then k else k - 1)"

lemma pow2_bounds:
  assumes "0 < k" "2 ^ (k - 1) \<le> n" "n < 2 ^ k"
  shows "2 powi (int k - 1) \<le> (of_nat n :: rat) \<and> (of_nat n :: rat) < 2 powi (int k)"
proof -
  have "(of_nat (2 ^ (k - 1)) :: rat) \<le> of_nat n" "(of_nat n :: rat) < of_nat (2 ^ k)"
    using assms by (simp_all only: of_nat_le_iff of_nat_less_iff)
  moreover have e: "int k - 1 = int (k - 1)" using assms(1) by linarith
  ultimately show ?thesis unfolding e by simp
qed

lemma floorlog2_bounds:
  "0 < n \<Longrightarrow> 2 powi (int (floorlog 2 n) - 1) \<le> (of_nat n :: rat) \<and> (of_nat n :: rat) < 2 powi (int (floorlog 2 n))"
proof -
  assume n: "0 < n"
  have b: "2 ^ (floorlog 2 n - 1) \<le> n" "n < 2 ^ floorlog 2 n"
    using floorlog_bounds [of n 2] n by auto
  have p: "0 < floorlog 2 n"
  proof (rule ccontr)
    assume "\<not> 0 < floorlog 2 n"
    then show False using b(2) n by simp
  qed
  show ?thesis by (rule pow2_bounds [OF p b])
qed

lemma ilog2_bounds:
  assumes "0 < x"
  shows "2 powi (ilog2 x) \<le> x \<and> x < 2 powi (ilog2 x + 1)"
proof -
  obtain n d where q: "quotient_of x = (n, d)" by (cases "quotient_of x")
  then have d: "0 < d" and x: "x = of_int n / of_int d"
    using quotient_of_denom_pos quotient_of_div by auto
  then have n: "0 < n" using assms by (simp add: zero_less_divide_iff)
  define a b where "a = int (floorlog 2 (nat n))" and "b = int (floorlog 2 (nat d))"
  have N: "2 powi (a - 1) \<le> (of_int n :: rat)" "(of_int n :: rat) < 2 powi a"
    using floorlog2_bounds [of "nat n"] n unfolding a_def by auto
  have D: "2 powi (b - 1) \<le> (of_int d :: rat)" "(of_int d :: rat) < 2 powi b"
    using floorlog2_bounds [of "nat d"] d unfolding b_def by auto
  have "2 powi (a - 1) / 2 powi b \<le> x"
    unfolding x by (rule frac_le) (use N(1) D n d in \<open>simp_all add: less_imp_le\<close>)
  then have lo: "2 powi (a - b - 1) \<le> x" by (simp add: power_int_diff mult.commute)
  have "x < 2 powi a / 2 powi (b - 1)"
    unfolding x by (rule frac_less) (use N D n d in \<open>simp_all add: less_imp_le\<close>)
  then have hi: "x < 2 powi (a - b + 1)" by (simp add: power_int_diff power_int_add)
  show ?thesis using lo hi by (auto simp: ilog2_def q Let_def simp flip: a_def b_def)
qed

lemma powi_less: "(2::rat) powi a < 2 powi b \<longleftrightarrow> a < b"
  using power_int_strict_increasing [of a b "2::rat"] power_int_increasing [of b a "2::rat"]
  by (metis less_le_not_le linorder_not_le one_less_numeral_iff order.strict_implies_order semiring_norm(76))

lemma powi_le: "(2::rat) powi a \<le> 2 powi b \<longleftrightarrow> a \<le> b"
  using powi_less [of b a] by (simp add: linorder_not_less [symmetric] del: powi_less)

lemma ilog2_mono: "0 < x \<Longrightarrow> x \<le> y \<Longrightarrow> ilog2 x \<le> ilog2 y"
proof -
  assume "0 < x" "x \<le> y"
  then have "(2::rat) powi (ilog2 x) < 2 powi (ilog2 y + 1)"
    using ilog2_bounds [of x] ilog2_bounds [of y] by linarith
  then show ?thesis by (simp add: powi_less)
qed

section \<open>Rounding to a significand of 24 bits\<close>

definition fl32 :: "rat \<Rightarrow> rat" where
  "fl32 x = (if x = 0 then 0 else
     let u = 2 powi (ilog2 \<bar>x\<bar> - 23) in of_int (round_even (x / u)) * u)"

lemma fl32_0 [simp]: "fl32 0 = 0"
  by (simp add: fl32_def)

lemma fl32_exact: "x / 2 powi (ilog2 \<bar>x\<bar> - 23) = of_int z \<Longrightarrow> fl32 x = x"
proof -
  assume a: "x / 2 powi (ilog2 \<bar>x\<bar> - 23) = of_int z"
  then have "x = of_int z * 2 powi (ilog2 \<bar>x\<bar> - 23)" by (simp add: field_simps)
  then show ?thesis unfolding fl32_def Let_def a by simp
qed

text \<open>Integers up to \<open>2 ^ 24\<close> are numbers of the format.\<close>

lemma fl32_int [float_exact]:
  assumes "\<bar>z\<bar> \<le> 2 ^ 24"
  shows "fl32 (of_int z) = of_int z"
proof (cases "z = 0")
  case False
  let ?e = "ilog2 \<bar>of_int z :: rat\<bar>"
  have pos: "(0::rat) < \<bar>of_int z\<bar>" using False by simp
  note B = ilog2_bounds [OF pos]
  show ?thesis
  proof (cases "\<bar>z\<bar> = 2 ^ 24")
    case True
    then have z24: "\<bar>of_int z :: rat\<bar> = 2 powi 24" by (metis of_int_abs of_int_numeral of_int_power power_int_numeral)
    then have "?e = 24" using B powi_less [of "24" "?e + 1"] powi_le [of "?e" 24] by simp
    then have "of_int z / 2 powi (?e - 23) = (of_int (if z < 0 then - (2 ^ 23) else 2 ^ 23) :: rat)"
      using True by (cases "z < 0") (simp_all add: minus_equation_iff [of z])
    then show ?thesis by (rule fl32_exact)
  next
    case False
    then have "\<bar>z\<bar> < 2 ^ 24" using assms by simp
    then have "(of_int \<bar>z\<bar> :: rat) < of_int (2 ^ 24)" by (simp only: of_int_less_iff)
    then have "(2::rat) powi ?e < 2 powi 24" using B by simp
    then have e: "?e \<le> 23" unfolding powi_less by linarith
    define k where "k = nat (23 - ?e)"
    have "?e - 23 = - int k" using e by (simp add: k_def)
    then have "of_int z / 2 powi (?e - 23) = (of_int (z * 2 ^ k) :: rat)"
      by (simp only: power_int_minus power_int_of_nat divide_inverse inverse_inverse_eq) simp
    then show ?thesis by (rule fl32_exact)
  qed
qed simp

lemma fl32_le_pow:
  assumes "0 < x" shows "2 powi (ilog2 x) \<le> fl32 x \<and> fl32 x \<le> 2 powi (ilog2 x + 1)"
proof -
  let ?u = "2 powi (ilog2 x - 23) :: rat"
  have u: "0 < ?u" by simp
  have s: "2 powi (ilog2 x) / ?u = of_int (2 ^ 23)" "2 powi (ilog2 x + 1) / ?u = of_int (2 ^ 24)"
    by (simp_all flip: power_int_diff)
  have "of_int (2 ^ 23) \<le> x / ?u" "x / ?u \<le> of_int (2 ^ 24)"
    unfolding s [symmetric] using ilog2_bounds [OF assms] u by (simp_all add: divide_right_mono)
  then have "2 ^ 23 \<le> round_even (x / ?u)" "round_even (x / ?u) \<le> 2 ^ 24"
    using round_even_mono round_even_int by metis+
  then have "(of_int (2 ^ 23) :: rat) \<le> of_int (round_even (x / ?u))"
    "of_int (round_even (x / ?u)) \<le> (of_int (2 ^ 24) :: rat)" by (simp_all only: of_int_le_iff)
  then have "2 powi (ilog2 x) / ?u \<le> of_int (round_even (x / ?u))"
    "of_int (round_even (x / ?u)) \<le> 2 powi (ilog2 x + 1) / ?u" unfolding s .
  then show ?thesis using assms u by (simp add: fl32_def Let_def pos_divide_le_eq pos_le_divide_eq)
qed

lemma fl32_mono_pos:
  assumes "0 < x" "x \<le> y" shows "fl32 x \<le> fl32 y"
proof (cases "ilog2 x = ilog2 y")
  case True
  let ?u = "2 powi (ilog2 x - 23) :: rat"
  have "round_even (x / ?u) \<le> round_even (y / ?u)"
    using assms by (intro round_even_mono divide_right_mono) auto
  then show ?thesis using assms True by (simp add: fl32_def Let_def)
next
  case False
  then have "ilog2 x + 1 \<le> ilog2 y" using ilog2_mono [OF assms] by linarith
  then have "(2::rat) powi (ilog2 x + 1) \<le> 2 powi (ilog2 y)" by (simp add: powi_le)
  then show ?thesis using fl32_le_pow [of x] fl32_le_pow [of y] assms by linarith
qed

lemma fl32_nonneg: "0 \<le> x \<Longrightarrow> 0 \<le> fl32 x"
  using fl32_le_pow [of x] zero_less_power_int [of "2::rat" "ilog2 x"]
  by (cases "x = 0") (simp, linarith)

end
