(* ===== verification/HashTable.thy ===== *)
theory HashTable
  imports Wyhash Float32
begin

unbundle bit_operations_syntax

text \<open>
  The table behind \<open>a_hashmap\<close> and \<open>a_hashset\<close>: \<open>detail::table\<close> of src/src/ankerl/unordered_dense.h with
  \<open>std::vector\<close> containers and the bucket \<open>bucket_type::standard\<close>. The elements lie densely in
  \<open>m_values\<close>; the buckets are a robin hood table of indices into it. A bucket's first word holds the distance
  from its home, counted from 1, above an 8 bit fingerprint of the hash; the whole word is 0 when the
  bucket is empty. The parameters of the template become arguments: \<open>gk\<close> is \<open>get_key\<close> (\<open>fst\<close> for a map, the
  identity for a set) and \<open>hs\<close> the hash functor \<open>m_hash\<close>; the comparison is equality. An iterator is its
  offset from \<open>begin()\<close>. \<open>None\<close> stands for an access outside a vector, an undefined shift or a loop that does
  not end; an exception is the left value of a sum, beside the table it leaves.
\<close>

section \<open>State\<close>

record Bucket =
  m_dist_and_fingerprint :: "32 word"
  m_value_idx :: "32 word"

definition no_bucket :: Bucket where
  "no_bucket = \<lparr>m_dist_and_fingerprint = 0, m_value_idx = 0\<rparr>"

record 'e table =
  m_values :: "'e list"
  m_buckets :: "Bucket list"
  m_max_bucket_capacity :: nat
  m_max_load_factor :: rat
  m_shifts :: nat

datatype table_error = Key_not_found | Bucket_overflow | Too_many_elements

text \<open>\<open>0.8F\<close>.\<close>

definition default_max_load_factor :: rat where
  "default_max_load_factor = 13421773 / 16777216"

definition initial_shifts :: nat where "initial_shifts = 64 - 2"

definition max_size :: nat where "max_size = 2 ^ 32"

definition raw_table :: "'e table" where
  "raw_table = \<lparr>m_values = [], m_buckets = [], m_max_bucket_capacity = 0,
     m_max_load_factor = default_max_load_factor, m_shifts = initial_shifts\<rparr>"

section \<open>Hash, distance and position\<close>

definition next_idx :: "nat \<Rightarrow> 32 word \<Rightarrow> 32 word" where
  "next_idx bucket_count i = (if unat (i + 1) = bucket_count then 0 else i + 1)"

definition dist_inc :: "32 word \<Rightarrow> 32 word" where "dist_inc x = x + 256"
definition dist_dec :: "32 word \<Rightarrow> 32 word" where "dist_dec x = x - 256"

text \<open>\<open>std::hash\<close> does not claim to avalanche, so the table mixes it again.\<close>

definition mixed_hash :: "('k \<Rightarrow> 64 word) \<Rightarrow> 'k \<Rightarrow> 64 word" where
  "mixed_hash hs k = hash64 (hs k)"

definition dist_and_fingerprint_from_hash :: "64 word \<Rightarrow> 32 word" where
  "dist_and_fingerprint_from_hash h = 256 OR (ucast h AND 255)"

definition bucket_idx_from_hash :: "nat \<Rightarrow> 64 word \<Rightarrow> 32 word" where
  "bucket_idx_from_hash shifts h = ucast (drop_bit shifts h)"

definition bucket_at :: "Bucket list \<Rightarrow> 32 word \<Rightarrow> Bucket option" where
  "bucket_at bs i = (if unat i < length bs then Some (bs ! unat i) else None)"

definition value_at :: "'e list \<Rightarrow> 32 word \<Rightarrow> 'e option" where
  "value_at vs i = (if unat i < length vs then Some (vs ! unat i) else None)"

section \<open>Loops over the buckets\<close>

text \<open>The loop of \<open>next_while_less\<close>: past every bucket that is farther from its home.\<close>

partial_function (option) skip_farther :: "Bucket list \<Rightarrow> 32 word \<Rightarrow> 32 word \<Rightarrow> (32 word \<times> 32 word) option" where
  [code]: "skip_farther bs df i = Option.bind (bucket_at bs i) (\<lambda>b.
     if df < m_dist_and_fingerprint b then skip_farther bs (dist_inc df) (next_idx (length bs) i)
     else Some (df, i))"

definition next_while_less :: "('k \<Rightarrow> 64 word) \<Rightarrow> 'e table \<Rightarrow> 'k \<Rightarrow> (32 word \<times> 32 word) option" where
  "next_while_less hs t k = (let h = mixed_hash hs k in
     skip_farther (m_buckets t) (dist_and_fingerprint_from_hash h) (bucket_idx_from_hash (m_shifts t) h))"

partial_function (option) place_and_shift_up :: "Bucket list \<Rightarrow> Bucket \<Rightarrow> 32 word \<Rightarrow> Bucket list option" where
  [code]: "place_and_shift_up bs bucket place = Option.bind (bucket_at bs place) (\<lambda>old.
     if m_dist_and_fingerprint old \<noteq> 0 then
       place_and_shift_up (bs[unat place := bucket])
         (old\<lparr>m_dist_and_fingerprint := dist_inc (m_dist_and_fingerprint old)\<rparr>) (next_idx (length bs) place)
     else Some (bs[unat place := bucket]))"

partial_function (option) shift_down :: "Bucket list \<Rightarrow> 32 word \<Rightarrow> 32 word \<Rightarrow> Bucket list option" where
  [code]: "shift_down bs i j = Option.bind (bucket_at bs j) (\<lambda>b.
     if m_dist_and_fingerprint b \<ge> 512 then
       shift_down (bs[unat i := \<lparr>m_dist_and_fingerprint = dist_dec (m_dist_and_fingerprint b),
                                 m_value_idx = m_value_idx b\<rparr>]) j (next_idx (length bs) j)
     else Some (bs[unat i := no_bucket]))"

definition erase_and_shift_down :: "Bucket list \<Rightarrow> 32 word \<Rightarrow> Bucket list option" where
  "erase_and_shift_down bs i = shift_down bs i (next_idx (length bs) i)"

text \<open>The loop by which \<open>do_try_emplace\<close>, \<open>do_find\<close>, \<open>emplace\<close>, \<open>replace\<close> and \<open>replace_key\<close> look for a key: either
  the bucket that holds it, or the distance and the position at which it would have to be.\<close>

datatype probe_result = Found "32 word" | Vacant "32 word" "32 word"

partial_function (option) probe :: "('e \<Rightarrow> 'k) \<Rightarrow> 'e list \<Rightarrow> Bucket list \<Rightarrow> 'k \<Rightarrow> 32 word \<Rightarrow> 32 word \<Rightarrow>
    probe_result option" where
  [code]: "probe gk vs bs k df i = Option.bind (bucket_at bs i) (\<lambda>b.
     if df > m_dist_and_fingerprint b then Some (Vacant df i)
     else if df = m_dist_and_fingerprint b then
       Option.bind (value_at vs (m_value_idx b)) (\<lambda>e.
         if gk e = k then Some (Found i)
         else probe gk vs bs k (dist_inc df) (next_idx (length bs) i))
     else probe gk vs bs k (dist_inc df) (next_idx (length bs) i))"

text \<open>The second loop of \<open>do_erase_key\<close>: over the buckets with the same distance and fingerprint.\<close>

partial_function (option) skip_equal :: "('e \<Rightarrow> 'k) \<Rightarrow> 'e list \<Rightarrow> Bucket list \<Rightarrow> 'k \<Rightarrow> 32 word \<Rightarrow> 32 word \<Rightarrow>
    (32 word \<times> 32 word) option" where
  [code]: "skip_equal gk vs bs k df i = Option.bind (bucket_at bs i) (\<lambda>b.
     if df = m_dist_and_fingerprint b then
       Option.bind (value_at vs (m_value_idx b)) (\<lambda>e.
         if gk e \<noteq> k then skip_equal gk vs bs k (dist_inc df) (next_idx (length bs) i)
         else Some (df, i))
     else Some (df, i))"

text \<open>The loop that looks for the bucket of a value by its index.\<close>

partial_function (option) find_slot :: "Bucket list \<Rightarrow> 32 word \<Rightarrow> 32 word \<Rightarrow> 32 word option" where
  [code]: "find_slot bs v i = Option.bind (bucket_at bs i) (\<lambda>b.
     if m_value_idx b \<noteq> v then find_slot bs v (next_idx (length bs) i) else Some i)"

section \<open>Size of the table\<close>

definition num_buckets :: "nat \<Rightarrow> nat" where
  "num_buckets shifts = min max_size (2 ^ (64 - shifts))"

text \<open>Undefined when the shift is by 64 bits or more.\<close>

definition calc_num_buckets :: "nat \<Rightarrow> nat option" where
  "calc_num_buckets shifts = (if 0 < shifts \<and> shifts \<le> 64 then Some (num_buckets shifts) else None)"

text \<open>\<open>static_cast<float>(n) * max_load_factor()\<close>, truncated.\<close>

definition loaded :: "rat \<Rightarrow> nat \<Rightarrow> nat" where
  "loaded ml n = nat \<lfloor>fl32 (fl32 (of_nat n) * ml)\<rfloor>"

fun shifts_from :: "rat \<Rightarrow> nat \<Rightarrow> nat \<Rightarrow> nat" where
  "shifts_from ml s 0 = 0"
| "shifts_from ml s (Suc n) = (if loaded ml (num_buckets (Suc n)) < s then shifts_from ml s n else Suc n)"

definition calc_shifts_for_size :: "rat \<Rightarrow> nat \<Rightarrow> nat" where
  "calc_shifts_for_size ml s = shifts_from ml s initial_shifts"

definition is_full :: "'e table \<Rightarrow> bool" where
  "is_full t \<longleftrightarrow> length (m_values t) > m_max_bucket_capacity t"

definition resize_buckets :: "nat \<Rightarrow> Bucket list \<Rightarrow> Bucket list" where
  "resize_buckets n bs = take n bs @ replicate (n - length bs) no_bucket"

definition deallocate_buckets :: "'e table \<Rightarrow> 'e table" where
  "deallocate_buckets t = t\<lparr>m_buckets := [], m_max_bucket_capacity := 0\<rparr>"

definition allocate_buckets_from_shift :: "'e table \<Rightarrow> 'e table option" where
  "allocate_buckets_from_shift t = do {
     n \<leftarrow> calc_num_buckets (m_shifts t);
     Some (t\<lparr>m_buckets := resize_buckets n (m_buckets t),
             m_max_bucket_capacity := (if n = max_size then max_size
               else loaded (m_max_load_factor t) n mod 2 ^ 32)\<rparr>)
   }"

definition clear_buckets :: "'e table \<Rightarrow> 'e table" where
  "clear_buckets t = t\<lparr>m_buckets := replicate (length (m_buckets t)) no_bucket\<rparr>"

definition fill_one :: "('e \<Rightarrow> 'k) \<Rightarrow> ('k \<Rightarrow> 64 word) \<Rightarrow> nat \<Rightarrow> 'e table \<Rightarrow> 'e table option" where
  "fill_one gk hs v t = do {
     (df, i) \<leftarrow> next_while_less hs t (gk (m_values t ! v));
     bs \<leftarrow> place_and_shift_up (m_buckets t) \<lparr>m_dist_and_fingerprint = df, m_value_idx = of_nat v\<rparr> i;
     Some (t\<lparr>m_buckets := bs\<rparr>)
   }"

fun fill_all :: "('e \<Rightarrow> 'k) \<Rightarrow> ('k \<Rightarrow> 64 word) \<Rightarrow> nat list \<Rightarrow> 'e table \<Rightarrow> 'e table option" where
  "fill_all gk hs [] t = Some t"
| "fill_all gk hs (v # vs) t = Option.bind (fill_one gk hs v t) (fill_all gk hs vs)"

definition clear_and_fill_buckets_from_values :: "('e \<Rightarrow> 'k) \<Rightarrow> ('k \<Rightarrow> 64 word) \<Rightarrow> 'e table \<Rightarrow> 'e table option" where
  "clear_and_fill_buckets_from_values gk hs t =
     fill_all gk hs [0 ..< length (m_values t) mod 2 ^ 32] (clear_buckets t)"

text \<open>\<open>True\<close>: the table is as large as it can be, the new value is gone again and the error is raised.\<close>

definition increase_size :: "('e \<Rightarrow> 'k) \<Rightarrow> ('k \<Rightarrow> 64 word) \<Rightarrow> 'e table \<Rightarrow> ('e table \<times> bool) option" where
  "increase_size gk hs t =
     (if m_max_bucket_capacity t = max_size then Some (t\<lparr>m_values := butlast (m_values t)\<rparr>, True)
      else do {
        t \<leftarrow> allocate_buckets_from_shift (deallocate_buckets (t\<lparr>m_shifts := m_shifts t - 1\<rparr>));
        t \<leftarrow> clear_and_fill_buckets_from_values gk hs t;
        Some (t, False)
      })"

definition reserve :: "('e \<Rightarrow> 'k) \<Rightarrow> ('k \<Rightarrow> 64 word) \<Rightarrow> nat \<Rightarrow> 'e table \<Rightarrow> 'e table option" where
  "reserve gk hs capa t =
     (let shifts = calc_shifts_for_size (m_max_load_factor t) (max (min capa max_size) (length (m_values t))) in
      if m_buckets t = [] \<or> shifts < m_shifts t then do {
        t \<leftarrow> allocate_buckets_from_shift (deallocate_buckets (t\<lparr>m_shifts := shifts\<rparr>));
        clear_and_fill_buckets_from_values gk hs t
      } else Some t)"

definition rehash :: "('e \<Rightarrow> 'k) \<Rightarrow> ('k \<Rightarrow> 64 word) \<Rightarrow> nat \<Rightarrow> 'e table \<Rightarrow> 'e table option" where
  "rehash gk hs n t =
     (let shifts = calc_shifts_for_size (m_max_load_factor t) (max (min n max_size) (length (m_values t))) in
      if shifts \<noteq> m_shifts t then do {
        t \<leftarrow> allocate_buckets_from_shift (deallocate_buckets (t\<lparr>m_shifts := shifts\<rparr>));
        clear_and_fill_buckets_from_values gk hs t
      } else Some t)"

definition set_max_load_factor :: "rat \<Rightarrow> 'e table \<Rightarrow> 'e table" where
  "set_max_load_factor ml t = (let t = t\<lparr>m_max_load_factor := ml\<rparr> in
     if length (m_buckets t) \<noteq> max_size
     then t\<lparr>m_max_bucket_capacity := loaded ml (length (m_buckets t)) mod 2 ^ 32\<rparr> else t)"

definition load_factor :: "'e table \<Rightarrow> rat" where
  "load_factor t = (if length (m_buckets t) \<noteq> 0
     then fl32 (fl32 (of_nat (length (m_values t))) / fl32 (of_nat (length (m_buckets t)))) else 0)"

text \<open>The constructor.\<close>

definition new_table :: "('e \<Rightarrow> 'k) \<Rightarrow> ('k \<Rightarrow> 64 word) \<Rightarrow> nat \<Rightarrow> 'e table option" where
  "new_table gk hs bucket_count =
     (if bucket_count \<noteq> 0 then reserve gk hs bucket_count raw_table
      else map_option clear_buckets (allocate_buckets_from_shift raw_table))"

section \<open>Lookup\<close>

definition probe_key :: "('e \<Rightarrow> 'k) \<Rightarrow> ('k \<Rightarrow> 64 word) \<Rightarrow> 'e table \<Rightarrow> 'k \<Rightarrow> probe_result option" where
  "probe_key gk hs t k = (let h = mixed_hash hs k in
     probe gk (m_values t) (m_buckets t) k (dist_and_fingerprint_from_hash h) (bucket_idx_from_hash (m_shifts t) h))"

text \<open>One of the two probes that \<open>do_find\<close> makes before its loop: the index of the value, if it is there.\<close>

definition direct_probe :: "('e \<Rightarrow> 'k) \<Rightarrow> 'e list \<Rightarrow> Bucket list \<Rightarrow> 'k \<Rightarrow> 32 word \<Rightarrow> 32 word \<Rightarrow> nat option option" where
  "direct_probe gk vs bs k df i = Option.bind (bucket_at bs i) (\<lambda>b.
     if df = m_dist_and_fingerprint b then
       map_option (\<lambda>e. if gk e = k then Some (unat (m_value_idx b)) else None) (value_at vs (m_value_idx b))
     else Some None)"

definition do_find :: "('e \<Rightarrow> 'k) \<Rightarrow> ('k \<Rightarrow> 64 word) \<Rightarrow> 'e table \<Rightarrow> 'k \<Rightarrow> nat option" where
  "do_find gk hs t k =
     (if m_values t = [] then Some (length (m_values t))
      else let vs = m_values t; bs = m_buckets t; mh = mixed_hash hs k;
               df = dist_and_fingerprint_from_hash mh; i = bucket_idx_from_hash (m_shifts t) mh in do {
        hit \<leftarrow> direct_probe gk vs bs k df i;
        case hit of Some v \<Rightarrow> Some v | None \<Rightarrow> do {
          let df = dist_inc df; let i = next_idx (length bs) i;
          hit \<leftarrow> direct_probe gk vs bs k df i;
          case hit of Some v \<Rightarrow> Some v | None \<Rightarrow> do {
            r \<leftarrow> probe gk vs bs k (dist_inc df) (next_idx (length bs) i);
            case r of Found i \<Rightarrow> map_option (\<lambda>b. unat (m_value_idx b)) (bucket_at bs i)
            | Vacant _ _ \<Rightarrow> Some (length vs)
          }
        }
      })"

definition contains :: "('e \<Rightarrow> 'k) \<Rightarrow> ('k \<Rightarrow> 64 word) \<Rightarrow> 'e table \<Rightarrow> 'k \<Rightarrow> bool option" where
  "contains gk hs t k = map_option (\<lambda>it. it \<noteq> length (m_values t)) (do_find gk hs t k)"

definition count_key :: "('e \<Rightarrow> 'k) \<Rightarrow> ('k \<Rightarrow> 64 word) \<Rightarrow> 'e table \<Rightarrow> 'k \<Rightarrow> nat option" where
  "count_key gk hs t k = map_option (\<lambda>it. if it = length (m_values t) then 0 else 1) (do_find gk hs t k)"

definition equal_range :: "('e \<Rightarrow> 'k) \<Rightarrow> ('k \<Rightarrow> 64 word) \<Rightarrow> 'e table \<Rightarrow> 'k \<Rightarrow> (nat \<times> nat) option" where
  "equal_range gk hs t k = map_option (\<lambda>it. (it, if it = length (m_values t) then it else it + 1)) (do_find gk hs t k)"

definition do_at :: "('k \<Rightarrow> 64 word) \<Rightarrow> ('k \<times> 'v) table \<Rightarrow> 'k \<Rightarrow> (table_error + 'v) option" where
  "do_at hs t k = do {
     it \<leftarrow> do_find fst hs t k;
     if it \<noteq> length (m_values t) then Some (Inr (snd (m_values t ! it))) else Some (Inl Key_not_found)
   }"

section \<open>Insertion\<close>

text \<open>What follows the push of a new last value: a rehash of everything, or one bucket.\<close>

definition index_last :: "('e \<Rightarrow> 'k) \<Rightarrow> ('k \<Rightarrow> 64 word) \<Rightarrow> 'e table \<Rightarrow> 32 word \<Rightarrow> 32 word \<Rightarrow>
    ('e table \<times> (table_error + nat \<times> bool)) option" where
  "index_last gk hs t df i =
     (let v = of_nat (length (m_values t) - 1) in
      if is_full t then do {
        (t, overflow) \<leftarrow> increase_size gk hs t;
        Some (t, if overflow then Inl Bucket_overflow else Inr (unat v, True))
      } else do {
        bs \<leftarrow> place_and_shift_up (m_buckets t) \<lparr>m_dist_and_fingerprint = df, m_value_idx = v\<rparr> i;
        Some (t\<lparr>m_buckets := bs\<rparr>, Inr (unat v, True))
      })"

definition do_place_element :: "('e \<Rightarrow> 'k) \<Rightarrow> ('k \<Rightarrow> 64 word) \<Rightarrow> 'e table \<Rightarrow> 32 word \<Rightarrow> 32 word \<Rightarrow> 'e \<Rightarrow>
    ('e table \<times> (table_error + nat \<times> bool)) option" where
  "do_place_element gk hs t df i e = index_last gk hs (t\<lparr>m_values := m_values t @ [e]\<rparr>) df i"

text \<open>\<open>e\<close> is the element that \<open>do_try_emplace\<close> builds from the key and the arguments when the key is new.\<close>

definition do_try_emplace :: "('e \<Rightarrow> 'k) \<Rightarrow> ('k \<Rightarrow> 64 word) \<Rightarrow> 'e table \<Rightarrow> 'k \<Rightarrow> 'e \<Rightarrow>
    ('e table \<times> (table_error + nat \<times> bool)) option" where
  "do_try_emplace gk hs t k e = do {
     r \<leftarrow> probe_key gk hs t k;
     case r of
       Found i \<Rightarrow> map_option (\<lambda>b. (t, Inr (unat (m_value_idx b), False))) (bucket_at (m_buckets t) i)
     | Vacant df i \<Rightarrow> do_place_element gk hs t df i e
   }"

text \<open>\<open>emplace\<close>, and so \<open>insert\<close>: the element is pushed before its key is looked for, and popped if it is there.\<close>

definition emplace :: "('e \<Rightarrow> 'k) \<Rightarrow> ('k \<Rightarrow> 64 word) \<Rightarrow> 'e table \<Rightarrow> 'e \<Rightarrow>
    ('e table \<times> (table_error + nat \<times> bool)) option" where
  "emplace gk hs t e = (let t' = t\<lparr>m_values := m_values t @ [e]\<rparr> in do {
     r \<leftarrow> probe_key gk hs t' (gk e);
     case r of
       Found i \<Rightarrow> map_option (\<lambda>b. (t'\<lparr>m_values := butlast (m_values t')\<rparr>, Inr (unat (m_value_idx b), False)))
                    (bucket_at (m_buckets t') i)
     | Vacant df i \<Rightarrow> index_last gk hs t' df i
   })"

fun insert_range :: "('e \<Rightarrow> 'k) \<Rightarrow> ('k \<Rightarrow> 64 word) \<Rightarrow> 'e list \<Rightarrow> 'e table \<Rightarrow> ('e table \<times> table_error option) option" where
  "insert_range gk hs [] t = Some (t, None)"
| "insert_range gk hs (e # es) t = do {
     (t, r) \<leftarrow> emplace gk hs t e;
     case r of Inl x \<Rightarrow> Some (t, Some x) | Inr _ \<Rightarrow> insert_range gk hs es t
   }"

text \<open>The assignments \<open>m.insert_or_assign(k, v)\<close> and \<open>m[k] = v\<close>; \<open>d\<close> is the default of the mapped type.\<close>

definition set_second :: "nat \<Rightarrow> 'v \<Rightarrow> ('k \<times> 'v) table \<Rightarrow> ('k \<times> 'v) table" where
  "set_second it v t = t\<lparr>m_values := (m_values t)[it := (fst (m_values t ! it), v)]\<rparr>"

definition insert_or_assign :: "('k \<Rightarrow> 64 word) \<Rightarrow> ('k \<times> 'v) table \<Rightarrow> 'k \<Rightarrow> 'v \<Rightarrow>
    (('k \<times> 'v) table \<times> (table_error + nat \<times> bool)) option" where
  "insert_or_assign hs t k v = do {
     (t, r) \<leftarrow> do_try_emplace fst hs t k (k, v);
     case r of Inr (it, False) \<Rightarrow> Some (set_second it v t, r) | _ \<Rightarrow> Some (t, r)
   }"

definition index_assign :: "'v \<Rightarrow> ('k \<Rightarrow> 64 word) \<Rightarrow> ('k \<times> 'v) table \<Rightarrow> 'k \<Rightarrow> 'v \<Rightarrow>
    (('k \<times> 'v) table \<times> (table_error + nat)) option" where
  "index_assign d hs t k v = do {
     (t, r) \<leftarrow> do_try_emplace fst hs t k (k, d);
     case r of Inr (it, _) \<Rightarrow> Some (set_second it v t, Inr it) | Inl x \<Rightarrow> Some (t, Inl x)
   }"

section \<open>Removal\<close>

text \<open>The last value moves into the hole, and the bucket of that value is found by its index.\<close>

definition do_erase :: "('e \<Rightarrow> 'k) \<Rightarrow> ('k \<Rightarrow> 64 word) \<Rightarrow> 'e table \<Rightarrow> 32 word \<Rightarrow> ('e table \<times> 'e) option" where
  "do_erase gk hs t i = do {
     b \<leftarrow> bucket_at (m_buckets t) i;
     let r = m_value_idx b;
     bs \<leftarrow> erase_and_shift_down (m_buckets t) i;
     erased \<leftarrow> value_at (m_values t) r;
     let n = length (m_values t);
     if unat r \<noteq> n - 1 then do {
       let val = last (m_values t);
       j \<leftarrow> find_slot bs (of_nat (n - 1)) (bucket_idx_from_hash (m_shifts t) (mixed_hash hs (gk val)));
       Some (t\<lparr>m_values := butlast ((m_values t)[unat r := val]),
               m_buckets := bs[unat j := (bs ! unat j)\<lparr>m_value_idx := r\<rparr>]\<rparr>, erased)
     } else Some (t\<lparr>m_values := butlast (m_values t), m_buckets := bs\<rparr>, erased)
   }"

definition do_erase_key :: "('e \<Rightarrow> 'k) \<Rightarrow> ('k \<Rightarrow> 64 word) \<Rightarrow> 'e table \<Rightarrow> 'k \<Rightarrow> ('e table \<times> 'e option) option" where
  "do_erase_key gk hs t k =
     (if m_values t = [] then Some (t, None)
      else do {
        (df, i) \<leftarrow> next_while_less hs t k;
        (df, i) \<leftarrow> skip_equal gk (m_values t) (m_buckets t) k df i;
        b \<leftarrow> bucket_at (m_buckets t) i;
        if df \<noteq> m_dist_and_fingerprint b then Some (t, None)
        else map_option (\<lambda>(t, e). (t, Some e)) (do_erase gk hs t i)
      })"

text \<open>\<open>erase(key)\<close> returns how many it removed, \<open>extract(key)\<close> the value itself.\<close>

definition erase_key :: "('e \<Rightarrow> 'k) \<Rightarrow> ('k \<Rightarrow> 64 word) \<Rightarrow> 'e table \<Rightarrow> 'k \<Rightarrow> ('e table \<times> nat) option" where
  "erase_key gk hs t k = map_option (\<lambda>(t, e). (t, if e = None then 0 else 1)) (do_erase_key gk hs t k)"

definition extract_key :: "('e \<Rightarrow> 'k) \<Rightarrow> ('k \<Rightarrow> 64 word) \<Rightarrow> 'e table \<Rightarrow> 'k \<Rightarrow> ('e table \<times> 'e option) option" where
  "extract_key gk hs t k = do_erase_key gk hs t k"

definition extract_at :: "('e \<Rightarrow> 'k) \<Rightarrow> ('k \<Rightarrow> 64 word) \<Rightarrow> 'e table \<Rightarrow> nat \<Rightarrow> ('e table \<times> 'e) option" where
  "extract_at gk hs t it =
     (if it < length (m_values t) then do {
        i \<leftarrow> find_slot (m_buckets t) (of_nat it)
               (bucket_idx_from_hash (m_shifts t) (mixed_hash hs (gk (m_values t ! it))));
        do_erase gk hs t i
      } else None)"

definition erase_at :: "('e \<Rightarrow> 'k) \<Rightarrow> ('k \<Rightarrow> 64 word) \<Rightarrow> 'e table \<Rightarrow> nat \<Rightarrow> ('e table \<times> nat) option" where
  "erase_at gk hs t it = map_option (\<lambda>(t, _). (t, it)) (extract_at gk hs t it)"

fun erase_each :: "('e \<Rightarrow> 'k) \<Rightarrow> ('k \<Rightarrow> 64 word) \<Rightarrow> nat list \<Rightarrow> 'e table \<Rightarrow> 'e table option" where
  "erase_each gk hs [] t = Some t"
| "erase_each gk hs (it # its) t = Option.bind (erase_at gk hs t it) (\<lambda>(t, _). erase_each gk hs its t)"

text \<open>\<open>erase(first, last)\<close>: from the left while values from the end fill the holes, then from the right.\<close>

definition erase_range :: "('e \<Rightarrow> 'k) \<Rightarrow> ('k \<Rightarrow> 64 word) \<Rightarrow> 'e table \<Rightarrow> nat \<Rightarrow> nat \<Rightarrow> ('e table \<times> nat) option" where
  "erase_range gk hs t lo hi =
     (let mid = lo + min (hi - lo) (length (m_values t) - hi) in
      map_option (\<lambda>t. (t, lo)) (erase_each gk hs ([lo ..< mid] @ rev [mid ..< hi]) t))"

fun erase_if_from :: "('e \<Rightarrow> 'k) \<Rightarrow> ('k \<Rightarrow> 64 word) \<Rightarrow> ('e \<Rightarrow> bool) \<Rightarrow> nat \<Rightarrow> 'e table \<Rightarrow> 'e table option" where
  "erase_if_from gk hs p 0 t = Some t"
| "erase_if_from gk hs p (Suc idx) t =
     (if p (m_values t ! idx) then Option.bind (erase_at gk hs t idx) (\<lambda>(t, _). erase_if_from gk hs p idx t)
      else erase_if_from gk hs p idx t)"

definition erase_if :: "('e \<Rightarrow> 'k) \<Rightarrow> ('k \<Rightarrow> 64 word) \<Rightarrow> ('e \<Rightarrow> bool) \<Rightarrow> 'e table \<Rightarrow> ('e table \<times> nat) option" where
  "erase_if gk hs p t = map_option (\<lambda>t'. (t', length (m_values t) - length (m_values t')))
     (erase_if_from gk hs p (length (m_values t)) t)"

definition clear_table :: "'e table \<Rightarrow> 'e table" where
  "clear_table t = clear_buckets (t\<lparr>m_values := []\<rparr>)"

section \<open>Replacing keys and contents\<close>

text \<open>\<open>replace_key(it, new_key)\<close>; \<open>sk\<close> overwrites the key of an element.\<close>

definition replace_key :: "('e \<Rightarrow> 'k) \<Rightarrow> ('k \<Rightarrow> 'e \<Rightarrow> 'e) \<Rightarrow> ('k \<Rightarrow> 64 word) \<Rightarrow> 'e table \<Rightarrow> nat \<Rightarrow> 'k \<Rightarrow>
    ('e table \<times> nat \<times> bool) option" where
  "replace_key gk sk hs t it new_key =
     (if it < length (m_values t) then do {
        r \<leftarrow> probe_key gk hs t new_key;
        case r of
          Found i \<Rightarrow> map_option (\<lambda>b. (t, unat (m_value_idx b), False)) (bucket_at (m_buckets t) i)
        | Vacant _ _ \<Rightarrow> do {
            let old_idx = bucket_idx_from_hash (m_shifts t) (mixed_hash hs (gk (m_values t ! it)));
            let t = t\<lparr>m_values := (m_values t)[it := sk new_key (m_values t ! it)]\<rparr>;
            i \<leftarrow> find_slot (m_buckets t) (of_nat it) old_idx;
            bs \<leftarrow> erase_and_shift_down (m_buckets t) i;
            (df, i) \<leftarrow> next_while_less hs (t\<lparr>m_buckets := bs\<rparr>) new_key;
            bs \<leftarrow> place_and_shift_up bs \<lparr>m_dist_and_fingerprint = df, m_value_idx = of_nat it\<rparr> i;
            Some (t\<lparr>m_buckets := bs\<rparr>, it, True)
          }
      } else None)"

text \<open>The loop of \<open>replace(container)\<close>: a value whose key is already there is overwritten by the last one.\<close>

partial_function (option) index_unique :: "('e \<Rightarrow> 'k) \<Rightarrow> ('k \<Rightarrow> 64 word) \<Rightarrow> nat \<Rightarrow> 'e table \<Rightarrow> 'e table option" where
  [code]: "index_unique gk hs v t =
     (if v = length (m_values t) mod 2 ^ 32 then Some t
      else Option.bind (probe_key gk hs t (gk (m_values t ! v))) (\<lambda>r.
        case r of
          Found _ \<Rightarrow> index_unique gk hs v (t\<lparr>m_values :=
            (if v \<noteq> length (m_values t) - 1 then butlast ((m_values t)[v := last (m_values t)])
             else butlast (m_values t))\<rparr>)
        | Vacant df i \<Rightarrow>
            Option.bind (place_and_shift_up (m_buckets t) \<lparr>m_dist_and_fingerprint = df, m_value_idx = of_nat v\<rparr> i)
              (\<lambda>bs. index_unique gk hs (Suc v) (t\<lparr>m_buckets := bs\<rparr>))))"

definition replace :: "('e \<Rightarrow> 'k) \<Rightarrow> ('k \<Rightarrow> 64 word) \<Rightarrow> 'e list \<Rightarrow> 'e table \<Rightarrow> ('e table \<times> table_error option) option" where
  "replace gk hs container t =
     (if length container > max_size then Some (t, Some Too_many_elements)
      else let shifts = calc_shifts_for_size (m_max_load_factor t) (length container) in do {
        t \<leftarrow> (if m_buckets t = [] \<or> shifts < m_shifts t
              then allocate_buckets_from_shift (deallocate_buckets (t\<lparr>m_shifts := shifts\<rparr>)) else Some t);
        t \<leftarrow> index_unique gk hs 0 ((clear_buckets t)\<lparr>m_values := container\<rparr>);
        Some (t, None)
      })"

text \<open>\<open>extract()\<close> moves the values out and leaves the buckets behind.\<close>

definition extract_values :: "'e table \<Rightarrow> 'e table \<times> 'e list" where
  "extract_values t = (t\<lparr>m_values := []\<rparr>, m_values t)"

section \<open>Copy, move and comparison\<close>

definition copy_buckets :: "'e table \<Rightarrow> 'e table \<Rightarrow> 'e table option" where
  "copy_buckets other t =
     (if m_values t = [] then map_option clear_buckets (allocate_buckets_from_shift t)
      else do {
        t \<leftarrow> allocate_buckets_from_shift (t\<lparr>m_shifts := m_shifts other\<rparr>);
        if length (m_buckets t) \<le> length (m_buckets other)
        then Some (t\<lparr>m_buckets := take (length (m_buckets t)) (m_buckets other)\<rparr>) else None
      })"

definition copy_table :: "'e table \<Rightarrow> 'e table option" where
  "copy_table other = copy_buckets other
     (raw_table\<lparr>m_values := m_values other, m_max_load_factor := m_max_load_factor other\<rparr>)"

definition copy_assign :: "'e table \<Rightarrow> 'e table \<Rightarrow> 'e table option" where
  "copy_assign t other = copy_buckets other
     ((deallocate_buckets t)\<lparr>m_values := m_values other, m_max_load_factor := m_max_load_factor other,
        m_shifts := initial_shifts\<rparr>)"

text \<open>Between tables with the same allocator: the new table, and what is left of the other.\<close>

definition move_assign :: "'e table \<Rightarrow> 'e table \<Rightarrow> ('e table \<times> 'e table) option" where
  "move_assign t other =
     map_option (\<lambda>rest. (other, clear_buckets rest))
       (allocate_buckets_from_shift (other\<lparr>m_values := [], m_buckets := [], m_max_bucket_capacity := 0,
          m_shifts := initial_shifts, m_max_load_factor := default_max_load_factor\<rparr>))"

fun all_found :: "('k \<Rightarrow> 64 word) \<Rightarrow> ('k \<times> 'v) table \<Rightarrow> ('k \<times> 'v) list \<Rightarrow> bool option" where
  "all_found hs a [] = Some True"
| "all_found hs a ((k, v) # es) = do {
     it \<leftarrow> do_find fst hs a k;
     if it = length (m_values a) \<or> v \<noteq> snd (m_values a ! it) then Some False else all_found hs a es
   }"

definition map_equal :: "('k \<Rightarrow> 64 word) \<Rightarrow> ('k \<times> 'v) table \<Rightarrow> ('k \<times> 'v) table \<Rightarrow> bool option" where
  "map_equal hs a b = (if length (m_values a) \<noteq> length (m_values b) then Some False
     else all_found hs a (m_values b))"

end
