(* ===== verification/HashTableInv.thy ===== *)
theory HashTableInv
  imports HashTable
begin

text \<open>
  The invariant of the bucket array and what each loop over it does. A bucket that is not empty stands for
  an entry: its value index, its fingerprint and its home, the position it has minus its distance.
  \<open>entries\<close> collects the entries of all buckets. The array is \<open>smooth\<close> when no bucket is more than one
  step farther from home than its predecessor. Shifting up adds one entry and shifting down removes one,
  and both keep the array smooth; in a smooth array every loop that looks for an entry finds it before it
  reaches a bucket that is nearer to its home. All of it needs an empty bucket, and at most \<open>2 ^ 23\<close>
  buckets, so that the 24 bits of the distance do not overflow.
\<close>

abbreviation (input) D :: "Bucket \<Rightarrow> nat" where "D b \<equiv> unat (m_dist_and_fingerprint b)"
abbreviation (input) V :: "Bucket \<Rightarrow> nat" where "V b \<equiv> unat (m_value_idx b)"

section \<open>Going round\<close>

definition nx :: "nat \<Rightarrow> nat \<Rightarrow> nat" where
  "nx n i = Suc i mod n"

lemma nx_less [simp]: "i < n \<Longrightarrow> nx n i < n"
  by (simp add: nx_def)

lemma nx_neq: "i < n \<Longrightarrow> 2 \<le> n \<Longrightarrow> nx n i \<noteq> i"
  by (cases "Suc i = n") (auto simp: nx_def)

lemma nx_inj: "i < n \<Longrightarrow> j < n \<Longrightarrow> nx n i = nx n j \<Longrightarrow> i = j"
  by (cases "Suc i = n"; cases "Suc j = n") (auto simp: nx_def)

lemma nx_pred: "i < n \<Longrightarrow> \<exists>j < n. nx n j = i"
  by (cases i) (auto simp: nx_def intro: exI [of _ "n - 1"] exI [of _ "i - 1"])

lemma nx_add [simp]: "(nx n i + k) mod n = (i + Suc k) mod n"
  by (simp add: nx_def mod_simps)

lemma nx_mod [simp]: "nx n (i mod n) = Suc i mod n"
  by (simp add: nx_def mod_simps)

lemma go_round: "i < n \<Longrightarrow> j < n \<Longrightarrow> \<exists>k < n. (i + k) mod n = j" for i j n :: nat
proof -
  assume "i < n" "j < n"
  show ?thesis
  proof (cases "i \<le> j")
    case True
    with \<open>j < n\<close> show ?thesis by (intro exI [of _ "j - i"]) auto
  next
    case False
    with \<open>i < n\<close> show ?thesis by (intro exI [of _ "n - i + j"]) auto
  qed
qed

lemma go_round_past: "i < n \<Longrightarrow> j < n \<Longrightarrow> i \<noteq> j \<Longrightarrow> \<exists>k. Suc k < n \<and> (i + Suc k) mod n = j" for i j n :: nat
proof -
  assume a: "i < n" "j < n" "i \<noteq> j"
  obtain k where "k < n" "(i + k) mod n = j" using go_round [OF a(1,2)] by auto
  moreover have "k \<noteq> 0" by (rule notI) (use a calculation in simp)
  ultimately show ?thesis by (cases k) auto
qed

lemma walk_neq: "i < n \<Longrightarrow> 0 < k \<Longrightarrow> k < n \<Longrightarrow> (i + k) mod n \<noteq> i" for i k n :: nat
  by (cases "i + k < n") (auto simp: mod_if)

lemma unat_next_idx:
  assumes "unat i < n" "n < 2 ^ 32" shows "unat (next_idx n i) = nx n (unat i)"
proof -
  have "unat (i + 1) = Suc (unat i)" using assms by (simp add: unat_word_ariths)
  then show ?thesis using assms by (auto simp: next_idx_def nx_def)
qed

section \<open>Entries\<close>

type_synonym entry = "nat \<times> nat \<times> nat"

definition origin :: "nat \<Rightarrow> nat \<Rightarrow> nat \<Rightarrow> nat" where
  "origin n i d = nat ((int i + 1 - int d) mod int n)"

definition ent :: "nat \<Rightarrow> nat \<Rightarrow> Bucket \<Rightarrow> entry multiset" where
  "ent n i b = (if D b = 0 then {#} else {#(V b, D b mod 256, origin n i (D b div 256))#})"

definition entries :: "Bucket list \<Rightarrow> entry multiset" where
  "entries bs = (\<Sum>i < length bs. ent (length bs) i (bs ! i))"

lemma origin_at: "h < n \<Longrightarrow> origin n ((h + m) mod n) (Suc m) = h"
  by (simp add: origin_def zmod_int mod_simps)

lemma origin_home: "i < n \<Longrightarrow> (origin n i (Suc m) + m) mod n = i"
proof -
  assume i: "i < n"
  have "int ((origin n i (Suc m) + m) mod n) = ((int i - int m) mod int n + int m) mod int n"
    using i by (simp add: origin_def zmod_int)
  also have "\<dots> = int i" using i by (simp add: mod_simps)
  finally show ?thesis by simp
qed

lemma origin_less: "0 < n \<Longrightarrow> origin n i d < n"
  by (simp add: origin_def nat_less_iff)

lemma ent_shift:
  assumes "D b' = D b + 256" "V b' = V b" "256 \<le> D b" "i < n"
  shows "ent n (nx n i) b' = ent n i b"
proof -
  have "D b' div 256 = D b div 256 + 1" "D b' mod 256 = D b mod 256" using assms(1) by simp_all
  moreover have "origin n (nx n i) (d + 1) = origin n i d" for d
    by (simp add: origin_def nx_def zmod_int mod_simps add.commute)
  ultimately show ?thesis using assms by (auto simp: ent_def)
qed

lemma ent_no_bucket: "ent n i no_bucket = {#}"
  by (simp add: ent_def no_bucket_def)

lemma entries_split: "i < length bs \<Longrightarrow>
   entries bs = ent (length bs) i (bs ! i) + (\<Sum>j \<in> {..<length bs} - {i}. ent (length bs) j (bs ! j))"
  by (simp add: entries_def sum.remove)

lemma entries_update:
  assumes "i < length bs"
  shows "entries (bs[i := b]) + ent (length bs) i (bs ! i) = entries bs + ent (length bs) i b"
proof -
  have "(\<Sum>j \<in> {..<length bs} - {i}. ent (length bs) j (bs[i := b] ! j)) =
        (\<Sum>j \<in> {..<length bs} - {i}. ent (length bs) j (bs ! j))"
    by (rule sum.cong) auto
  then show ?thesis using entries_split [of i bs] entries_split [of i "bs[i := b]"] assms
    by (simp add: ac_simps)
qed

lemma entries_clear:
  "i < length bs \<Longrightarrow> entries (bs[i := no_bucket]) + ent (length bs) i (bs ! i) = entries bs"
  using entries_update [of i bs no_bucket] ent_no_bucket [of "length bs" i] by simp

lemma in_entries: "x \<in># entries bs \<longleftrightarrow>
   (\<exists>i < length bs. D (bs ! i) \<noteq> 0 \<and> x = (V (bs ! i), D (bs ! i) mod 256, origin (length bs) i (D (bs ! i) div 256)))"
  by (auto simp: entries_def ent_def set_mset_sum split: if_splits)

lemma entries_two:
  assumes "i < length bs" "j < length bs" "i \<noteq> j"
  shows "ent (length bs) i (bs ! i) + ent (length bs) j (bs ! j) \<subseteq># entries bs"
proof -
  have "(\<Sum>j \<in> {..<length bs} - {i}. ent (length bs) j (bs ! j)) =
        ent (length bs) j (bs ! j) + (\<Sum>j \<in> {..<length bs} - {i} - {j}. ent (length bs) j (bs ! j))"
    using assms by (intro sum.remove) auto
  then show ?thesis using entries_split [OF assms(1)] by (simp add: subset_mset.le_iff_add ac_simps)
qed

lemma all_nonempty_size:
  assumes "\<forall>i < length bs. D (bs ! i) \<noteq> 0" shows "size (entries bs) = length bs"
proof -
  have "size (entries bs) = (\<Sum>i < length bs. size (ent (length bs) i (bs ! i)))"
    unfolding entries_def by (rule size_multiset_sum)
  also have "\<dots> = (\<Sum>i < length bs. 1)" using assms by (intro sum.cong) (auto simp: ent_def)
  finally show ?thesis by simp
qed

section \<open>Smooth arrays\<close>

definition smooth :: "Bucket list \<Rightarrow> bool" where
  "smooth bs \<longleftrightarrow> (\<forall>i < length bs. (D (bs ! i) = 0 \<or> 256 \<le> D (bs ! i)) \<and>
     D (bs ! nx (length bs) i) \<le> max 511 (D (bs ! i) + 256))"

lemma smooth_nonzero: "smooth bs \<Longrightarrow> i < length bs \<Longrightarrow> D (bs ! i) \<noteq> 0 \<Longrightarrow> 256 \<le> D (bs ! i)"
  by (auto simp: smooth_def)

lemma smooth_next: "smooth bs \<Longrightarrow> i < length bs \<Longrightarrow> D (bs ! nx (length bs) i) \<le> max 511 (D (bs ! i) + 256)"
  by (simp add: smooth_def)

lemma smooth_update:
  assumes "smooth bs" "i < length bs" "2 \<le> length bs" "p < length bs" "nx (length bs) p = i"
    and "D b = 0 \<or> 256 \<le> D b" "D b \<le> max 511 (D (bs ! p) + 256)"
    and "D (bs ! nx (length bs) i) \<le> max 511 (D b + 256)"
  shows "smooth (bs[i := b])"
  unfolding smooth_def
proof (intro allI impI conjI; simp only: length_list_update)
  fix j assume j: "j < length bs"
  show "D (bs[i := b] ! j) = 0 \<or> 256 \<le> D (bs[i := b] ! j)"
    using assms(1,6) j by (cases "j = i") (auto simp: smooth_def)
  consider "j = i" | "j = p" "j \<noteq> i" | "j \<noteq> i" "nx (length bs) j \<noteq> i"
    using nx_inj [OF j assms(4)] assms(5) by metis
  then show "D (bs[i := b] ! nx (length bs) j) \<le> max 511 (D (bs[i := b] ! j) + 256)"
  proof cases
    case 1
    then show ?thesis using assms nx_neq [OF assms(2,3)] by simp
  next
    case 2
    then show ?thesis using assms by simp
  next
    case 3
    then show ?thesis using smooth_next [OF assms(1) j] by simp
  qed
qed

lemma smooth_bound:
  assumes "smooth bs" "e < length bs" "D (bs ! e) = 0"
  shows "D (bs ! ((e + j) mod length bs)) \<le> 256 * j + 255"
proof (induction j)
  case 0
  then show ?case using assms by simp
next
  case (Suc j)
  have "(e + j) mod length bs < length bs" by (rule mod_less_divisor) (use assms(2) in linarith)
  from smooth_next [OF assms(1) this] Suc show ?case by simp
qed

lemma smooth_all_less:
  assumes "smooth bs" "e < length bs" "D (bs ! e) = 0" "i < length bs"
  shows "D (bs ! i) < 256 * length bs"
proof -
  obtain k where "k < length bs" "(e + k) mod length bs = i" using go_round [OF assms(2,4)] by auto
  then show ?thesis using smooth_bound [OF assms(1-3), of k] by auto
qed

text \<open>An entry at distance \<open>m + 1\<close> has no nearer entry between it and its home.\<close>

lemma smooth_chain:
  assumes "smooth bs" "0 < length bs" "j \<le> m" "256 * (m + 1) + f \<le> D (bs ! ((h + m) mod length bs))"
  shows "256 * (j + 1) + f \<le> D (bs ! ((h + j) mod length bs))"
  using assms(3,4)
proof (induction m rule: dec_induct)
  case base
  then show ?case .
next
  case (step m)
  have "(h + m) mod length bs < length bs" using assms(2) by simp
  from smooth_next [OF assms(1) this] step show ?case by simp
qed

section \<open>The shifts\<close>

lemma dist_inc_unat: "unat x + 256 < 2 ^ 32 \<Longrightarrow> unat (dist_inc x) = unat x + 256"
  by (simp add: dist_inc_def unat_word_ariths)

lemma dist_dec_unat: "256 \<le> unat x \<Longrightarrow> unat (dist_dec x) = unat x - 256"
  by (simp add: dist_dec_def unat_sub word_le_nat_alt)

lemma place_and_shift_up_ok:
  assumes "smooth bs" "2 \<le> length bs" "length bs \<le> 2 ^ 23" "unat p < length bs"
    and "D (bs ! ((unat p + k) mod length bs)) = 0" "k < length bs"
    and "D (bs ! unat p) \<le> D b" "256 \<le> D b"
    and "q < length bs" "nx (length bs) q = unat p" "D b \<le> max 511 (D (bs ! q) + 256)"
  shows "yields (place_and_shift_up bs b p) (\<lambda>bs'. smooth bs' \<and> length bs' = length bs \<and>
     entries bs' = entries bs + ent (length bs) (unat p) b)"
  using assms
proof (induction k arbitrary: bs b p q)
  case 0
  define i where "i = unat p"
  have i: "i < length bs" "D (bs ! i) = 0" using 0 by (simp_all add: i_def)
  have "D (bs ! nx (length bs) i) \<le> 511" using smooth_next [OF 0(1) i(1)] i by simp
  then have "smooth (bs[i := b])"
    using 0 by (intro smooth_update [of bs i q]) (auto simp: i_def)
  moreover have "entries (bs[i := b]) = entries bs + ent (length bs) i b"
    using entries_update [OF i(1), of b] i by (simp add: ent_def)
  ultimately show ?case
    using i by (subst place_and_shift_up.simps) (simp add: bucket_at_def unat_eq_0 flip: i_def)
next
  case (Suc k)
  define i where "i = unat p"
  have i: "i < length bs" using Suc by (simp add: i_def)
  show ?case
  proof (cases "D (bs ! i) = 0")
    case True
    have "D (bs ! nx (length bs) i) \<le> 511" using smooth_next [OF Suc(2) i] True by simp
    then have "smooth (bs[i := b])"
      using Suc.prems by (intro smooth_update [of bs i q]) (auto simp: i_def)
    moreover have "entries (bs[i := b]) = entries bs + ent (length bs) i b"
      using entries_update [OF i, of b] True by (simp add: ent_def)
    ultimately show ?thesis
      using i True by (subst place_and_shift_up.simps) (simp add: bucket_at_def unat_eq_0 flip: i_def)
  next
    case False
    define old where "old = bs ! i"
    define b' where "b' = old\<lparr>m_dist_and_fingerprint := dist_inc (m_dist_and_fingerprint old)\<rparr>"
    define p' where "p' = next_idx (length bs) p"
    have p': "unat p' = nx (length bs) i" using Suc.prems by (simp add: p'_def i_def unat_next_idx)
    have old: "256 \<le> D old" "D old \<le> D b"
      using Suc.prems False smooth_nonzero [OF Suc(2) i] by (simp_all add: old_def i_def)
    have e: "(i + Suc k) mod length bs < length bs" by (rule mod_less_divisor) (use i in linarith)
    have "D old < 256 * length bs"
      using smooth_all_less [OF Suc(2) e] Suc.prems i by (simp add: old_def i_def)
    then have b': "D b' = D old + 256" "V b' = V old"
      using Suc.prems by (simp_all add: b'_def dist_inc_unat)
    have ne: "nx (length bs) i \<noteq> i" "(i + Suc k) mod length bs \<noteq> i"
      using nx_neq [OF i] walk_neq [OF i, of "Suc k"] Suc.prems by simp_all
    have nn: "D (bs ! nx (length bs) i) \<le> max 511 (D old + 256)" using smooth_next [OF Suc(2) i] by (simp add: old_def)
    have sm: "smooth (bs[i := b])"
      using Suc.prems nn old by (intro smooth_update [of bs i q]) (auto simp: i_def)
    have "yields (place_and_shift_up (bs[i := b]) b' p') (\<lambda>bs'. smooth bs' \<and> length bs' = length (bs[i := b]) \<and>
       entries bs' = entries (bs[i := b]) + ent (length (bs[i := b])) (unat p') b')"
      using Suc.prems nn old b' ne i e p' sm
      by (intro Suc.IH [where q = i]) (auto simp: i_def)
    then have "yields (place_and_shift_up (bs[i := b]) b' p') (\<lambda>bs'. smooth bs' \<and> length bs' = length bs \<and>
       entries bs' = entries bs + ent (length bs) i b)"
      using entries_update [OF i, of b] ent_shift [OF b' old(1) i]
      by (elim yields_weaken) (auto simp: p' old_def)
    then show ?thesis
      using i False by (subst place_and_shift_up.simps)
        (simp add: bucket_at_def unat_eq_0 flip: i_def old_def b'_def p'_def)
  qed
qed

lemma shift_down_ok:
  assumes "smooth bs" "2 \<le> length bs" "length bs \<le> 2 ^ 23" "unat i < length bs" "unat j = nx (length bs) (unat i)"
    and "D (bs ! ((unat i + Suc k) mod length bs)) < 512" "Suc k < length bs"
  shows "yields (shift_down bs i j) (\<lambda>bs'. smooth bs' \<and> length bs' = length bs \<and>
     entries bs' + ent (length bs) (unat i) (bs ! unat i) = entries bs)"
  using assms
proof (induction k arbitrary: bs i j)
  case (0 bs i j)
  define n where "n = unat i"
  have n: "n < length bs" "D (bs ! nx (length bs) n) < 512" using 0 by (simp_all add: n_def nx_def)
  obtain q where q: "q < length bs" "nx (length bs) q = n" using nx_pred [OF n(1)] by auto
  have "smooth (bs[n := no_bucket])"
    using 0 n q by (intro smooth_update [of bs n q]) (auto simp: no_bucket_def)
  moreover have "entries (bs[n := no_bucket]) + ent (length bs) n (bs ! n) = entries bs"
    by (rule entries_clear [OF n(1)])
  ultimately show ?case
    using 0 n by (subst shift_down.simps) (simp add: bucket_at_def word_le_nat_alt flip: n_def)
next
  case (Suc k)
  define n m where "n = unat i" and "m = unat j"
  have n: "n < length bs" and m: "m = nx (length bs) n" using Suc.prems by (simp_all add: n_def m_def)
  have ml: "m < length bs" "m \<noteq> n" using n nx_neq [OF n] Suc.prems(2) by (simp_all add: m)
  obtain q where q: "q < length bs" "nx (length bs) q = n" using nx_pred [OF n] by auto
  show ?case
  proof (cases "D (bs ! m) < 512")
    case True
    have "smooth (bs[n := no_bucket])"
      using Suc.prems n q True by (intro smooth_update [of bs n q]) (auto simp: no_bucket_def m)
    moreover have "entries (bs[n := no_bucket]) + ent (length bs) n (bs ! n) = entries bs"
      by (rule entries_clear [OF n])
    ultimately show ?thesis
      using ml True by (subst shift_down.simps) (simp add: bucket_at_def word_le_nat_alt flip: n_def m_def)
  next
    case False
    define b where "b = \<lparr>m_dist_and_fingerprint = dist_dec (m_dist_and_fingerprint (bs ! m)), m_value_idx = m_value_idx (bs ! m)\<rparr>"
    have b: "D (bs ! m) = D b + 256" "V (bs ! m) = V b" "256 \<le> D b"
      using False by (simp_all add: b_def dist_dec_unat)
    have "D (bs ! m) \<le> D (bs ! n) + 256" using smooth_next [OF Suc.prems(1) n] False by (simp add: m)
    moreover have "D (bs ! n) \<le> max 511 (D (bs ! q) + 256)" using smooth_next [OF Suc.prems(1) q(1)] by (simp add: q)
    ultimately have sm: "smooth (bs[n := b])"
      using Suc.prems n q b by (intro smooth_update [of bs n q]) (auto simp flip: m)
    have j': "unat (next_idx (length bs) j) = nx (length bs) m"
      using ml Suc.prems(3) by (simp add: m_def unat_next_idx)
    have wn: "(n + Suc (Suc k)) mod length bs \<noteq> n" using walk_neq [OF n, of "Suc (Suc k)"] Suc.prems(7) by simp
    have mk: "(m + Suc k) mod length bs = (n + Suc (Suc k)) mod length bs" by (simp only: m nx_add)
    have "yields (shift_down (bs[n := b]) j (next_idx (length bs) j)) (\<lambda>bs'. smooth bs' \<and> length bs' = length (bs[n := b]) \<and>
      entries bs' + ent (length (bs[n := b])) (unat j) (bs[n := b] ! unat j) = entries (bs[n := b]))"
      using sm j' ml mk wn Suc.prems by (intro Suc.IH) (auto simp flip: n_def m_def)
    then have "yields (shift_down (bs[n := b]) j (next_idx (length bs) j)) (\<lambda>bs'. smooth bs' \<and> length bs' = length bs \<and>
      entries bs' + ent (length bs) n (bs ! n) = entries bs)"
    proof (rule yields_weaken, elim conjE, intro conjI)
      fix bs' assume "entries bs' + ent (length (bs[n := b])) (unat j) (bs[n := b] ! unat j) = entries (bs[n := b])"
      moreover have "ent (length bs) m (bs ! m) = ent (length bs) n b"
        using ent_shift [OF b n] by (simp add: m)
      ultimately have "entries bs' + ent (length bs) n b + ent (length bs) n (bs ! n) = entries bs + ent (length bs) n b"
        using entries_update [OF n, of b] ml by (simp flip: m_def)
      then show "entries bs' + ent (length bs) n (bs ! n) = entries bs" by (simp add: ac_simps)
    qed auto
    then show ?thesis
      using ml False by (subst shift_down.simps) (simp add: bucket_at_def word_le_nat_alt flip: n_def m_def b_def)
  qed
qed

section \<open>Arrays that hold a list of entries\<close>

definition holds :: "Bucket list \<Rightarrow> entry list \<Rightarrow> bool" where
  "holds bs es \<longleftrightarrow> 4 \<le> length bs \<and> length bs \<le> 2 ^ 23 \<and> smooth bs \<and> entries bs = mset es \<and> distinct (map fst es) \<and>
     length es < length bs \<and> (\<forall>(v, f, h) \<in> set es. f < 256 \<and> h < length bs)"

lemma holds_size: "holds bs es \<Longrightarrow> 4 \<le> length bs \<and> length bs \<le> 2 ^ 23 \<and> 2 \<le> length bs \<and> length bs < 2 ^ 32"
  by (simp add: holds_def)

lemma holds_smooth: "holds bs es \<Longrightarrow> smooth bs"
  by (simp add: holds_def)

lemma holds_bounds: "holds bs es \<Longrightarrow> (v, f, h) \<in> set es \<Longrightarrow> f < 256 \<and> h < length bs"
  by (auto simp: holds_def)

lemma holds_empty_slot:
  assumes "holds bs es" shows "\<exists>e < length bs. D (bs ! e) = 0"
proof (rule ccontr)
  assume "\<not> ?thesis"
  then have "size (entries bs) = length bs" by (intro all_nonempty_size) simp
  then show False using assms by (simp add: holds_def)
qed

text \<open>Where the entry with value \<open>v\<close>, fingerprint \<open>f\<close> and home \<open>h\<close> is.\<close>

definition sits :: "Bucket list \<Rightarrow> entry \<Rightarrow> nat \<Rightarrow> bool" where
  "sits bs = (\<lambda>(v, f, h) m. D (bs ! ((h + m) mod length bs)) = 256 * (m + 1) + f \<and> V (bs ! ((h + m) mod length bs)) = v \<and>
     m + 1 < length bs)"

lemma slot_distance:
  assumes "holds bs es" "i < length bs" "D (bs ! i) \<noteq> 0"
  shows "\<exists>m. D (bs ! i) div 256 = m + 1 \<and> D (bs ! i) = 256 * (m + 1) + D (bs ! i) mod 256 \<and> m + 1 < length bs"
proof -
  define d where "d = D (bs ! i) div 256"
  have "256 \<le> D (bs ! i)" using smooth_nonzero [OF holds_smooth [OF assms(1)] assms(2,3)] .
  then have d: "D (bs ! i) = 256 * (d - 1 + 1) + D (bs ! i) mod 256" "Suc (d - 1) = d" by (simp_all add: d_def)
  obtain e where "e < length bs" "D (bs ! e) = 0" using holds_empty_slot [OF assms(1)] by auto
  then have "D (bs ! i) < 256 * length bs" using smooth_all_less holds_smooth [OF assms(1)] assms(2) by blast
  then have "d - 1 + 1 < length bs" using d by (simp add: d_def)
  with d show ?thesis by (intro exI [of _ "d - 1"]) (simp add: d_def)
qed

lemma slot_entry:
  assumes "holds bs es" "i < length bs" "D (bs ! i) \<noteq> 0"
  shows "\<exists>f h m. (V (bs ! i), f, h) \<in> set es \<and> sits bs (V (bs ! i), f, h) m \<and> (h + m) mod length bs = i"
proof -
  obtain m where m: "D (bs ! i) div 256 = m + 1" "D (bs ! i) = 256 * (m + 1) + D (bs ! i) mod 256" "m + 1 < length bs"
    using slot_distance [OF assms] by auto
  define f h where "f = D (bs ! i) mod 256" and "h = origin (length bs) i (m + 1)"
  have "(V (bs ! i), f, h) \<in># entries bs" using assms m(1) by (auto simp: in_entries f_def h_def)
  then have "(V (bs ! i), f, h) \<in> set es" using assms(1) by (simp add: holds_def)
  moreover have o: "(h + m) mod length bs = i" using origin_home [OF assms(2), of m] by (simp add: h_def)
  then have "sits bs (V (bs ! i), f, h) m" using m(2,3) by (simp add: sits_def f_def)
  ultimately show ?thesis using o by blast
qed

lemma entry_slot:
  assumes "holds bs es" "(v, f, h) \<in> set es" shows "\<exists>m. sits bs (v, f, h) m"
proof -
  have "(v, f, h) \<in># entries bs" using assms by (simp add: holds_def)
  then obtain i where i: "i < length bs" "D (bs ! i) \<noteq> 0" "v = V (bs ! i)" "f = D (bs ! i) mod 256"
      "h = origin (length bs) i (D (bs ! i) div 256)" by (auto simp: in_entries)
  obtain m where m: "D (bs ! i) div 256 = m + 1" "D (bs ! i) = 256 * (m + 1) + D (bs ! i) mod 256" "m + 1 < length bs"
    using slot_distance [OF assms(1) i(1,2)] by auto
  have "(h + m) mod length bs = i" using origin_home [OF i(1), of m] by (simp add: i(5) m(1))
  then have "sits bs (v, f, h) m" using m(2,3) i(3,4) by (simp add: sits_def)
  then show ?thesis by blast
qed

lemma same_value_same_slot:
  assumes "holds bs es" "i < length bs" "j < length bs" "D (bs ! i) \<noteq> 0" "D (bs ! j) \<noteq> 0" "V (bs ! i) = V (bs ! j)"
  shows "i = j"
proof (rule ccontr)
  assume "i \<noteq> j"
  then have "image_mset fst (ent (length bs) i (bs ! i) + ent (length bs) j (bs ! j)) \<subseteq># image_mset fst (entries bs)"
    using assms by (intro image_mset_subseteq_mono entries_two)
  then have "{#V (bs ! j), V (bs ! j)#} \<subseteq># mset (map fst es)"
    using assms by (simp add: ent_def holds_def)
  then have "count {#V (bs ! j), V (bs ! j)#} (V (bs ! j)) \<le> count (mset (map fst es)) (V (bs ! j))"
    by (rule mset_subset_eq_count)
  moreover have "count (mset (map fst es)) (V (bs ! j)) \<le> 1"
    using assms(1) by (simp add: holds_def distinct_count_atmost_1)
  ultimately show False by simp
qed

end
