(* ===== verification/HashTableLoops.thy ===== *)
theory HashTableLoops
  imports HashTableInv
begin

text \<open>
  Every loop of the table walks from the home \<open>h\<close> of a key round the array, step \<open>j\<close> at position
  \<open>pos n h j\<close> with the word \<open>dst f j\<close> that a bucket of that key would have there. The lemmas say where each
  loop stops when the array holds the entries of a list of values.
\<close>

section \<open>Steps of a walk\<close>

definition pos :: "nat \<Rightarrow> nat \<Rightarrow> nat \<Rightarrow> 32 word" where
  "pos n h j = of_nat ((h + j) mod n)"

definition dst :: "nat \<Rightarrow> nat \<Rightarrow> 32 word" where
  "dst f j = of_nat (256 * (j + 1) + f)"

abbreviation (input) slot :: "Bucket list \<Rightarrow> nat \<Rightarrow> nat \<Rightarrow> Bucket" where
  "slot bs h j \<equiv> bs ! ((h + j) mod length bs)"

lemma unat_pos: "0 < n \<Longrightarrow> n < 2 ^ 32 \<Longrightarrow> unat (pos n h j) = (h + j) mod n"
proof -
  assume n: "0 < n" "n < 2 ^ 32"
  then have "(h + j) mod n < 2 ^ 32" using mod_less_divisor [OF n(1), of "h + j"] by linarith
  then show ?thesis by (simp add: pos_def unat_of_nat)
qed

lemma next_pos: "0 < n \<Longrightarrow> n < 2 ^ 32 \<Longrightarrow> next_idx n (pos n h j) = pos n h (Suc j)"
  by (simp add: word_unat_eq_iff unat_next_idx unat_pos)

lemma unat_dst: "j \<le> 2 ^ 23 \<Longrightarrow> f < 256 \<Longrightarrow> unat (dst f j) = 256 * (j + 1) + f"
  by (simp only: dst_def unat_of_nat) simp

lemma dist_inc_dst: "dist_inc (dst f j) = dst f (Suc j)"
  by (simp add: dist_inc_def dst_def algebra_simps)

lemma bucket_at_pos:
  "bs \<noteq> [] \<Longrightarrow> length bs < 2 ^ 32 \<Longrightarrow> bucket_at bs (pos (length bs) h j) = Some (slot bs h j)"
  by (simp add: bucket_at_def unat_pos)

definition walkable :: "Bucket list \<Rightarrow> nat \<Rightarrow> bool" where
  "walkable bs f \<longleftrightarrow> bs \<noteq> [] \<and> length bs \<le> 2 ^ 23 \<and> f < 256"

lemma walkable_small: "walkable bs f \<Longrightarrow> bs \<noteq> [] \<and> 0 < length bs \<and> length bs < 2 ^ 32 \<and> f < 256"
  by (simp add: walkable_def)

lemma walkable_next: "walkable bs f \<Longrightarrow> next_idx (length bs) (pos (length bs) h j) = pos (length bs) h (Suc j)"
  using walkable_small [of bs f] by (simp add: next_pos)

lemma walkable_at: "walkable bs f \<Longrightarrow> bucket_at bs (pos (length bs) h j) = Some (slot bs h j)"
  using walkable_small [of bs f] by (simp add: bucket_at_pos)

lemma df_greater: "f < 256 \<Longrightarrow> j \<le> 2 ^ 23 \<Longrightarrow> m_dist_and_fingerprint b < dst f j \<longleftrightarrow> D b < 256 * (j + 1) + f"
  by (simp add: word_less_nat_alt unat_dst)

lemma df_less: "f < 256 \<Longrightarrow> j \<le> 2 ^ 23 \<Longrightarrow> dst f j < m_dist_and_fingerprint b \<longleftrightarrow> 256 * (j + 1) + f < D b"
  by (simp add: word_less_nat_alt unat_dst)

lemma df_equal: "f < 256 \<Longrightarrow> j \<le> 2 ^ 23 \<Longrightarrow> dst f j = m_dist_and_fingerprint b \<longleftrightarrow> D b = 256 * (j + 1) + f"
  by (auto simp: word_unat_eq_iff unat_dst)

lemma skip_farther_walk:
  assumes w: "walkable bs f" and "j \<le> m" "m \<le> 2 ^ 23" "\<And>i. j \<le> i \<Longrightarrow> i < m \<Longrightarrow> 256 * (i + 1) + f < D (slot bs h i)"
  shows "skip_farther bs (dst f j) (pos (length bs) h j) = skip_farther bs (dst f m) (pos (length bs) h m)"
  using assms(2-)
proof (induction j rule: inc_induct)
  case (step j)
  then show ?case
    by (subst skip_farther.simps) (simp add: walkable_next [OF w] walkable_at [OF w] dist_inc_dst df_less walkable_small [OF w])
qed simp

lemma probe_walk:
  assumes w: "walkable bs f" and "j \<le> m" "m \<le> 2 ^ 23" "\<And>i. j \<le> i \<Longrightarrow> i < m \<Longrightarrow> 256 * (i + 1) + f \<le> D (slot bs h i)"
    and "\<And>i. j \<le> i \<Longrightarrow> i < m \<Longrightarrow> V (slot bs h i) < length vs \<and> gk (vs ! V (slot bs h i)) \<noteq> k"
  shows "probe gk vs bs k (dst f j) (pos (length bs) h j) = probe gk vs bs k (dst f m) (pos (length bs) h m)"
  using assms(2-)
proof (induction j rule: inc_induct)
  case (step j)
  have "V (slot bs h j) < length vs \<and> gk (vs ! V (slot bs h j)) \<noteq> k" "\<not> D (slot bs h j) < 256 * (j + 1) + f"
    using step.hyps step.prems(2) [of j] step.prems(3) [of j] by auto
  then show ?case using step
    by (subst probe.simps) (auto simp: walkable_next [OF w] walkable_at [OF w] dist_inc_dst df_greater df_equal walkable_small [OF w] value_at_def)
qed simp

lemma skip_equal_walk:
  assumes w: "walkable bs f" and "j \<le> m" "m \<le> 2 ^ 23" "\<And>i. j \<le> i \<Longrightarrow> i < m \<Longrightarrow> D (slot bs h i) = 256 * (i + 1) + f"
    and "\<And>i. j \<le> i \<Longrightarrow> i < m \<Longrightarrow> V (slot bs h i) < length vs \<and> gk (vs ! V (slot bs h i)) \<noteq> k"
  shows "skip_equal gk vs bs k (dst f j) (pos (length bs) h j) = skip_equal gk vs bs k (dst f m) (pos (length bs) h m)"
  using assms(2-)
proof (induction j rule: inc_induct)
  case (step j)
  have "V (slot bs h j) < length vs \<and> gk (vs ! V (slot bs h j)) \<noteq> k" using step by simp
  then show ?case using step
    by (subst skip_equal.simps) (simp add: walkable_next [OF w] walkable_at [OF w] dist_inc_dst df_equal walkable_small [OF w] value_at_def)
qed simp

lemma find_slot_walk:
  assumes w: "walkable bs f" and "j \<le> m" "\<And>i. j \<le> i \<Longrightarrow> i < m \<Longrightarrow> m_value_idx (slot bs h i) \<noteq> v"
  shows "find_slot bs v (pos (length bs) h j) = find_slot bs v (pos (length bs) h m)"
  using assms(2-)
proof (induction j rule: inc_induct)
  case (step j)
  then show ?case
    by (subst find_slot.simps) (simp add: walkable_next [OF w] walkable_at [OF w])
qed simp

lemma holds_walkable: "holds bs es \<Longrightarrow> f < 256 \<Longrightarrow> walkable bs f"
  using holds_size [of bs es] by (auto simp: walkable_def)

section \<open>The values a table indexes\<close>

text \<open>\<open>H k\<close> is the fingerprint and the home of the key \<open>k\<close>. The array holds one entry for each of the first \<open>n\<close>
  values.\<close>

definition value_entries :: "('e \<Rightarrow> 'k) \<Rightarrow> ('k \<Rightarrow> nat \<times> nat) \<Rightarrow> 'e list \<Rightarrow> entry list" where
  "value_entries gk H vs = map (\<lambda>v. (v, H (gk (vs ! v)))) [0 ..< length vs]"

definition indexed :: "('e \<Rightarrow> 'k) \<Rightarrow> ('k \<Rightarrow> nat \<times> nat) \<Rightarrow> 'e list \<Rightarrow> Bucket list \<Rightarrow> bool" where
  "indexed gk H vs bs \<longleftrightarrow> holds bs (value_entries gk H vs) \<and> distinct (map gk vs)"

lemma length_value_entries [simp]: "length (value_entries gk H vs) = length vs"
  by (simp add: value_entries_def)

lemma in_value_entries: "(v, f, h) \<in> set (value_entries gk H vs) \<longleftrightarrow> v < length vs \<and> H (gk (vs ! v)) = (f, h)"
  by (auto simp: value_entries_def)

lemma distinct_keys_nth:
  "distinct (map gk vs) \<Longrightarrow> i < length vs \<Longrightarrow> j < length vs \<Longrightarrow> gk (vs ! i) = gk (vs ! j) \<Longrightarrow> i = j"
  using nth_eq_iff_index_eq [of "map gk vs" i j] by simp

lemma indexed_slot:
  assumes "indexed gk H vs bs" "i < length bs" "D (bs ! i) \<noteq> 0"
  shows "V (bs ! i) < length vs"
  using slot_entry [of bs "value_entries gk H vs" i] assms by (auto simp: indexed_def in_value_entries)

text \<open>On the way from its home to its bucket no other bucket has the value, and none is nearer to its home.\<close>

lemma way_sits:
  assumes hb: "holds bs es" and s: "sits bs (v, f, h) m" and i: "i < m"
  shows "256 * (i + 1) + f \<le> D (slot bs h i) \<and> V (slot bs h i) \<noteq> v"
proof -
  have n: "0 < length bs" "smooth bs" using holds_size [OF hb] holds_smooth [OF hb] by linarith+
  have sl: "(h + i) mod length bs < length bs" "(h + m) mod length bs < length bs"
    using mod_less_divisor [OF n(1)] by blast+
  have ge: "256 * (i + 1) + f \<le> D (slot bs h i)"
    using smooth_chain [OF n(2,1), of i m f h] i s by (simp add: sits_def)
  have "V (slot bs h i) \<noteq> v"
  proof
    assume "V (slot bs h i) = v"
    then have "(h + i) mod length bs = (h + m) mod length bs"
      using same_value_same_slot [OF hb sl] ge s by (simp add: sits_def)
    moreover have "h + i + (m - i) = h + m" using i by simp
    ultimately have "((h + i) mod length bs + (m - i)) mod length bs = (h + i) mod length bs"
      by (metis mod_add_left_eq)
    moreover have "0 < m - i" "m - i < length bs" using i s by (auto simp: sits_def)
    ultimately show False using walk_neq [OF sl(1), of "m - i"] by blast
  qed
  with ge show ?thesis by simp
qed

lemma way_to_entry:
  assumes ix: "indexed gk H vs bs" and v: "v < length vs" "gk (vs ! v) = k"
    and s: "sits bs (v, f, h) m" and i: "i < m"
  shows "256 * (i + 1) + f \<le> D (slot bs h i) \<and> V (slot bs h i) < length vs \<and> gk (vs ! V (slot bs h i)) \<noteq> k"
proof -
  have hb: "holds bs (value_entries gk H vs)" and d: "distinct (map gk vs)" using ix by (simp_all add: indexed_def)
  have sl: "(h + i) mod length bs < length bs" by (rule mod_less_divisor) (use holds_size [OF hb] in linarith)
  have w: "256 * (i + 1) + f \<le> D (slot bs h i)" "V (slot bs h i) \<noteq> v" using way_sits [OF hb s i] by simp_all
  then have "V (slot bs h i) < length vs" using indexed_slot [OF ix sl] by simp
  moreover have "gk (vs ! V (slot bs h i)) \<noteq> k"
    using distinct_keys_nth [OF d calculation v(1)] v(2) w(2) by auto
  ultimately show ?thesis using w by simp
qed

lemma nth_append_left: "v < length vs \<Longrightarrow> (vs @ ws) ! v = vs ! v"
  by (simp add: nth_append)

lemma append_value: "v < length vs \<and> gk (vs ! v) \<noteq> k \<Longrightarrow> v < length (vs @ ws) \<and> gk ((vs @ ws) ! v) \<noteq> k"
  by (simp add: nth_append)

lemma probe_finds:
  assumes ix: "indexed gk H vs bs" and H: "H k = (f, h)" and v: "v < length vs" "gk (vs ! v) = k" and jm: "j \<le> m"
    and s: "sits bs (v, f, h) m"
  shows "probe gk (vs @ ws) bs k (dst f j) (pos (length bs) h j) = Some (Found (pos (length bs) h m))"
proof -
  have hb: "holds bs (value_entries gk H vs)" using ix by (simp add: indexed_def)
  have "(v, f, h) \<in> set (value_entries gk H vs)" using H v by (simp add: in_value_entries)
  then have w: "walkable bs f" using holds_walkable [OF hb] holds_bounds [OF hb] by blast
  have m: "m \<le> 2 ^ 23" using s holds_size [OF hb] by (simp add: sits_def)
  have "probe gk (vs @ ws) bs k (dst f j) (pos (length bs) h j) = probe gk (vs @ ws) bs k (dst f m) (pos (length bs) h m)"
    using way_to_entry [OF ix v s] by (intro probe_walk [OF w jm m] append_value) blast+
  also have "\<dots> = Some (Found (pos (length bs) h m))"
    using s m walkable_small [OF w] v
    by (subst probe.simps) (simp add: walkable_at [OF w] df_greater df_equal value_at_def sits_def nth_append_left)
  finally show ?thesis .
qed

lemma first_step: "P k \<Longrightarrow> \<exists>m \<le> k. P m \<and> (\<forall>i < m. \<not> P i)" for k :: nat
  by (intro exI [of _ "LEAST m. P m"]) (auto intro: LeastI Least_le dest: not_less_Least)

text \<open>Where an absent key would be: the first step at which the bucket is nearer to its home.\<close>

lemma ex_nearer:
  assumes "holds bs es" "h < length bs"
  shows "\<exists>m < length bs. D (slot bs h m) < 256 * (m + 1) + f \<and> (\<forall>i < m. 256 * (i + 1) + f \<le> D (slot bs h i))"
proof -
  obtain e where e: "e < length bs" "D (bs ! e) = 0" using holds_empty_slot [OF assms(1)] by auto
  obtain k where k: "k < length bs" "(h + k) mod length bs = e" using go_round [OF assms(2) e(1)] by auto
  define P where "P = (\<lambda>m. D (slot bs h m) < 256 * (m + 1) + f)"
  have "P k" using k e by (simp add: P_def)
  then obtain m where "m \<le> k" "P m" "\<forall>i < m. \<not> P i" using first_step [of P k] by blast
  then show ?thesis using k by (intro exI [of _ m]) (auto simp: P_def not_less)
qed

lemma probe_vacant:
  assumes ix: "indexed gk H vs bs" and H: "H k = (f, h)" "f < 256" and new: "k \<notin> gk ` set vs"
    and jm: "j \<le> m" "m \<le> 2 ^ 23" and near: "D (slot bs h m) < 256 * (m + 1) + f"
    and way: "\<And>i. j \<le> i \<Longrightarrow> i < m \<Longrightarrow> 256 * (i + 1) + f \<le> D (slot bs h i)"
  shows "probe gk (vs @ ws) bs k (dst f j) (pos (length bs) h j) = Some (Vacant (dst f m) (pos (length bs) h m))"
proof -
  have hb: "holds bs (value_entries gk H vs)" using ix by (simp add: indexed_def)
  have w: "walkable bs f" using holds_walkable [OF hb H(2)] .
  have other: "V (slot bs h i) < length vs \<and> gk (vs ! V (slot bs h i)) \<noteq> k" if "j \<le> i" "i < m" for i
  proof -
    have "V (slot bs h i) < length vs"
      using way [OF that] walkable_small [OF w] by (intro indexed_slot [OF ix]) auto
    then show ?thesis using new by force
  qed
  have "probe gk (vs @ ws) bs k (dst f j) (pos (length bs) h j) = probe gk (vs @ ws) bs k (dst f m) (pos (length bs) h m)"
    using way other by (intro probe_walk [OF w jm] append_value) blast+
  also have "\<dots> = Some (Vacant (dst f m) (pos (length bs) h m))"
    using near jm H by (subst probe.simps) (simp add: walkable_at [OF w] df_greater)
  finally show ?thesis .
qed

lemma skip_farther_stops:
  assumes hb: "holds bs es" and h: "h < length bs" and f: "f < 256"
  shows "\<exists>m < length bs. skip_farther bs (dst f 0) (pos (length bs) h 0) = Some (dst f m, pos (length bs) h m) \<and>
    D (slot bs h m) \<le> 256 * (m + 1) + f \<and> (\<forall>i < m. 256 * (i + 1) + f < D (slot bs h i))"
proof -
  have w: "walkable bs f" using holds_walkable [OF hb f] .
  obtain k where k: "k < length bs" "D (slot bs h k) < 256 * (k + 1) + f" using ex_nearer [OF hb h] by blast
  define P where "P = (\<lambda>m. D (slot bs h m) \<le> 256 * (m + 1) + f)"
  have "P k" using k by (simp add: P_def)
  then obtain m where P: "P m" "m \<le> k" "\<forall>i < m. \<not> P i" using first_step [of P k] by blast
  then have m: "m \<le> 2 ^ 23" using k holds_size [OF hb] by simp
  have "skip_farther bs (dst f 0) (pos (length bs) h 0) = skip_farther bs (dst f m) (pos (length bs) h m)"
    using P m by (intro skip_farther_walk [OF w]) (auto simp: P_def not_le)
  also have "\<dots> = Some (dst f m, pos (length bs) h m)"
    using P m f by (subst skip_farther.simps) (simp add: walkable_at [OF w] df_less P_def)
  finally show ?thesis using P k by (intro exI [of _ m]) (auto simp: P_def not_le)
qed

section \<open>Adding, removing and renumbering an entry\<close>

lemma ent_at:
  assumes "D b = 256 * (m + 1) + f" "f < 256" "h < n"
  shows "ent n ((h + m) mod n) b = {#(V b, f, h)#}"
proof -
  have "D b div 256 = m + 1 + f div 256" "D b mod 256 = f mod 256"
    by (simp_all only: assms(1) div_mult_self4 mod_mult_self4)
  then have "D b div 256 = Suc m" "D b mod 256 = f" using assms(2) by simp_all
  then show ?thesis using assms by (simp add: ent_def origin_at)
qed

lemma remove1_entries:
  assumes "distinct (map fst es)" "x \<in> set es"
  shows "distinct (map fst (remove1 x es))" "set (remove1 x es) = set es - {x}" "length (remove1 x es) = length es - 1"
proof -
  have d: "distinct es" using assms(1) by (simp add: distinct_map)
  then show s: "set (remove1 x es) = set es - {x}" by (rule set_remove1_eq)
  show "distinct (map fst (remove1 x es))" using assms(1) d s
    by (auto simp: distinct_map intro: inj_on_subset)
  show "length (remove1 x es) = length es - 1" using assms(2) by (simp add: length_remove1)
qed

lemma holds_mset: "holds bs es \<Longrightarrow> mset es' = mset es \<Longrightarrow> holds bs es'"
proof -
  assume a: "holds bs es" "mset es' = mset es"
  then have "mset (map fst es') = mset (map fst es)" by simp
  then have "distinct (map fst es')" using a(1) mset_eq_imp_distinct_iff by (metis holds_def)
  moreover have "length es' = length es" "set es' = set es" using a(2) mset_eq_length mset_eq_setD by blast+
  ultimately show ?thesis using a by (simp add: holds_def)
qed

lemma insert_bucket:
  assumes hb: "holds bs es" and room: "length es + 1 < length bs" and fh: "f < 256" "h < length bs"
    and v: "v \<notin> fst ` set es" "v < 2 ^ 32" and m: "m < length bs" "D (slot bs h m) \<le> 256 * (m + 1) + f"
    and way: "\<And>i. i < m \<Longrightarrow> 256 * (i + 1) + f \<le> D (slot bs h i)"
  shows "yields (place_and_shift_up bs \<lparr>m_dist_and_fingerprint = dst f m, m_value_idx = of_nat v\<rparr> (pos (length bs) h m))
    (\<lambda>bs'. length bs' = length bs \<and> holds bs' (es @ [(v, f, h)]))"
proof -
  define b :: Bucket where "b = \<lparr>m_dist_and_fingerprint = dst f m, m_value_idx = of_nat v\<rparr>"
  define i where "i = (h + m) mod length bs"
  note N = holds_size [OF hb]
  have n0: "0 < length bs" using N by linarith
  have i: "i < length bs" unfolding i_def by (rule mod_less_divisor [OF n0])
  have p: "unat (pos (length bs) h m) = i" using N n0 by (simp add: unat_pos i_def)
  have b: "D b = 256 * (m + 1) + f" "V b = v" using m(1) fh N v(2) by (simp_all add: b_def unat_dst unat_of_nat)
  obtain e where e: "e < length bs" "D (bs ! e) = 0" using holds_empty_slot [OF hb] by auto
  obtain k where k: "k < length bs" "(i + k) mod length bs = e" using go_round [OF i e(1)] by auto
  obtain q where q: "q < length bs" "nx (length bs) q = i" "D b \<le> max 511 (D (bs ! q) + 256)"
  proof (cases m)
    case 0
    then show ?thesis using nx_pred [OF i] that b fh by auto
  next
    case (Suc m')
    then show ?thesis
      using that [of "(h + m') mod length bs"] way [of m'] b mod_less_divisor [OF n0] by (auto simp: i_def)
  qed
  have "ent (length bs) i b = {#(v, f, h)#}"
    using ent_at [OF b(1) fh] b(2) by (simp add: i_def)
  moreover have "yields (place_and_shift_up bs b (pos (length bs) h m)) (\<lambda>bs'. smooth bs' \<and> length bs' = length bs \<and>
     entries bs' = entries bs + ent (length bs) (unat (pos (length bs) h m)) b)"
    using holds_smooth [OF hb] N i e k q b m(2)
    by (intro place_and_shift_up_ok [where k = k and q = q]) (auto simp: p i_def [symmetric])
  ultimately show ?thesis unfolding b_def [symmetric]
    using hb room fh v by (elim yields_weaken) (auto simp: holds_def p)
qed

lemma remove_bucket:
  assumes hb: "holds bs es" and x: "(v, f, h) \<in> set es" and s: "sits bs (v, f, h) m"
  shows "yields (erase_and_shift_down bs (pos (length bs) h m))
    (\<lambda>bs'. length bs' = length bs \<and> holds bs' (remove1 (v, f, h) es))"
proof -
  define i where "i = (h + m) mod length bs"
  note N = holds_size [OF hb]
  have n0: "0 < length bs" using N by linarith
  have i: "i < length bs" unfolding i_def by (rule mod_less_divisor [OF n0])
  have p: "unat (pos (length bs) h m) = i" using N n0 by (simp add: unat_pos i_def)
  have b: "D (bs ! i) = 256 * (m + 1) + f" "V (bs ! i) = v" using s by (simp_all add: sits_def i_def)
  have fh: "f < 256" "h < length bs" using holds_bounds [OF hb x] by simp_all
  have ent: "ent (length bs) i (bs ! i) = {#(v, f, h)#}" using ent_at [OF b(1) fh] b(2) by (simp add: i_def)
  obtain e where e: "e < length bs" "D (bs ! e) = 0" using holds_empty_slot [OF hb] by auto
  then have "i \<noteq> e" using b by auto
  then obtain k where k: "Suc k < length bs" "(i + Suc k) mod length bs = e" using go_round_past [OF i e(1)] by auto
  have nxt: "unat (next_idx (length bs) (pos (length bs) h m)) = nx (length bs) i"
    using i N by (simp add: unat_next_idx p)
  have "yields (erase_and_shift_down bs (pos (length bs) h m)) (\<lambda>bs'. smooth bs' \<and> length bs' = length bs \<and>
     entries bs' + ent (length bs) (unat (pos (length bs) h m)) (bs ! unat (pos (length bs) h m)) = entries bs)"
    unfolding erase_and_shift_down_def
    using holds_smooth [OF hb] N i e k nxt by (intro shift_down_ok [where k = k]) (simp_all add: p)
  then show ?thesis
  proof (rule yields_weaken, elim conjE, intro conjI)
    fix bs' assume r: "smooth bs'" "length bs' = length bs"
      "entries bs' + ent (length bs) (unat (pos (length bs) h m)) (bs ! unat (pos (length bs) h m)) = entries bs"
    then have "entries bs' + {#(v, f, h)#} = mset es" using hb by (simp add: p ent holds_def)
    then have "entries bs' = mset (remove1 (v, f, h) es)" by (metis add_diff_cancel_right' mset_remove1)
    then show "holds bs' (remove1 (v, f, h) es)"
      using hb r remove1_entries [OF _ x] by (auto simp: holds_def)
  qed
qed

lemma renumber_bucket:
  assumes hb: "holds bs es" and x: "(v, f, h) \<in> set es" and s: "sits bs (v, f, h) m" and w: "w \<notin> fst ` set es" "w < 2 ^ 32"
  shows "holds (bs[(h + m) mod length bs := (slot bs h m)\<lparr>m_value_idx := of_nat w\<rparr>]) ((w, f, h) # remove1 (v, f, h) es)"
proof -
  define i b where "i = (h + m) mod length bs" and "b = (bs ! i)\<lparr>m_value_idx := of_nat w\<rparr>"
  note N = holds_size [OF hb]
  have n0: "0 < length bs" using N by linarith
  have i: "i < length bs" unfolding i_def by (rule mod_less_divisor [OF n0])
  have b: "D (bs ! i) = 256 * (m + 1) + f" "V (bs ! i) = v" "D b = 256 * (m + 1) + f" "V b = w"
    using s w by (simp_all add: sits_def i_def b_def unat_of_nat)
  have fh: "f < 256" "h < length bs" using holds_bounds [OF hb x] by simp_all
  have "ent (length bs) i (bs ! i) = {#(v, f, h)#}" "ent (length bs) i b = {#(w, f, h)#}"
    using ent_at [OF b(1) fh] ent_at [OF b(3) fh] b(2,4) by (simp_all add: i_def)
  then have E: "entries (bs[i := b]) + {#(v, f, h)#} = mset es + {#(w, f, h)#}"
    using entries_update [OF i, of b] hb by (simp add: holds_def)
  define R where "R = mset (remove1 (v, f, h) es)"
  have R: "mset es = R + {#(v, f, h)#}" using x by (simp add: R_def)
  have "entries (bs[i := b]) + {#(v, f, h)#} = (R + {#(w, f, h)#}) + {#(v, f, h)#}"
    using E unfolding R by (simp add: ac_simps)
  then have "entries (bs[i := b]) = mset ((w, f, h) # remove1 (v, f, h) es)" by (simp add: R_def)
  moreover have "smooth (bs[i := b])"
  proof -
    obtain q where q: "q < length bs" "nx (length bs) q = i" using nx_pred [OF i] by auto
    have "D (bs ! i) \<le> max 511 (D (bs ! q) + 256)" "D (bs ! nx (length bs) i) \<le> max 511 (D (bs ! i) + 256)"
      using smooth_next [OF holds_smooth [OF hb] q(1)] smooth_next [OF holds_smooth [OF hb] i] by (simp_all only: q(2))
    then show ?thesis using holds_smooth [OF hb] i N q b by (intro smooth_update [of bs i q]) auto
  qed
  moreover have "0 < length es" using x by (cases es) auto
  ultimately show ?thesis
    using hb remove1_entries [OF _ x] w fh unfolding i_def [symmetric] b_def [symmetric]
    by (auto simp: holds_def image_iff)
qed

lemma find_slot_finds:
  assumes hb: "holds bs es" and x: "(v, f, h) \<in> set es" and v: "v < 2 ^ 32"
  shows "\<exists>m. sits bs (v, f, h) m \<and> find_slot bs (of_nat v) (pos (length bs) h 0) = Some (pos (length bs) h m)"
proof -
  obtain m where s: "sits bs (v, f, h) m" using entry_slot [OF hb x] by auto
  have w: "walkable bs f" using holds_walkable [OF hb] holds_bounds [OF hb x] by simp
  have ne: "m_value_idx b \<noteq> of_nat v" if "V b \<noteq> v" for b using that v by (auto simp: unat_of_nat)
  have eq: "m_value_idx b = of_nat v" if "V b = v" for b using that v by (simp add: word_unat_eq_iff unat_of_nat)
  have "find_slot bs (of_nat v) (pos (length bs) h 0) = find_slot bs (of_nat v) (pos (length bs) h m)"
    using way_sits [OF hb s] by (intro find_slot_walk [OF w] ne) auto
  also have "\<dots> = Some (pos (length bs) h m)"
    using s eq by (subst find_slot.simps) (simp add: walkable_at [OF w] sits_def)
  finally show ?thesis using s by blast
qed

end
