(* ===== verification/HashTableOps.thy ===== *)
theory HashTableOps
  imports HashTableLoops
begin

unbundle bit_operations_syntax

text \<open>
  The operations of the table keep its invariant and change \<open>m_values\<close> as a list of elements with distinct
  keys: an insertion appends, a removal moves the last element into the hole. The bound is the 24 bits of
  the distance: up to \<open>2 ^ 23\<close> buckets, so up to \<open>max_elements\<close> elements.
\<close>

section \<open>Where a hash starts\<close>

definition start_of :: "('k \<Rightarrow> 64 word) \<Rightarrow> nat \<Rightarrow> 'k \<Rightarrow> nat \<times> nat" where
  "start_of hs shifts k = (unat (mixed_hash hs k AND 255), unat (drop_bit shifts (mixed_hash hs k)))"

lemma fingerprint_word: "dist_and_fingerprint_from_hash h = dst (unat (h AND 255)) 0"
proof -
  have "ucast h AND 255 = (ucast (h AND 255) :: 32 word)" by (rule bit_word_eqI) (simp add: bit_simps)
  moreover have "256 AND (ucast h AND 255 :: 32 word) = 0"
  proof -
    have "256 AND (x AND 255 :: 32 word) = x AND (256 AND 255)" for x by (simp only: ac_simps)
    then show ?thesis by simp
  qed
  ultimately show ?thesis
    by (simp add: dist_and_fingerprint_from_hash_def dst_def disjunctive_add_eq_or [symmetric])
qed

lemma fingerprint_less: "unat (h AND 255 :: 64 word) < 256"
proof -
  have "unat (h AND 255) \<le> unat (255 :: 64 word)" by (rule word_and_le1 [THEN word_le_nat_alt [THEN iffD1]])
  then show ?thesis by simp
qed

lemma home_less: "shifts \<le> 64 \<Longrightarrow> unat (drop_bit shifts (h :: 64 word)) < 2 ^ (64 - shifts)"
proof -
  assume "shifts \<le> 64"
  then have "unat h < 2 ^ (64 - shifts) * 2 ^ shifts" using u64 [of h] by (simp flip: power_add)
  then have "unat h div 2 ^ shifts < 2 ^ (64 - shifts)" by (rule less_mult_imp_div_less)
  then show ?thesis by (simp only: unat_drop64)
qed

lemma home_word: "shifts \<le> 64 \<Longrightarrow> bucket_idx_from_hash shifts h = pos (2 ^ (64 - shifts)) (unat (drop_bit shifts h)) 0"
  using home_less [of shifts h] by (simp add: bucket_idx_from_hash_def pos_def)

lemma start_of_words:
  assumes "start_of hs shifts k = (f, h)" "shifts \<le> 64"
  shows "f < 256 \<and> h < 2 ^ (64 - shifts) \<and> dist_and_fingerprint_from_hash (mixed_hash hs k) = dst f 0 \<and>
    bucket_idx_from_hash shifts (mixed_hash hs k) = pos (2 ^ (64 - shifts)) h 0"
  using assms fingerprint_less [of "mixed_hash hs k"] home_less [of shifts "mixed_hash hs k"]
    fingerprint_word [of "mixed_hash hs k"] home_word [of shifts "mixed_hash hs k"]
  by (auto simp: start_of_def)

section \<open>The number of elements a number of buckets takes\<close>

text \<open>A product with a power of two is not rounded.\<close>

lemma fl32_scaled:
  assumes "0 < z" "z < 2 ^ 24" shows "fl32 (of_int z * 2 powi e) = of_int z * 2 powi e"
proof -
  define x :: rat where "x = of_int z * 2 powi e"
  have x: "0 < x" using assms by (simp add: x_def)
  have "(of_int z :: rat) < of_int (2 ^ 24)" using assms(2) by (simp only: of_int_less_iff)
  then have "x < 2 ^ 24 * 2 powi e" by (simp add: x_def)
  also have "\<dots> = 2 powi (24 + e)" by (simp add: power_int_add)
  finally have "(2 :: rat) powi (ilog2 x) < 2 powi (24 + e)" using ilog2_bounds [OF x] by linarith
  then have "ilog2 x < 24 + e" by (simp add: powi_less)
  then obtain n where n: "e - (ilog2 x - 23) = int n" using nonneg_int_cases [of "e - (ilog2 x - 23)"] by auto
  have "x / 2 powi (ilog2 \<bar>x\<bar> - 23) = of_int z * 2 powi (e - (ilog2 x - 23))"
    using x by (simp add: x_def power_int_diff)
  also have "\<dots> = of_int (z * 2 ^ n)" by (simp add: n)
  finally show ?thesis unfolding x_def [symmetric] by (rule fl32_exact)
qed

definition load_cap :: "nat \<Rightarrow> nat" where
  "load_cap shifts = 2 ^ (64 - shifts) * 13421773 div 2 ^ 24"

lemma loaded_power: "loaded default_max_load_factor (2 ^ k) = 2 ^ k * 13421773 div 2 ^ 24"
proof -
  have a: "fl32 (of_nat (2 ^ k)) = 2 ^ k" using fl32_scaled [of 1 "int k"] by simp
  have b: "(2 ^ k :: rat) * default_max_load_factor = of_int 13421773 * 2 powi (int k - 24)"
    by (simp add: default_max_load_factor_def power_int_diff)
  have c: "(of_int 13421773 :: rat) * 2 powi (int k - 24) = of_int (2 ^ k * 13421773) / of_int (2 ^ 24)"
    by (simp add: power_int_diff)
  have d: "fl32 (of_int 13421773 * 2 powi (int k - 24)) = of_int 13421773 * 2 powi (int k - 24)"
    by (rule fl32_scaled) simp_all
  have "loaded default_max_load_factor (2 ^ k) = nat \<lfloor>(of_int (2 ^ k * 13421773) :: rat) / of_int (2 ^ 24)\<rfloor>"
    using d unfolding loaded_def a b c by (simp only:)
  also have "\<dots> = nat (2 ^ k * 13421773 div 2 ^ 24)" by (simp only: floor_divide_of_int_eq)
  also have "\<dots> = 2 ^ k * 13421773 div 2 ^ 24" by (simp add: nat_div_distrib nat_mult_distrib nat_power_eq)
  finally show ?thesis .
qed

lemma load_cap_less: "shifts \<le> 62 \<Longrightarrow> load_cap shifts < 2 ^ (64 - shifts)"
  unfolding load_cap_def by (rule less_mult_imp_div_less) simp

lemma load_cap_grows: "0 < shifts \<Longrightarrow> shifts \<le> 62 \<Longrightarrow> load_cap shifts + 1 \<le> load_cap (shifts - 1)"
proof -
  assume a: "0 < shifts" "shifts \<le> 62"
  define k where "k = 62 - shifts"
  have k: "64 - shifts = Suc (Suc k)" "64 - (shifts - 1) = Suc (Suc (Suc k))" using a unfolding k_def by arith+
  define x where "x = 2 ^ Suc (Suc k) * 13421773 div (2 ^ 24 :: nat)"
  have "(4 :: nat) * 13421773 \<le> 2 ^ Suc (Suc k) * 13421773" by simp
  then have "4 * 13421773 div 2 ^ 24 \<le> x" unfolding x_def by (rule div_le_mono)
  then have "1 \<le> x" by simp
  moreover have "2 * x \<le> 2 * (2 ^ Suc (Suc k) * 13421773) div 2 ^ 24"
    unfolding x_def by (simp add: less_eq_div_iff_mult_less_eq)
  moreover have "load_cap shifts = x" "load_cap (shifts - 1) = 2 * (2 ^ Suc (Suc k) * 13421773) div 2 ^ 24"
    unfolding load_cap_def k x_def by simp_all
  ultimately show ?thesis by linarith
qed

section \<open>The invariant of a table\<close>

definition table_ok :: "('e \<Rightarrow> 'k) \<Rightarrow> ('k \<Rightarrow> 64 word) \<Rightarrow> 'e table \<Rightarrow> bool" where
  "table_ok gk hs t \<longleftrightarrow> indexed gk (start_of hs (m_shifts t)) (m_values t) (m_buckets t) \<and>
     41 \<le> m_shifts t \<and> m_shifts t \<le> 62 \<and> length (m_buckets t) = 2 ^ (64 - m_shifts t) \<and>
     m_max_load_factor t = default_max_load_factor \<and> m_max_bucket_capacity t = load_cap (m_shifts t) \<and>
     length (m_values t) \<le> load_cap (m_shifts t)"

definition max_elements :: nat where
  "max_elements = load_cap 41"

lemma max_elements_value: "max_elements = 6710886"
  by (simp add: max_elements_def load_cap_def)

text \<open>A table whose buckets are there but do not index its values yet.\<close>

definition frame_ok :: "'e table \<Rightarrow> bool" where
  "frame_ok t \<longleftrightarrow> 41 \<le> m_shifts t \<and> m_shifts t \<le> 62 \<and> length (m_buckets t) = 2 ^ (64 - m_shifts t) \<and>
     m_max_load_factor t = default_max_load_factor \<and> m_max_bucket_capacity t = load_cap (m_shifts t)"

lemma table_ok_iff: "table_ok gk hs t \<longleftrightarrow> frame_ok t \<and> length (m_values t) \<le> load_cap (m_shifts t) \<and>
   indexed gk (start_of hs (m_shifts t)) (m_values t) (m_buckets t)"
  by (auto simp: table_ok_def frame_ok_def)

lemma frame_ok_buckets: "frame_ok t \<Longrightarrow> length bs = length (m_buckets t) \<Longrightarrow> frame_ok (t\<lparr>m_buckets := bs\<rparr>)"
  by (simp add: frame_ok_def)

lemma frame_ok_values: "frame_ok t \<Longrightarrow> frame_ok (t\<lparr>m_values := vs\<rparr>)"
  by (simp add: frame_ok_def)

lemma pow_bounds: "41 \<le> s \<Longrightarrow> s \<le> 62 \<Longrightarrow> 4 \<le> (2 :: nat) ^ (64 - s) \<and> (2 :: nat) ^ (64 - s) \<le> 2 ^ 23"
proof -
  assume "41 \<le> s" "s \<le> 62"
  then have "(2 :: nat) ^ 2 \<le> 2 ^ (64 - s)" "(2 :: nat) ^ (64 - s) \<le> 2 ^ 23"
    by (intro power_increasing; simp)+
  then show ?thesis by simp
qed

lemma load_cap_bound: "41 \<le> s \<Longrightarrow> load_cap s \<le> max_elements"
  unfolding max_elements_def load_cap_def by (intro div_le_mono mult_le_mono1 power_increasing) auto

lemma allocate_ok:
  assumes "41 \<le> m_shifts t" "m_shifts t \<le> 62" "m_max_load_factor t = default_max_load_factor"
  shows "\<exists>t'. allocate_buckets_from_shift t = Some t' \<and> frame_ok t' \<and> m_values t' = m_values t \<and>
    m_shifts t' = m_shifts t \<and> m_buckets t' = resize_buckets (2 ^ (64 - m_shifts t)) (m_buckets t)"
proof -
  define n :: nat where "n = 2 ^ (64 - m_shifts t)"
  have n: "n \<le> 2 ^ 23" using pow_bounds [OF assms(1,2)] by (simp add: n_def)
  have c: "calc_num_buckets (m_shifts t) = Some n"
    using assms n by (simp add: calc_num_buckets_def num_buckets_def max_size_def flip: n_def)
  have l: "loaded (m_max_load_factor t) n mod 2 ^ 32 = load_cap (m_shifts t)"
    using load_cap_bound [OF assms(1)] by (simp add: assms(3) n_def loaded_power load_cap_def max_elements_value)
  have "length (resize_buckets n (m_buckets t)) = n" by (simp add: resize_buckets_def)
  then show ?thesis
    using assms n c l by (simp add: allocate_buckets_from_shift_def frame_ok_def max_size_def flip: n_def)
qed

lemma holds_nothing: "4 \<le> n \<Longrightarrow> n \<le> 2 ^ 23 \<Longrightarrow> holds (replicate n no_bucket) []"
proof -
  assume n: "4 \<le> n" "n \<le> 2 ^ 23"
  have "entries (replicate n no_bucket) = {#}" by (simp add: entries_def ent_no_bucket)
  moreover have "smooth (replicate n no_bucket)" by (simp add: smooth_def no_bucket_def)
  ultimately show ?thesis using n by (simp add: holds_def)
qed

lemma holds_cleared: "frame_ok t \<Longrightarrow> holds (m_buckets (clear_buckets t)) []"
  using pow_bounds [of "m_shifts t"] by (auto simp: frame_ok_def clear_buckets_def intro!: holds_nothing)

text \<open>The constructor without an argument.\<close>

lemma new_table_ok: "yields (new_table gk hs 0) (\<lambda>t. table_ok gk hs t \<and> m_values t = [])"
proof -
  obtain t where t: "allocate_buckets_from_shift (raw_table :: 'a table) = Some t" "frame_ok t" "m_values t = []"
    using allocate_ok [of "raw_table :: 'a table"] by (auto simp: raw_table_def initial_shifts_def)
  have "frame_ok (clear_buckets t)" using t by (simp add: clear_buckets_def frame_ok_buckets)
  then show ?thesis
    using t holds_cleared [OF t(2)]
    by (simp add: new_table_def table_ok_iff indexed_def value_entries_def clear_buckets_def)
qed

section \<open>Filling the buckets from the values\<close>

lemma value_entries_snoc: "value_entries gk H (vs @ [e]) = value_entries gk H vs @ [(length vs, H (gk e))]"
  by (auto simp: value_entries_def nth_append)

lemma value_entries_fst: "fst ` set (value_entries gk H vs) = {..<length vs}"
  by (auto simp: value_entries_def image_image)

lemma fill_all_ok:
  assumes "frame_ok t" "n \<le> length (m_values t)" "length (m_values t) < length (m_buckets t)"
    and "holds (m_buckets t) (value_entries gk (start_of hs (m_shifts t)) (take n (m_values t)))"
  shows "yields (fill_all gk hs [n ..< length (m_values t)] t) (\<lambda>t'. \<exists>bs. t' = t\<lparr>m_buckets := bs\<rparr> \<and>
     length bs = length (m_buckets t) \<and> holds bs (value_entries gk (start_of hs (m_shifts t)) (m_values t)))"
  using assms
proof (induction "length (m_values t) - n" arbitrary: n t)
  case 0
  then show ?case by (auto intro!: exI [of _ "m_buckets t"])
next
  case (Suc k)
  let ?bs = "m_buckets t" and ?vs = "m_values t"
  have n: "n < length ?vs" using Suc.hyps by simp
  obtain f h where fh: "start_of hs (m_shifts t) (gk (?vs ! n)) = (f, h)" by fastforce
  have sh: "m_shifts t \<le> 64" "length ?bs = 2 ^ (64 - m_shifts t)" using Suc.prems(1) by (simp_all add: frame_ok_def)
  note w = start_of_words [OF fh sh(1)]
  note hb = Suc.prems(4)
  obtain m where m: "m < length ?bs" "skip_farther ?bs (dst f 0) (pos (length ?bs) h 0) = Some (dst f m, pos (length ?bs) h m)"
      "D (slot ?bs h m) \<le> 256 * (m + 1) + f" "\<forall>i < m. 256 * (i + 1) + f < D (slot ?bs h i)"
    using skip_farther_stops [OF hb, of h f] w sh(2) by auto
  have nx: "next_while_less hs t (gk (?vs ! n)) = Some (dst f m, pos (length ?bs) h m)"
    using w m(2) by (simp add: next_while_less_def Let_def sh(2))
  have "yields (place_and_shift_up ?bs \<lparr>m_dist_and_fingerprint = dst f m, m_value_idx = of_nat n\<rparr> (pos (length ?bs) h m))
    (\<lambda>bs'. length bs' = length ?bs \<and> holds bs' (value_entries gk (start_of hs (m_shifts t)) (take n ?vs) @ [(n, f, h)]))"
    using n Suc.prems w m sh holds_size [OF hb]
    by (intro insert_bucket [OF hb]) (auto simp: value_entries_fst less_imp_le)
  then obtain bs' where b: "place_and_shift_up ?bs \<lparr>m_dist_and_fingerprint = dst f m, m_value_idx = of_nat n\<rparr> (pos (length ?bs) h m) = Some bs'"
      "length bs' = length ?bs" "holds bs' (value_entries gk (start_of hs (m_shifts t)) (take n ?vs) @ [(n, f, h)])"
    by (auto simp: yields_iff)
  have e: "value_entries gk (start_of hs (m_shifts t)) (take (Suc n) ?vs) =
      value_entries gk (start_of hs (m_shifts t)) (take n ?vs) @ [(n, f, h)]"
    using n fh by (simp add: take_Suc_conv_app_nth value_entries_snoc)
  have one: "fill_one gk hs n t = Some (t\<lparr>m_buckets := bs'\<rparr>)" using nx b(1) by (simp add: fill_one_def)
  have "yields (fill_all gk hs [Suc n ..< length (m_values (t\<lparr>m_buckets := bs'\<rparr>))] (t\<lparr>m_buckets := bs'\<rparr>))
     (\<lambda>t'. \<exists>bs. t' = t\<lparr>m_buckets := bs', m_buckets := bs\<rparr> \<and> length bs = length (m_buckets (t\<lparr>m_buckets := bs'\<rparr>)) \<and>
       holds bs (value_entries gk (start_of hs (m_shifts (t\<lparr>m_buckets := bs'\<rparr>))) (m_values (t\<lparr>m_buckets := bs'\<rparr>))))"
    using Suc.hyps n b e Suc.prems by (intro Suc.hyps(1)) (auto simp: frame_ok_buckets)
  then show ?case using n one b(2) by (simp add: upt_conv_Cons)
qed

lemma clear_and_fill_ok:
  assumes "frame_ok t" "length (m_values t) \<le> load_cap (m_shifts t)" "distinct (map gk (m_values t))"
  shows "yields (clear_and_fill_buckets_from_values gk hs t) (\<lambda>t'. table_ok gk hs t' \<and> m_values t' = m_values t \<and>
    m_shifts t' = m_shifts t)"
proof -
  let ?t = "clear_buckets t"
  have f: "frame_ok ?t" "m_values ?t = m_values t" "m_shifts ?t = m_shifts t"
    using assms(1) by (simp_all add: clear_buckets_def frame_ok_buckets)
  have lt: "length (m_values t) < length (m_buckets ?t)"
    using f(1) assms(2) load_cap_less [of "m_shifts t"] f(3) by (simp add: frame_ok_def)
  have "length (m_values t) < 2 ^ 32"
    using lt holds_size [OF holds_cleared [OF assms(1)]] by linarith
  then have "clear_and_fill_buckets_from_values gk hs t = fill_all gk hs [0 ..< length (m_values ?t)] ?t"
    by (simp add: clear_and_fill_buckets_from_values_def f)
  moreover have "yields (fill_all gk hs [0 ..< length (m_values ?t)] ?t) (\<lambda>t'. \<exists>bs. t' = ?t\<lparr>m_buckets := bs\<rparr> \<and>
     length bs = length (m_buckets ?t) \<and> holds bs (value_entries gk (start_of hs (m_shifts ?t)) (m_values ?t)))"
    using holds_cleared [OF assms(1)] lt f by (intro fill_all_ok) (simp_all add: value_entries_def)
  ultimately show ?thesis
    using f assms by (auto elim!: yields_weaken simp: table_ok_iff indexed_def frame_ok_buckets)
qed

lemma increase_size_ok:
  assumes "frame_ok t" "42 \<le> m_shifts t" "length (m_values t) \<le> load_cap (m_shifts t) + 1" "distinct (map gk (m_values t))"
  shows "yields (increase_size gk hs t) (\<lambda>(t', overflow). table_ok gk hs t' \<and> m_values t' = m_values t \<and> \<not> overflow)"
proof -
  let ?t = "deallocate_buckets (t\<lparr>m_shifts := m_shifts t - 1\<rparr>)"
  have s: "41 \<le> m_shifts ?t" "m_shifts ?t \<le> 62" "m_max_load_factor ?t = default_max_load_factor" "m_shifts ?t = m_shifts t - 1"
    "m_values ?t = m_values t"
    using assms(1,2) by (auto simp: deallocate_buckets_def frame_ok_def)
  obtain t1 where t1: "allocate_buckets_from_shift ?t = Some t1" "frame_ok t1" "m_values t1 = m_values t" "m_shifts t1 = m_shifts t - 1"
    using allocate_ok [OF s(1-3)] s by auto
  have "m_max_bucket_capacity t \<noteq> max_size"
    using assms(1) load_cap_bound [of "m_shifts t"] by (simp add: frame_ok_def max_elements_value max_size_def)
  moreover have "length (m_values t1) \<le> load_cap (m_shifts t1)"
    using assms load_cap_grows [of "m_shifts t"] by (simp add: t1 frame_ok_def)
  then have "yields (clear_and_fill_buckets_from_values gk hs t1) (\<lambda>t'. table_ok gk hs t' \<and> m_values t' = m_values t1 \<and>
    m_shifts t' = m_shifts t1)"
    using t1 assms(4) by (intro clear_and_fill_ok) simp_all
  ultimately show ?thesis using t1 by (auto simp: increase_size_def elim!: yields_weaken)
qed

section \<open>Lookup and insertion\<close>

text \<open>What the probe for a key says about a table, with any values pushed behind the indexed ones.\<close>

lemma table_start:
  assumes "table_ok gk hs t" "start_of hs (m_shifts t) k = (f, h)"
  shows "f < 256 \<and> h < length (m_buckets t) \<and> dist_and_fingerprint_from_hash (mixed_hash hs k) = dst f 0 \<and>
    bucket_idx_from_hash (m_shifts t) (mixed_hash hs k) = pos (length (m_buckets t)) h 0"
  using start_of_words [OF assms(2)] assms(1) by (simp add: table_ok_def)

lemma table_holds: "table_ok gk hs t \<Longrightarrow>
   holds (m_buckets t) (value_entries gk (start_of hs (m_shifts t)) (m_values t))"
  by (simp add: table_ok_def indexed_def)

lemma table_sits:
  assumes "table_ok gk hs t" "start_of hs (m_shifts t) k = (f, h)" "v < length (m_values t)" "gk (m_values t ! v) = k"
  shows "(v, f, h) \<in> set (value_entries gk (start_of hs (m_shifts t)) (m_values t)) \<and> (\<exists>m. sits (m_buckets t) (v, f, h) m)"
proof -
  have "(v, f, h) \<in> set (value_entries gk (start_of hs (m_shifts t)) (m_values t))" using assms by (simp add: in_value_entries)
  then show ?thesis using entry_slot [OF table_holds [OF assms(1)]] by blast
qed

lemma sits_bucket: "sits bs (v, f, h) m \<Longrightarrow> walkable bs f \<Longrightarrow>
   \<exists>b. bucket_at bs (pos (length bs) h m) = Some b \<and> unat (m_value_idx b) = v"
  by (simp add: walkable_at sits_def)

lemma table_walkable: "table_ok gk hs t \<Longrightarrow> start_of hs (m_shifts t) k = (f, h) \<Longrightarrow> walkable (m_buckets t) f"
  using holds_walkable [OF table_holds [of gk hs t], of f] table_start [of gk hs t k f h] by simp

lemma probe_key_found:
  assumes ok: "table_ok gk hs t" and v: "v < length (m_values t)" "gk (m_values t ! v) = k"
  shows "\<exists>i b. probe_key gk hs (t\<lparr>m_values := m_values t @ ws\<rparr>) k = Some (Found i) \<and>
    bucket_at (m_buckets t) i = Some b \<and> unat (m_value_idx b) = v"
proof -
  obtain f h where fh: "start_of hs (m_shifts t) k = (f, h)" by fastforce
  obtain m where s: "sits (m_buckets t) (v, f, h) m" using table_sits [OF ok fh v] by blast
  have ix: "indexed gk (start_of hs (m_shifts t)) (m_values t) (m_buckets t)" using ok by (simp add: table_ok_def)
  show ?thesis
    using probe_finds [OF ix fh v le0 s, of ws] sits_bucket [OF s table_walkable [OF ok fh]] table_start [OF ok fh]
    by (auto simp: probe_key_def Let_def)
qed

lemma probe_key_vacant:
  assumes ok: "table_ok gk hs t" and new: "k \<notin> gk ` set (m_values t)" and fh: "start_of hs (m_shifts t) k = (f, h)"
  shows "\<exists>m < length (m_buckets t). probe_key gk hs (t\<lparr>m_values := m_values t @ ws\<rparr>) k =
       Some (Vacant (dst f m) (pos (length (m_buckets t)) h m)) \<and>
     D (slot (m_buckets t) h m) < 256 * (m + 1) + f \<and> (\<forall>i < m. 256 * (i + 1) + f \<le> D (slot (m_buckets t) h i))"
proof -
  note st = table_start [OF ok fh]
  have ix: "indexed gk (start_of hs (m_shifts t)) (m_values t) (m_buckets t)" using ok by (simp add: table_ok_def)
  obtain m where m: "m < length (m_buckets t)" "D (slot (m_buckets t) h m) < 256 * (m + 1) + f"
      "\<forall>i < m. 256 * (i + 1) + f \<le> D (slot (m_buckets t) h i)"
    using ex_nearer [OF table_holds [OF ok]] st by blast
  have "m \<le> 2 ^ 23" using m(1) holds_size [OF table_holds [OF ok]] by linarith
  then have "probe gk (m_values t @ ws) (m_buckets t) k (dst f 0) (pos (length (m_buckets t)) h 0) =
      Some (Vacant (dst f m) (pos (length (m_buckets t)) h m))"
    using m st by (intro probe_vacant [OF ix fh _ new]) auto
  then show ?thesis using m st by (auto simp: probe_key_def Let_def)
qed

lemma index_last_ok:
  assumes ok: "table_ok gk hs t" and new: "gk e \<notin> gk ` set (m_values t)" and room: "length (m_values t) < max_elements"
    and fh: "start_of hs (m_shifts t) (gk e) = (f, h)" and m: "m < length (m_buckets t)"
    and near: "D (slot (m_buckets t) h m) < 256 * (m + 1) + f"
    and way: "\<And>i. i < m \<Longrightarrow> 256 * (i + 1) + f \<le> D (slot (m_buckets t) h i)"
  shows "yields (index_last gk hs (t\<lparr>m_values := m_values t @ [e]\<rparr>) (dst f m) (pos (length (m_buckets t)) h m))
    (\<lambda>(t', r). table_ok gk hs t' \<and> m_values t' = m_values t @ [e] \<and> r = Inr (length (m_values t), True))"
proof -
  let ?t = "t\<lparr>m_values := m_values t @ [e]\<rparr>" and ?n = "length (m_values t)"
  have fr: "frame_ok ?t" "length (m_values t) \<le> load_cap (m_shifts t)" "distinct (map gk (m_values t @ [e]))"
    using ok new by (auto simp: table_ok_iff frame_ok_values indexed_def)
  have u: "unat (of_nat ?n :: 32 word) = ?n" using room by (simp add: unat_of_nat max_elements_value)
  show ?thesis
  proof (cases "is_full ?t")
    case True
    then have "?n = load_cap (m_shifts t)" using fr ok by (simp add: is_full_def table_ok_iff frame_ok_def)
    then have "m_shifts t \<noteq> 41" using room by (auto simp: max_elements_def)
    then have "yields (increase_size gk hs ?t) (\<lambda>(t', overflow). table_ok gk hs t' \<and> m_values t' = m_values ?t \<and> \<not> overflow)"
      using fr ok by (intro increase_size_ok) (auto simp: frame_ok_def)
    then show ?thesis using True u by (auto simp: index_last_def Let_def elim!: yields_weaken)
  next
    case False
    then have lt: "?n + 1 \<le> load_cap (m_shifts t)" using ok by (simp add: is_full_def table_ok_iff frame_ok_def)
    moreover have "load_cap (m_shifts t) < length (m_buckets t)"
      using load_cap_less [of "m_shifts t"] ok by (simp add: table_ok_iff frame_ok_def)
    ultimately have "yields (place_and_shift_up (m_buckets t) \<lparr>m_dist_and_fingerprint = dst f m, m_value_idx = of_nat ?n\<rparr>
        (pos (length (m_buckets t)) h m)) (\<lambda>bs'. length bs' = length (m_buckets t) \<and>
        holds bs' (value_entries gk (start_of hs (m_shifts t)) (m_values t) @ [(?n, f, h)]))"
      using m near way table_start [OF ok fh] room
      by (intro insert_bucket [OF table_holds [OF ok]]) (auto simp: value_entries_fst max_elements_value)
    then show ?thesis
      using False u fr lt fh
      by (auto simp: index_last_def Let_def table_ok_iff indexed_def value_entries_snoc frame_ok_buckets elim!: yields_weaken)
  qed
qed

end
