(* ===== verification/HashTableProps.thy ===== *)
theory HashTableProps
  imports HashTableOps
begin

text \<open>
  The table as its users see it: each operation of a map or a set of at most \<open>max_elements\<close> elements
  returns, keeps the invariant and does to \<open>m_values\<close> what the dense containers of \<open>Prelude\<close> do to their
  list. The interface is the locale \<open>dense_table\<close>; the table interprets it twice, as a map and as a set.
\<close>

section \<open>Lookup\<close>

definition key_index :: "('e \<Rightarrow> 'k) \<Rightarrow> 'k \<Rightarrow> 'e list \<Rightarrow> nat" where
  "key_index gk k vs = (case find_index (\<lambda>e. gk e = k) vs of None \<Rightarrow> length vs | Some i \<Rightarrow> i)"

lemma key_cases:
  obtains (absent) "k \<notin> gk ` set vs" "find_index (\<lambda>e. gk e = k) vs = None" "key_index gk k vs = length vs"
    | (present) v where "v < length vs" "gk (vs ! v) = k" "k \<in> gk ` set vs" "find_index (\<lambda>e. gk e = k) vs = Some v"
        "key_index gk k vs = v"
proof (cases "find_index (\<lambda>e. gk e = k) vs")
  case None
  then have "k \<notin> gk ` set vs" by (auto simp: find_index_None)
  then show ?thesis using absent None by (simp add: key_index_def)
next
  case (Some v)
  then have v: "v < length vs" "gk (vs ! v) = k" using find_index_Some [OF Some] by simp_all
  then have "k \<in> gk ` set vs" by (metis imageI nth_mem)
  then show ?thesis using present v Some by (simp add: key_index_def)
qed

lemma table_distinct: "table_ok gk hs t \<Longrightarrow> distinct (map gk (m_values t))"
  by (simp add: table_ok_def indexed_def)

lemma direct_probe_ok:
  assumes ok: "table_ok gk hs t" and fh: "start_of hs (m_shifts t) k = (f, h)" and j: "j \<le> 2 ^ 23"
  shows "direct_probe gk (m_values t) (m_buckets t) k (dst f j) (pos (length (m_buckets t)) h j) =
    Some (if D (slot (m_buckets t) h j) = 256 * (j + 1) + f \<and> gk (m_values t ! V (slot (m_buckets t) h j)) = k
      then Some (V (slot (m_buckets t) h j)) else None)"
proof -
  note w = table_walkable [OF ok fh]
  have "(h + j) mod length (m_buckets t) < length (m_buckets t)"
    using walkable_small [OF w] by (intro mod_less_divisor) simp
  then have "V (slot (m_buckets t) h j) < length (m_values t)" if "D (slot (m_buckets t) h j) \<noteq> 0"
    using indexed_slot [of gk "start_of hs (m_shifts t)"] ok that by (simp add: table_ok_def)
  then show ?thesis
    using j walkable_small [OF w] by (auto simp: direct_probe_def walkable_at [OF w] df_equal value_at_def)
qed

lemma do_find_ok:
  assumes ok: "table_ok gk hs t"
  shows "do_find gk hs t k = Some (key_index gk k (m_values t))"
proof (cases "m_values t = []")
  case True
  then show ?thesis by (simp add: do_find_def key_index_def)
next
  case False
  let ?vs = "m_values t" and ?bs = "m_buckets t"
  obtain f h where fh: "start_of hs (m_shifts t) k = (f, h)" by fastforce
  note st = table_start [OF ok fh] and w = table_walkable [OF ok fh]
  have ix: "indexed gk (start_of hs (m_shifts t)) ?vs ?bs" using ok by (simp add: table_ok_def)
  define hit where "hit j \<longleftrightarrow> D (slot ?bs h j) = 256 * (j + 1) + f \<and> gk (?vs ! V (slot ?bs h j)) = k" for j
  have vl: "V (slot ?bs h j) < length ?vs" if "hit j" for j
  proof -
    have "(h + j) mod length ?bs < length ?bs" using walkable_small [OF w] by (intro mod_less_divisor) simp
    then show ?thesis using indexed_slot [OF ix] that by (simp add: hit_def)
  qed
  have step: "do_find gk hs t k = (if hit 0 then Some (V (slot ?bs h 0)) else if hit 1 then Some (V (slot ?bs h 1)) else do {
      r \<leftarrow> probe gk ?vs ?bs k (dst f 2) (pos (length ?bs) h 2);
      case r of Found i \<Rightarrow> map_option (\<lambda>b. unat (m_value_idx b)) (bucket_at ?bs i) | Vacant _ _ \<Rightarrow> Some (length ?vs)})"
    using False st direct_probe_ok [OF ok fh, of 0] direct_probe_ok [OF ok fh, of 1]
    by (simp add: do_find_def Let_def dist_inc_dst walkable_next [OF w] hit_def numeral_2_eq_2)
  show ?thesis
  proof (cases rule: key_cases [of k gk ?vs])
    case absent
    then have no: "\<not> hit j" for j using vl [of j] by (force simp: hit_def)
    obtain m where m: "m < length ?bs" "D (slot ?bs h m) < 256 * (m + 1) + f" "\<forall>i < m. 256 * (i + 1) + f \<le> D (slot ?bs h i)"
      using ex_nearer [OF table_holds [OF ok]] st by blast
    define m' where "m' = max 2 m"
    have "D (slot ?bs h m') < 256 * (m' + 1) + f"
    proof (rule ccontr)
      assume "\<not> ?thesis"
      then have "256 * (m + 1) + f \<le> D (slot ?bs h m)"
        using smooth_chain [of ?bs m m' f h] holds_smooth [OF table_holds [OF ok]] walkable_small [OF w] by (simp add: m'_def)
      then show False using m(2) by simp
    qed
    then have "probe gk (?vs @ []) ?bs k (dst f 2) (pos (length ?bs) h 2) = Some (Vacant (dst f m') (pos (length ?bs) h m'))"
      using m st holds_size [OF table_holds [OF ok]] absent(1) by (intro probe_vacant [OF ix fh]) (auto simp: m'_def)
    then show ?thesis using no absent(3) by (simp add: step)
  next
    case (present v)
    obtain m where s: "sits ?bs (v, f, h) m" using table_sits [OF ok fh present(1,2)] by blast
    have uniq: "V (slot ?bs h j) = v" if "hit j" for j
      using distinct_keys_nth [OF table_distinct [OF ok] vl [OF that] present(1)] that present(2) by (simp add: hit_def)
    have "hit m" using s present by (simp add: hit_def sits_def)
    show ?thesis
    proof (cases "hit 0 \<or> hit 1")
      case True
      then show ?thesis using uniq [of 0] uniq [of 1] present(5) by (auto simp: step)
    next
      case False
      then have "m \<noteq> 0" "m \<noteq> 1" using \<open>hit m\<close> by metis+
      then have "probe gk (?vs @ []) ?bs k (dst f 2) (pos (length ?bs) h 2) = Some (Found (pos (length ?bs) h m))"
        by (intro probe_finds [OF ix fh present(1,2) _ s]) simp
      then show ?thesis using False sits_bucket [OF s w] present(5) by (auto simp: step)
    qed
  qed
qed

section \<open>Insertion\<close>

lemma same_values [simp]: "t\<lparr>m_values := m_values t\<rparr> = (t :: 'e table)"
  by simp

lemma emplace_ok:
  assumes ok: "table_ok gk hs t" and room: "length (m_values t) < max_elements"
  shows "yields (emplace gk hs t e) (\<lambda>(t', r). table_ok gk hs t' \<and>
    m_values t' = (if gk e \<in> gk ` set (m_values t) then m_values t else m_values t @ [e]) \<and>
    r = Inr (key_index gk (gk e) (m_values t), gk e \<notin> gk ` set (m_values t)))"
proof (cases rule: key_cases [of "gk e" gk "m_values t"])
  case absent
  obtain f h where fh: "start_of hs (m_shifts t) (gk e) = (f, h)" by fastforce
  obtain m where "m < length (m_buckets t)" "D (slot (m_buckets t) h m) < 256 * (m + 1) + f"
      "\<And>i. i < m \<Longrightarrow> 256 * (i + 1) + f \<le> D (slot (m_buckets t) h i)"
      "probe_key gk hs (t\<lparr>m_values := m_values t @ [e]\<rparr>) (gk e) = Some (Vacant (dst f m) (pos (length (m_buckets t)) h m))"
    using probe_key_vacant [OF ok absent(1) fh] by blast
  then show ?thesis
    using index_last_ok [OF ok absent(1) room fh] absent by (auto simp: emplace_def Let_def)
next
  case (present v)
  then show ?thesis using probe_key_found [OF ok present(1,2), of "[e]"] ok by (auto simp: emplace_def Let_def)
qed

lemma do_try_emplace_ok:
  assumes ok: "table_ok gk hs t" and room: "length (m_values t) < max_elements" and k: "gk e = k"
  shows "yields (do_try_emplace gk hs t k e) (\<lambda>(t', r). table_ok gk hs t' \<and>
    m_values t' = (if k \<in> gk ` set (m_values t) then m_values t else m_values t @ [e]) \<and>
    r = Inr (key_index gk k (m_values t), k \<notin> gk ` set (m_values t)))"
proof (cases rule: key_cases [of k gk "m_values t"])
  case absent
  obtain f h where fh: "start_of hs (m_shifts t) k = (f, h)" by fastforce
  obtain m where "m < length (m_buckets t)" "D (slot (m_buckets t) h m) < 256 * (m + 1) + f"
      "\<And>i. i < m \<Longrightarrow> 256 * (i + 1) + f \<le> D (slot (m_buckets t) h i)"
      "probe_key gk hs (t\<lparr>m_values := m_values t @ []\<rparr>) k = Some (Vacant (dst f m) (pos (length (m_buckets t)) h m))"
    using probe_key_vacant [OF ok absent(1) fh] by blast
  then show ?thesis
    using index_last_ok [OF ok _ room, of e f h m] absent fh k by (auto simp: do_try_emplace_def do_place_element_def)
next
  case (present v)
  then show ?thesis using probe_key_found [OF ok present(1,2), of "[]"] ok by (auto simp: do_try_emplace_def)
qed

text \<open>Overwriting the mapped value of an element leaves its key, so the buckets stay right.\<close>

lemma same_keys_ok:
  assumes "table_ok gk hs t" "map gk vs = map gk (m_values t)"
  shows "table_ok gk hs (t\<lparr>m_values := vs\<rparr>)"
proof -
  have l: "length vs = length (m_values t)" using assms(2) map_eq_imp_length_eq by blast
  have "gk (vs ! i) = gk (m_values t ! i)" if "i < length vs" for i
    using assms(2) that l by (metis nth_map)
  then have "value_entries gk H vs = value_entries gk H (m_values t)" for H by (simp add: value_entries_def l)
  then show ?thesis using assms l by (simp add: table_ok_def indexed_def)
qed

lemma set_second_ok:
  assumes "table_ok fst hs t" "it < length (m_values t)"
  shows "table_ok fst hs (set_second it v t)"
  unfolding set_second_def
  by (rule same_keys_ok [OF assms(1)]) (simp add: map_update list_update_same_conv assms(2))

lemma set_second_put:
  assumes "distinct (map fst m)" "it < length m" "fst (m ! it) = k"
  shows "m[it := (k, v)] = dm_put k v m"
proof (rule nth_equalityI)
  have "k \<in> fst ` set m" using assms(2,3) by (metis imageI nth_mem)
  then have p: "dm_put k v m = map (\<lambda>(k', v'). (k', if k' = k then v else v')) m" by (simp add: dm_put_def)
  then show "length (m[it := (k, v)]) = length (dm_put k v m)" by simp
  fix i assume i: "i < length (m[it := (k, v)])"
  have "fst (m ! i) = k \<longleftrightarrow> i = it"
    using distinct_keys_nth [OF assms(1) _ assms(2), of i] i assms(3) by auto
  then show "m[it := (k, v)] ! i = dm_put k v m ! i"
    using i assms by (auto simp: p nth_list_update case_prod_unfold prod_eq_iff)
qed

lemma set_second_last: "set_second (length m) v (t\<lparr>m_values := m @ [(k, d)]\<rparr>) = t\<lparr>m_values := m @ [(k, v)]\<rparr>"
  by (simp add: set_second_def)

section \<open>Removal\<close>

lemma map_swap_remove: "vs \<noteq> [] \<Longrightarrow> map gk (swap_remove i vs) = swap_remove i (map gk vs)"
  by (simp add: swap_remove_def map_butlast map_update last_map)

lemma swap_remove_last: "vs \<noteq> [] \<Longrightarrow> swap_remove (length vs - 1) vs = butlast vs"
  by (simp add: swap_remove_def butlast_list_update)

lemma distinct_swap_remove: "distinct (map gk vs) \<Longrightarrow> i < length vs \<Longrightarrow> distinct (map gk (swap_remove i vs))"
proof -
  assume a: "distinct (map gk vs)" "i < length vs"
  then have "map gk (swap_remove i vs) = swap_remove i (map gk vs)" by (intro map_swap_remove) auto
  moreover have "distinct (swap_remove i (map gk vs))"
    using distinct_mset_sub [OF a(1) nth_mem mset_swap_remove] a(2) by simp
  ultimately show ?thesis by simp
qed

lemma nth_swap_remove:
  "i < length vs - 1 \<Longrightarrow> swap_remove v vs ! i = (if i = v then last vs else vs ! i)"
  by (auto simp: swap_remove_def nth_butlast nth_list_update)

text \<open>The entries after a removal: one is gone, and the entry of the last value has the free number.\<close>

lemma value_entries_swap_remove:
  assumes v: "v < length vs - 1"
  shows "mset (value_entries gk H (swap_remove v vs)) =
    mset ((v, H (gk (last vs))) # remove1 (length vs - 1, H (gk (last vs)))
      (remove1 (v, H (gk (vs ! v))) (value_entries gk H vs)))"
proof -
  define n A where "n = length vs - 1" and "A = {..<n} - {v}"
  define g where "g = (\<lambda>i. (i, H (gk (vs ! i))))"
  have ne: "vs \<noteq> []" using v by auto
  have n: "length vs = Suc n" "last vs = vs ! n" using v last_conv_nth [OF ne] by (simp_all add: n_def)
  have fin: "finite A" "v \<notin> A" "n \<notin> A" "n \<noteq> v" and ins: "{..<n} = insert v A" "{..<Suc n} = insert n (insert v A)"
    using v by (auto simp: A_def n_def)
  have im: "mset (map c [0 ..< m]) = image_mset c (mset_set {..<m})" for c :: "nat \<Rightarrow> entry" and m
    by (simp add: lessThan_atLeast0)
  have "mset (value_entries gk H vs) = image_mset g (mset_set {..<Suc n})"
    unfolding value_entries_def n(1) im g_def ..
  also have "\<dots> = add_mset (g n) (add_mset (g v) (image_mset g (mset_set A)))"
    using fin by (simp add: ins)
  finally have all: "mset (value_entries gk H vs) = add_mset (g n) (add_mset (g v) (image_mset g (mset_set A)))" .
  have "mset (value_entries gk H (swap_remove v vs)) =
      image_mset (\<lambda>i. (i, H (gk (swap_remove v vs ! i)))) (mset_set {..<n})"
    unfolding value_entries_def length_swap_remove im by (simp add: n)
  also have "\<dots> = add_mset (v, H (gk (swap_remove v vs ! v))) (image_mset (\<lambda>i. (i, H (gk (swap_remove v vs ! i)))) (mset_set A))"
    using fin by (simp add: ins)
  also have "swap_remove v vs ! v = last vs" using v by (simp add: nth_swap_remove)
  also have "image_mset (\<lambda>i. (i, H (gk (swap_remove v vs ! i)))) (mset_set A) = image_mset g (mset_set A)"
    using v by (intro image_mset_cong) (auto simp: A_def n_def nth_swap_remove g_def)
  finally show ?thesis using all by (simp add: n g_def)
qed

lemma table_small: "table_ok gk hs t \<Longrightarrow> length (m_values t) < 2 ^ 23"
  using table_holds [of gk hs t] by (simp add: holds_def)

lemma do_erase_ok:
  assumes ok: "table_ok gk hs t" and fh: "start_of hs (m_shifts t) (gk (m_values t ! v)) = (f, h)"
    and v: "v < length (m_values t)" and s: "sits (m_buckets t) (v, f, h) m"
  shows "yields (do_erase gk hs t (pos (length (m_buckets t)) h m)) (\<lambda>(t', e). table_ok gk hs t' \<and>
    m_values t' = swap_remove v (m_values t) \<and> e = m_values t ! v)"
proof -
  let ?bs = "m_buckets t" and ?vs = "m_values t" and ?H = "start_of hs (m_shifts t)" and ?n = "length (m_values t) - 1"
  let ?es = "value_entries gk ?H ?vs"
  note hb = table_holds [OF ok] and w = table_walkable [OF ok fh]
  have x: "(v, f, h) \<in> set ?es" using fh v by (simp add: in_value_entries)
  obtain b where b: "bucket_at ?bs (pos (length ?bs) h m) = Some b" "unat (m_value_idx b) = v"
    using sits_bucket [OF s w] by auto
  obtain bs where bs: "erase_and_shift_down ?bs (pos (length ?bs) h m) = Some bs" "length bs = length ?bs"
      "holds bs (remove1 (v, f, h) ?es)"
    using remove_bucket [OF hb x s] by (auto simp: yields_iff)
  have er: "value_at ?vs (m_value_idx b) = Some (?vs ! v)" using v b by (simp add: value_at_def)
  have d: "distinct (map gk (swap_remove v ?vs))" by (rule distinct_swap_remove [OF table_distinct [OF ok] v])
  have fr: "frame_ok t" "length (swap_remove v ?vs) \<le> load_cap (m_shifts t)"
    using ok by (auto simp: table_ok_iff length_swap_remove)
  have ne: "?vs \<noteq> []" using v by auto
  show ?thesis
  proof (cases "v = ?n")
    case True
    then have sw: "swap_remove v ?vs = butlast ?vs" using swap_remove_last [OF ne] by simp
    have "?vs = butlast ?vs @ [?vs ! v]" using v True by (metis append_butlast_last_id last_conv_nth length_0_conv not_less_zero)
    then have "?es = value_entries gk ?H (butlast ?vs) @ [(v, f, h)]"
      using value_entries_snoc [of gk ?H "butlast ?vs" "?vs ! v"] True fh by simp
    then have "mset (value_entries gk ?H (butlast ?vs)) = mset (remove1 (v, f, h) ?es)" by (metis mset_remove1 mset_append
      mset.simps add_mset_remove_trivial add_0_right union_mset_add_mset_right)
    then have "table_ok gk hs (t\<lparr>m_values := swap_remove v ?vs, m_buckets := bs\<rparr>)"
      using holds_mset [OF bs(3)] d fr bs(2) by (simp add: table_ok_iff indexed_def frame_ok_def sw)
    then show ?thesis using True b bs er sw by (simp add: do_erase_def Let_def)
  next
    case False
    then have vl: "v < ?n" using v by simp
    define val where "val = last ?vs"
    obtain f' h' where fh': "?H (gk val) = (f', h')" by fastforce
    have nl: "?vs ! ?n = val" "?n < length ?vs" using v last_conv_nth [OF ne] by (simp_all add: val_def)
    have x': "(?n, f', h') \<in> set (remove1 (v, f, h) ?es)"
      using nl fh' False in_value_entries [of ?n f' h' gk ?H ?vs] by (simp add: in_set_remove1)
    have small: "?n < 2 ^ 32" using table_small [OF ok] by simp
    obtain j where j: "sits bs (?n, f', h') j" "find_slot bs (of_nat ?n) (pos (length bs) h' 0) = Some (pos (length bs) h' j)"
      using find_slot_finds [OF bs(3) x' small] by auto
    have home: "bucket_idx_from_hash (m_shifts t) (mixed_hash hs (gk val)) = pos (length bs) h' 0"
      using table_start [OF ok fh'] bs(2) by simp
    have uj: "unat (pos (length bs) h' j) = (h' + j) mod length bs"
      using walkable_small [OF w] bs(2) by (intro unat_pos) simp_all
    have fresh: "v \<notin> fst ` set (remove1 (v, f, h) ?es)"
      using hb x remove1_entries(2) [of ?es "(v, f, h)"] by (auto simp: holds_def in_value_entries image_iff fh)
    define bs' where "bs' = bs[(h' + j) mod length bs := (slot bs h' j)\<lparr>m_value_idx := of_nat v\<rparr>]"
    have "holds bs' ((v, f', h') # remove1 (?n, f', h') (remove1 (v, f, h) ?es))"
      unfolding bs'_def using vl small by (intro renumber_bucket [OF bs(3) x' j(1) fresh]) simp
    then have "holds bs' (value_entries gk ?H (swap_remove v ?vs))"
      by (rule holds_mset) (simp only: value_entries_swap_remove [OF vl] fh fh' val_def [symmetric])
    then have ok': "table_ok gk hs (t\<lparr>m_values := swap_remove v ?vs, m_buckets := bs'\<rparr>)"
      using d fr bs(2) by (simp add: table_ok_iff indexed_def frame_ok_def bs'_def)
    have "m_value_idx b = of_nat v" unfolding b(2) [symmetric] by simp
    then show ?thesis using False vl b(1) b(2) bs er j(2) home uj ok'
      by (simp add: do_erase_def Let_def val_def swap_remove_def bs'_def)
  qed
qed

lemma smooth_below:
  assumes "smooth bs" "0 < length bs" "m \<le> i" "D (slot bs h m) \<le> 256 * (m + 1) + f"
  shows "D (slot bs h i) \<le> 256 * (i + 1) + f"
  using assms(3,4)
proof (induction i rule: dec_induct)
  case (step i)
  have "(h + i) mod length bs < length bs" using assms(2) by simp
  from smooth_next [OF assms(1) this] step show ?case by simp
qed simp

lemma do_erase_key_ok:
  assumes ok: "table_ok gk hs t"
  shows "yields (do_erase_key gk hs t k) (\<lambda>(t', r). table_ok gk hs t' \<and>
    (case find_index (\<lambda>e. gk e = k) (m_values t) of
       None \<Rightarrow> t' = t \<and> r = None
     | Some i \<Rightarrow> m_values t' = swap_remove i (m_values t) \<and> r = Some (m_values t ! i)))"
proof (cases "m_values t = []")
  case True
  then show ?thesis using ok by (simp add: do_erase_key_def)
next
  case False
  let ?vs = "m_values t" and ?bs = "m_buckets t"
  obtain f h where fh: "start_of hs (m_shifts t) k = (f, h)" by fastforce
  note st = table_start [OF ok fh] and w = table_walkable [OF ok fh] and hb = table_holds [OF ok]
  have ix: "indexed gk (start_of hs (m_shifts t)) ?vs ?bs" using ok by (simp add: table_ok_def)
  have N: "0 < length ?bs" "length ?bs \<le> 2 ^ 23" using holds_size [OF hb] by linarith+
  obtain m0 where m0: "m0 < length ?bs" "skip_farther ?bs (dst f 0) (pos (length ?bs) h 0) = Some (dst f m0, pos (length ?bs) h m0)"
      "D (slot ?bs h m0) \<le> 256 * (m0 + 1) + f" "\<forall>i < m0. 256 * (i + 1) + f < D (slot ?bs h i)"
    using skip_farther_stops [OF hb, of h f] st by auto
  have nx: "next_while_less hs t k = Some (dst f m0, pos (length ?bs) h m0)"
    using st m0(2) by (simp add: next_while_less_def Let_def)
  have below: "D (slot ?bs h i) \<le> 256 * (i + 1) + f" if "m0 \<le> i" for i
    using smooth_below [OF holds_smooth [OF hb] N(1) that m0(3)] .
  show ?thesis
  proof (cases rule: key_cases [of k gk ?vs])
    case absent
    obtain m where m: "m < length ?bs" "D (slot ?bs h m) < 256 * (m + 1) + f" "\<forall>i < m. 256 * (i + 1) + f \<le> D (slot ?bs h i)"
      using ex_nearer [OF hb] st by blast
    have m0m: "m0 \<le> m" using m0(4) m(2) by (metis less_asym not_le)
    have other: "V (slot ?bs h i) < length ?vs \<and> gk (?vs ! V (slot ?bs h i)) \<noteq> k" if "i < m" for i
    proof -
      have "V (slot ?bs h i) < length ?vs"
        using m(3) that N by (intro indexed_slot [OF ix] mod_less_divisor) force+
      then show ?thesis using absent(1) by force
    qed
    have "skip_equal gk ?vs ?bs k (dst f m0) (pos (length ?bs) h m0) = skip_equal gk ?vs ?bs k (dst f m) (pos (length ?bs) h m)"
      using m(1,3) N below other m0m by (intro skip_equal_walk [OF w]) (auto intro: le_antisym)
    also have "\<dots> = Some (dst f m, pos (length ?bs) h m)"
      using m(1,2) N st by (subst skip_equal.simps) (simp add: walkable_at [OF w] df_equal)
    finally show ?thesis
      using False nx m(1,2) N st ok absent(2)
      by (simp add: do_erase_key_def walkable_at [OF w] df_equal)
  next
    case (present v)
    obtain m where s: "sits ?bs (v, f, h) m" using table_sits [OF ok fh present(1,2)] by blast
    have m: "m \<le> 2 ^ 23" "D (slot ?bs h m) = 256 * (m + 1) + f" "V (slot ?bs h m) = v" using s N by (auto simp: sits_def)
    have m0m: "m0 \<le> m" using m0(4) m(2) by (metis less_irrefl not_le)
    note way = way_to_entry [OF ix present(1,2) s]
    have eq: "D (slot ?bs h i) = 256 * (i + 1) + f" if "m0 \<le> i" "i < m" for i
      using way [OF that(2)] below [OF that(1)] by simp
    have "skip_equal gk ?vs ?bs k (dst f m0) (pos (length ?bs) h m0) = skip_equal gk ?vs ?bs k (dst f m) (pos (length ?bs) h m)"
      using way by (intro skip_equal_walk [OF w m0m m(1) eq]) auto
    also have "\<dots> = Some (dst f m, pos (length ?bs) h m)"
      using m present st by (subst skip_equal.simps) (simp add: walkable_at [OF w] df_equal value_at_def)
    finally have "do_erase_key gk hs t k = map_option (\<lambda>(t, e). (t, Some e)) (do_erase gk hs t (pos (length ?bs) h m))"
      using False nx m st by (simp add: do_erase_key_def walkable_at [OF w] df_equal)
    then show ?thesis
      using do_erase_ok [OF ok _ present(1) s] fh present by (auto simp: case_prod_unfold elim!: yields_weaken)
  qed
qed

lemma extract_at_ok:
  assumes ok: "table_ok gk hs t" and v: "v < length (m_values t)"
  shows "yields (extract_at gk hs t v) (\<lambda>(t', e). table_ok gk hs t' \<and> m_values t' = swap_remove v (m_values t) \<and>
    e = m_values t ! v)"
proof -
  let ?bs = "m_buckets t" and ?vs = "m_values t"
  obtain f h where fh: "start_of hs (m_shifts t) (gk (?vs ! v)) = (f, h)" by fastforce
  note hb = table_holds [OF ok]
  have x: "(v, f, h) \<in> set (value_entries gk (start_of hs (m_shifts t)) ?vs)" using fh v by (simp add: in_value_entries)
  have "v < 2 ^ 32" using v table_small [OF ok] by simp
  then obtain m where m: "sits ?bs (v, f, h) m" "find_slot ?bs (of_nat v) (pos (length ?bs) h 0) = Some (pos (length ?bs) h m)"
    using find_slot_finds [OF hb x] by auto
  then show ?thesis
    using do_erase_ok [OF ok fh v m(1)] v table_start [OF ok fh] by (simp add: extract_at_def)
qed

lemma erase_at_ok:
  assumes "table_ok gk hs t" "v < length (m_values t)"
  shows "yields (erase_at gk hs t v) (\<lambda>(t', it). table_ok gk hs t' \<and> m_values t' = swap_remove v (m_values t) \<and> it = v)"
  using extract_at_ok [OF assms] by (auto simp: erase_at_def case_prod_unfold elim!: yields_weaken)

end
