(* ===== verification/HashTableApi.thy ===== *)
theory HashTableApi
  imports HashTableProps
begin

text \<open>
  The rest of the table's interface: reserving and rehashing, copying, clearing, replacing a key or all
  the contents, removing by a predicate or a range, reading and comparing.
\<close>

section \<open>Capacity\<close>

lemma shifts_from_ok:
  assumes "s \<le> max_elements" "41 \<le> n" "n \<le> 62"
  shows "41 \<le> shifts_from default_max_load_factor s n \<and> shifts_from default_max_load_factor s n \<le> n \<and>
    s \<le> load_cap (shifts_from default_max_load_factor s n)"
  using assms(2,3)
proof (induction n rule: dec_induct)
  case base
  have e: "(41 :: nat) = Suc 40" by simp
  have "loaded default_max_load_factor (num_buckets 41) = max_elements"
    by (simp add: num_buckets_def max_size_def loaded_power [of 23, simplified] max_elements_value)
  then have "shifts_from default_max_load_factor s 41 = 41"
    using assms(1) unfolding e by (subst shifts_from.simps(2)) simp
  then show ?case using assms(1) by (simp add: max_elements_def)
next
  case (step n)
  have "num_buckets (Suc n) = 2 ^ (64 - Suc n)"
    using pow_bounds [of "Suc n"] step by (simp add: num_buckets_def max_size_def)
  then have "loaded default_max_load_factor (num_buckets (Suc n)) = load_cap (Suc n)"
    by (simp add: loaded_power load_cap_def)
  then show ?case using step by auto
qed

lemma calc_shifts_ok:
  "s \<le> max_elements \<Longrightarrow> 41 \<le> calc_shifts_for_size default_max_load_factor s \<and>
     calc_shifts_for_size default_max_load_factor s \<le> 62 \<and> s \<le> load_cap (calc_shifts_for_size default_max_load_factor s)"
  using shifts_from_ok [of s 62] by (simp add: calc_shifts_for_size_def initial_shifts_def)

lemma reshaped_ok:
  assumes "m_max_load_factor t = default_max_load_factor" "distinct (map gk (m_values t))"
    and "41 \<le> s" "s \<le> 62" "length (m_values t) \<le> load_cap s"
  shows "yields (Option.bind (allocate_buckets_from_shift (deallocate_buckets (t\<lparr>m_shifts := s\<rparr>)))
      (clear_and_fill_buckets_from_values gk hs)) (\<lambda>t'. table_ok gk hs t' \<and> m_values t' = m_values t)"
proof -
  let ?t = "deallocate_buckets (t\<lparr>m_shifts := s\<rparr>)"
  obtain t' where t': "allocate_buckets_from_shift ?t = Some t'" "frame_ok t'" "m_values t' = m_values t" "m_shifts t' = s"
    using allocate_ok [of ?t] assms by (auto simp: deallocate_buckets_def)
  then show ?thesis
    using clear_and_fill_ok [of t' gk hs] assms by (auto elim!: yields_weaken)
qed

lemma table_load: "table_ok gk hs t \<Longrightarrow> m_max_load_factor t = default_max_load_factor \<and> length (m_values t) \<le> max_elements"
  using load_cap_bound [of "m_shifts t"] by (auto simp: table_ok_def)

text \<open>The shift count that \<open>reserve\<close> and \<open>rehash\<close> compute.\<close>

lemma target_shifts_ok:
  assumes "m_max_load_factor t = default_max_load_factor" "length (m_values t) \<le> max_elements" "n \<le> max_elements"
    and "s = calc_shifts_for_size (m_max_load_factor t) (max (min n max_size) (length (m_values t)))"
  shows "41 \<le> s" "s \<le> 62" "length (m_values t) \<le> load_cap s"
proof -
  have "max (min n max_size) (length (m_values t)) \<le> max_elements" using assms(2,3) by auto
  from calc_shifts_ok [OF this] show "41 \<le> s" "s \<le> 62" "length (m_values t) \<le> load_cap s"
    using assms(1,4) by simp_all
qed

lemma reserve_ok:
  assumes "table_ok gk hs t" "n \<le> max_elements"
  shows "yields (reserve gk hs n t) (\<lambda>t'. table_ok gk hs t' \<and> m_values t' = m_values t)"
proof -
  define s where "s = calc_shifts_for_size (m_max_load_factor t) (max (min n max_size) (length (m_values t)))"
  have ml: "m_max_load_factor t = default_max_load_factor" using table_load [OF assms(1)] by simp
  note sh = target_shifts_ok [OF ml _ assms(2) s_def]
  show ?thesis
    using reshaped_ok [OF ml table_distinct [OF assms(1)] sh, of hs] table_load [OF assms(1)] assms(1)
    unfolding reserve_def s_def [symmetric] Let_def by simp
qed

lemma rehash_ok:
  assumes "table_ok gk hs t" "n \<le> max_elements"
  shows "yields (rehash gk hs n t) (\<lambda>t'. table_ok gk hs t' \<and> m_values t' = m_values t)"
proof -
  define s where "s = calc_shifts_for_size (m_max_load_factor t) (max (min n max_size) (length (m_values t)))"
  have ml: "m_max_load_factor t = default_max_load_factor" using table_load [OF assms(1)] by simp
  note sh = target_shifts_ok [OF ml _ assms(2) s_def]
  show ?thesis
    using reshaped_ok [OF ml table_distinct [OF assms(1)] sh, of hs] table_load [OF assms(1)] assms(1)
    unfolding rehash_def s_def [symmetric] Let_def by simp
qed

text \<open>The constructor with a number of elements to expect.\<close>

lemma new_table_reserved_ok:
  assumes "n \<le> max_elements"
  shows "yields (new_table gk hs n) (\<lambda>t. table_ok gk hs t \<and> m_values t = [])"
proof (cases "n = 0")
  case True
  then show ?thesis using new_table_ok by simp
next
  case False
  define t where "t = (raw_table :: 'a table)"
  define s where "s = calc_shifts_for_size (m_max_load_factor t) (max (min n max_size) (length (m_values t)))"
  have t: "m_max_load_factor t = default_max_load_factor" "m_values t = []" "m_buckets t = []"
    by (simp_all add: t_def raw_table_def)
  note sh = target_shifts_ok [OF t(1) _ assms s_def]
  have "yields (reserve gk hs n t) (\<lambda>t. table_ok gk hs t \<and> m_values t = [])"
    using reshaped_ok [OF t(1) _ sh, of gk hs] unfolding reserve_def s_def [symmetric] Let_def by (simp add: t)
  then show ?thesis using False by (simp add: new_table_def t_def)
qed

text \<open>Asking for more than four fifths of \<open>2 ^ 32\<close> elements ends in a shift by 64 bits.\<close>

lemma loaded_le_max: "loaded default_max_load_factor (num_buckets (Suc n)) \<le> 3435973888"
proof -
  obtain k where k: "num_buckets (Suc n) = 2 ^ k" "k \<le> 32"
  proof (cases "64 - Suc n \<le> 32")
    case True
    then have "(2 :: nat) ^ (64 - Suc n) \<le> 2 ^ 32" by (intro power_increasing) auto
    then show ?thesis using True that [of "64 - Suc n"] by (simp add: num_buckets_def max_size_def)
  next
    case False
    then have "(2 :: nat) ^ 32 \<le> 2 ^ (64 - Suc n)" by (intro power_increasing) auto
    then show ?thesis using that [of 32] by (simp add: num_buckets_def max_size_def)
  qed
  have "(2 :: nat) ^ k * 13421773 div 2 ^ 24 \<le> 2 ^ 32 * 13421773 div 2 ^ 24"
    using k(2) by (intro div_le_mono mult_le_mono1 power_increasing) auto
  then show ?thesis by (simp add: k(1) loaded_power)
qed

lemma shifts_from_zero: "3435973888 < s \<Longrightarrow> shifts_from default_max_load_factor s n = 0"
  using loaded_le_max by (induction n) (auto intro: le_less_trans)

theorem reserve_too_much:
  assumes "3435973888 < n" shows "new_table gk hs n = None"
proof -
  have "3435973888 < min n max_size" using assms by (simp add: max_size_def)
  then have "calc_shifts_for_size default_max_load_factor (min n max_size) = 0"
    by (simp add: calc_shifts_for_size_def shifts_from_zero)
  then show ?thesis using assms
    by (simp add: new_table_def reserve_def Let_def raw_table_def deallocate_buckets_def
        allocate_buckets_from_shift_def calc_num_buckets_def)
qed

section \<open>Clearing and removing many\<close>

lemma clear_table_ok: "table_ok gk hs t \<Longrightarrow> table_ok gk hs (clear_table t) \<and> m_values (clear_table t) = []"
  using holds_cleared [of "t\<lparr>m_values := []\<rparr>"]
  by (simp add: table_ok_iff clear_table_def indexed_def value_entries_def frame_ok_def clear_buckets_def)

lemma swap_remove_keeps:
  assumes "i < length vs" "\<forall>j. i < j \<and> j < length vs \<longrightarrow> \<not> p (vs ! j)"
  shows "\<forall>j. i \<le> j \<and> j < length (swap_remove i vs) \<longrightarrow> \<not> p (swap_remove i vs ! j)"
proof (intro allI impI)
  fix j assume j: "i \<le> j \<and> j < length (swap_remove i vs)"
  then have l: "j < length vs - 1" by (simp add: length_swap_remove)
  have ne: "vs \<noteq> []" using assms(1) by auto
  show "\<not> p (swap_remove i vs ! j)"
    using j l assms nth_swap_remove [OF l, of i] last_conv_nth [OF ne] by auto
qed

lemma erase_if_from_ok:
  assumes "table_ok gk hs t" "n \<le> length (m_values t)" "\<forall>j. n \<le> j \<and> j < length (m_values t) \<longrightarrow> \<not> p (m_values t ! j)"
  shows "yields (erase_if_from gk hs p n t) (\<lambda>t'. table_ok gk hs t' \<and>
    mset (m_values t') = filter_mset (\<lambda>e. \<not> p e) (mset (m_values t)))"
  using assms
proof (induction n arbitrary: t)
  case 0
  then have "\<forall>e \<in> set (m_values t). \<not> p e" by (auto simp: in_set_conv_nth)
  then have "filter_mset (\<lambda>e. \<not> p e) (mset (m_values t)) = mset (m_values t)"
    by (intro filter_mset_eq_conv [THEN iffD2]) (auto simp: multiset_eq_iff)
  then show ?case using 0 by simp
next
  case (Suc n)
  let ?vs = "m_values t"
  have n: "n < length ?vs" using Suc.prems by simp
  have up: "\<forall>j. n < j \<and> j < length ?vs \<longrightarrow> \<not> p (?vs ! j)" using Suc.prems(3) by (auto simp: Suc_le_eq)
  show ?case
  proof (cases "p (?vs ! n)")
    case False
    then have "\<forall>j. n \<le> j \<and> j < length ?vs \<longrightarrow> \<not> p (?vs ! j)" using up by (auto simp: le_less)
    then show ?thesis using False Suc.IH [OF Suc.prems(1)] n by simp
  next
    case True
    have "mset (swap_remove n ?vs) = mset ?vs - {#?vs ! n#}" by (rule mset_swap_remove [OF n])
    then have m: "filter_mset (\<lambda>e. \<not> p e) (mset (swap_remove n ?vs)) = filter_mset (\<lambda>e. \<not> p e) (mset ?vs)"
      using True by (simp add: filter_diff_mset)
    have "yields (erase_at gk hs t n) (\<lambda>(t', it). yields (erase_if_from gk hs p n t') (\<lambda>t'. table_ok gk hs t' \<and>
        mset (m_values t') = filter_mset (\<lambda>e. \<not> p e) (mset ?vs)))"
    proof (rule yields_weaken [OF erase_at_ok [OF Suc.prems(1) n]], clarify)
      fix t' assume t': "table_ok gk hs t'" "m_values t' = swap_remove n ?vs"
      have "yields (erase_if_from gk hs p n t') (\<lambda>t''. table_ok gk hs t'' \<and>
          mset (m_values t'') = filter_mset (\<lambda>e. \<not> p e) (mset (m_values t')))"
        using swap_remove_keeps [of n ?vs p] n up t' by (intro Suc.IH) (auto simp: length_swap_remove)
      then show "yields (erase_if_from gk hs p n t') (\<lambda>t''. table_ok gk hs t'' \<and>
          mset (m_values t'') = filter_mset (\<lambda>e. \<not> p e) (mset ?vs))"
        by (simp add: t' m)
    qed
    then show ?thesis using True by (simp add: case_prod_unfold)
  qed
qed

lemma erase_if_ok:
  assumes "table_ok gk hs t"
  shows "yields (erase_if gk hs p t) (\<lambda>(t', n). table_ok gk hs t' \<and>
    mset (m_values t') = filter_mset (\<lambda>e. \<not> p e) (mset (m_values t)) \<and>
    n = length (filter p (m_values t)))"
proof -
  let ?vs = "m_values t"
  have "length ?vs - length vs' = length (filter p ?vs)"
    if "mset vs' = filter_mset (\<lambda>e. \<not> p e) (mset ?vs)" for vs'
  proof -
    have "mset vs' = mset (filter (\<lambda>e. \<not> p e) ?vs)" using that by simp
    then have "length vs' = length (filter (\<lambda>e. \<not> p e) ?vs)" by (rule mset_eq_length)
    then show ?thesis using sum_length_filter_compl [of p ?vs] by simp
  qed
  moreover have "yields (erase_if_from gk hs p (length ?vs) t) (\<lambda>t'. table_ok gk hs t' \<and>
      mset (m_values t') = filter_mset (\<lambda>e. \<not> p e) (mset ?vs))"
    by (rule erase_if_from_ok [OF assms]) auto
  ultimately show ?thesis by (auto simp: erase_if_def elim!: yields_weaken)
qed

section \<open>Copy and move\<close>

lemma copy_buckets_ok:
  assumes other: "table_ok gk hs other" and t: "m_values t = m_values other" "m_max_load_factor t = default_max_load_factor"
    "m_shifts t = initial_shifts" "m_buckets t = []"
  shows "yields (copy_buckets other t) (\<lambda>t'. table_ok gk hs t' \<and> m_values t' = m_values other)"
proof (cases "m_values other = []")
  case True
  obtain t' where t': "allocate_buckets_from_shift t = Some t'" "frame_ok t'" "m_values t' = []"
    using allocate_ok [of t] t True by (auto simp: initial_shifts_def)
  then have "table_ok gk hs (clear_buckets t')" "m_values (clear_buckets t') = []"
    using holds_cleared [OF t'(2)]
    by (simp_all add: table_ok_iff indexed_def value_entries_def frame_ok_def clear_buckets_def)
  then show ?thesis using t t' True by (simp add: copy_buckets_def)
next
  case False
  let ?t = "t\<lparr>m_shifts := m_shifts other\<rparr>"
  obtain t' where t': "allocate_buckets_from_shift ?t = Some t'" "frame_ok t'" "m_values t' = m_values other"
      "m_shifts t' = m_shifts other"
    using allocate_ok [of ?t] t other by (auto simp: table_ok_def)
  have l: "length (m_buckets t') = length (m_buckets other)" using t' other by (simp add: frame_ok_def table_ok_def)
  have "table_ok gk hs (t'\<lparr>m_buckets := m_buckets other\<rparr>)"
    using t' l other by (simp add: table_ok_iff frame_ok_buckets)
  then show ?thesis using False t t' l by (simp add: copy_buckets_def)
qed

lemma copy_table_ok:
  "table_ok gk hs other \<Longrightarrow> yields (copy_table other) (\<lambda>t'. table_ok gk hs t' \<and> m_values t' = m_values other)"
  unfolding copy_table_def by (rule copy_buckets_ok) (use table_load [of gk hs other] in \<open>simp_all add: raw_table_def\<close>)

lemma copy_assign_ok:
  "table_ok gk hs other \<Longrightarrow> yields (copy_assign t other) (\<lambda>t'. table_ok gk hs t' \<and> m_values t' = m_values other)"
  unfolding copy_assign_def
  by (rule copy_buckets_ok) (use table_load [of gk hs other] in \<open>simp_all add: deallocate_buckets_def\<close>)

lemma move_assign_ok:
  assumes "table_ok gk hs other"
  shows "yields (move_assign t other) (\<lambda>(t', rest). t' = other \<and> table_ok gk hs rest \<and> m_values rest = [])"
proof -
  let ?r = "other\<lparr>m_values := [], m_buckets := [], m_max_bucket_capacity := 0, m_shifts := initial_shifts,
     m_max_load_factor := default_max_load_factor\<rparr>"
  obtain r where r: "allocate_buckets_from_shift ?r = Some r" "frame_ok r" "m_values r = []"
    using allocate_ok [of ?r] by (auto simp: initial_shifts_def)
  then show ?thesis
    using holds_cleared [OF r(2)]
    by (simp add: move_assign_def table_ok_iff indexed_def value_entries_def frame_ok_def clear_buckets_def)
qed

section \<open>Maps\<close>

lemma key_index_map_of:
  assumes "distinct (map fst m)"
  shows "(if key_index fst k m = length m then None else Some (snd (m ! key_index fst k m))) = map_of m k"
proof (cases rule: key_cases [of k fst m])
  case absent
  then have "map_of m k = None" by (simp add: map_of_eq_None_iff)
  with absent show ?thesis by simp
next
  case (present v)
  then have "map_of m k = Some (snd (m ! v))"
    using map_of_is_SomeI [OF assms, of k "snd (m ! v)"] by (metis nth_mem prod.collapse)
  then show ?thesis using present by simp
qed

lemma do_at_ok:
  assumes "table_ok fst hs t"
  shows "do_at hs t k = Some (case map_of (m_values t) k of Some v \<Rightarrow> Inr v | None \<Rightarrow> Inl Key_not_found)"
  using key_index_map_of [OF table_distinct [OF assms], of k] do_find_ok [OF assms, of k]
  by (cases "map_of (m_values t) k") (auto simp: do_at_def split: if_splits)

lemma put_present:
  assumes ok: "table_ok fst hs t" and v: "v < length (m_values t)" "fst (m_values t ! v) = k"
  shows "table_ok fst hs (set_second v x t)" "m_values (set_second v x t) = dm_put k x (m_values t)"
  using set_second_ok [OF ok v(1), of x] set_second_put [OF table_distinct [OF ok] v] v
  by (simp_all add: set_second_def)

lemma insert_or_assign_ok:
  assumes ok: "table_ok fst hs t" and room: "length (m_values t) < max_elements"
  shows "yields (insert_or_assign hs t k v) (\<lambda>(t', r). table_ok fst hs t' \<and> m_values t' = dm_put k v (m_values t) \<and>
    r = Inr (key_index fst k (m_values t), k \<notin> fst ` set (m_values t)))"
proof -
  obtain t' r where e: "do_try_emplace fst hs t k (k, v) = Some (t', r)" "table_ok fst hs t'"
      "m_values t' = (if k \<in> fst ` set (m_values t) then m_values t else m_values t @ [(k, v)])"
      "r = Inr (key_index fst k (m_values t), k \<notin> fst ` set (m_values t))"
    using do_try_emplace_ok [OF ok room, of "(k, v)" k] by (auto simp: yields_iff)
  show ?thesis
  proof (cases rule: key_cases [of k fst "m_values t"])
    case absent
    then show ?thesis using e by (simp add: insert_or_assign_def dm_put_def)
  next
    case (present i)
    then have "m_values t' = m_values t" "r = Inr (i, False)" using e by simp_all
    then show ?thesis
      using e(1,2) present put_present [OF e(2), of i k v] by (simp add: insert_or_assign_def)
  qed
qed

lemma index_assign_ok:
  assumes ok: "table_ok fst hs t" and room: "length (m_values t) < max_elements"
  shows "yields (index_assign d hs t k v) (\<lambda>(t', r). table_ok fst hs t' \<and> m_values t' = dm_put k v (m_values t) \<and>
    r = Inr (key_index fst k (m_values t)))"
proof -
  obtain t' r where e: "do_try_emplace fst hs t k (k, d) = Some (t', r)" "table_ok fst hs t'"
      "m_values t' = (if k \<in> fst ` set (m_values t) then m_values t else m_values t @ [(k, d)])"
      "r = Inr (key_index fst k (m_values t), k \<notin> fst ` set (m_values t))"
    using do_try_emplace_ok [OF ok room, of "(k, d)" k] by (auto simp: yields_iff)
  show ?thesis
  proof (cases rule: key_cases [of k fst "m_values t"])
    case absent
    then have "m_values t' = m_values t @ [(k, d)]" using e by simp
    then show ?thesis
      using e absent set_second_ok [OF e(2), of "length (m_values t)" v]
      by (simp add: index_assign_def set_second_def dm_put_def nth_append)
  next
    case (present i)
    then have "m_values t' = m_values t" "r = Inr (i, False)" using e by simp_all
    then show ?thesis
      using e(1,2) present put_present [OF e(2), of i k v] by (simp add: index_assign_def)
  qed
qed

lemma all_found_ok:
  assumes "table_ok fst hs a"
  shows "all_found hs a es = Some (\<forall>(k, v) \<in> set es. map_of (m_values a) k = Some v)"
proof (induction es)
  case (Cons e es)
  obtain k v where e: "e = (k, v)" by (cases e)
  show ?case
    using Cons key_index_map_of [OF table_distinct [OF assms], of k] do_find_ok [OF assms, of k]
    by (auto simp: e split: if_splits)
qed simp

theorem map_equal_ok:
  assumes a: "table_ok fst hs a" and b: "table_ok fst hs' b"
  shows "map_equal hs a b = Some (map_of (m_values a) = map_of (m_values b))"
proof -
  have d: "distinct (map fst (m_values a))" "distinct (map fst (m_values b))" using table_distinct [OF a] table_distinct [OF b] .
  have c: "card (dom (map_of vs)) = length vs" if "distinct (map fst vs)" for vs :: "('a \<times> 'b) list"
    using distinct_card [OF that] by (simp add: dom_map_of_conv_image_fst)
  have sub: "map_of (m_values b) \<subseteq>\<^sub>m map_of (m_values a)"
    if "\<forall>(k, v) \<in> set (m_values b). map_of (m_values a) k = Some v"
    using that d(2) by (auto simp: map_le_def dom_def split: prod.splits)
  show ?thesis
  proof (cases "length (m_values a) = length (m_values b)")
    case False
    then show ?thesis using c [OF d(1)] c [OF d(2)] by (auto simp: map_equal_def)
  next
    case True
    have "(\<forall>(k, v) \<in> set (m_values b). map_of (m_values a) k = Some v) \<longleftrightarrow> map_of (m_values a) = map_of (m_values b)"
    proof
      assume "\<forall>(k, v) \<in> set (m_values b). map_of (m_values a) k = Some v"
      then have le: "map_of (m_values b) \<subseteq>\<^sub>m map_of (m_values a)" by (rule sub)
      moreover have "dom (map_of (m_values b)) = dom (map_of (m_values a))"
        using c [OF d(1)] c [OF d(2)] True map_le_implies_dom_le [OF le] by (intro card_subset_eq) (simp_all add: finite_dom_map_of)
      ultimately show "map_of (m_values a) = map_of (m_values b)" by (metis map_le_antisym map_le_def)
    qed (use d(2) in \<open>auto split: prod.splits\<close>)
    then show ?thesis using all_found_ok [OF a, of "m_values b"] True by (simp add: map_equal_def)
  qed
qed

section \<open>Replacing a key\<close>

lemma value_entries_set_key:
  assumes "it < length vs"
  shows "mset (value_entries gk H (vs[it := e])) =
    mset (remove1 (it, H (gk (vs ! it))) (value_entries gk H vs) @ [(it, H (gk e))])"
proof -
  define A where "A = {..<length vs} - {it}"
  have fin: "finite A" "it \<notin> A" and ins: "{..<length vs} = insert it A" using assms by (auto simp: A_def)
  have im: "mset (map c [0 ..< m]) = image_mset c (mset_set {..<m})" for c :: "nat \<Rightarrow> entry" and m
    by (simp add: lessThan_atLeast0)
  have all: "mset (value_entries gk H ws) = add_mset (it, H (gk (ws ! it))) (image_mset (\<lambda>i. (i, H (gk (ws ! i)))) (mset_set A))"
    if "length ws = length vs" for ws
    unfolding value_entries_def that im ins using fin by simp
  have "image_mset (\<lambda>i. (i, H (gk (vs[it := e] ! i)))) (mset_set A) = image_mset (\<lambda>i. (i, H (gk (vs ! i)))) (mset_set A)"
    by (intro image_mset_cong) (auto simp: A_def)
  then show ?thesis using all [of "vs[it := e]"] all [of vs] assms by simp
qed

text \<open>\<open>replace_key\<close> leaves every element where it is; only the key of one of them changes.\<close>

lemma replace_key_ok:
  assumes ok: "table_ok gk hs t" and it: "it < length (m_values t)" and sk: "gk (sk k (m_values t ! it)) = k"
  shows "yields (replace_key gk sk hs t it k) (\<lambda>(t', i, replaced). table_ok gk hs t' \<and>
    (if k \<in> gk ` set (m_values t) then t' = t \<and> i = key_index gk k (m_values t) \<and> \<not> replaced
     else m_values t' = (m_values t)[it := sk k (m_values t ! it)] \<and> i = it \<and> replaced))"
proof (cases rule: key_cases [of k gk "m_values t"])
  case (present v)
  then show ?thesis using probe_key_found [OF ok present(1,2), of "[]"] ok it by (auto simp: replace_key_def)
next
  case absent
  let ?vs = "m_values t" and ?bs = "m_buckets t" and ?H = "start_of hs (m_shifts t)"
  let ?es = "value_entries gk ?H ?vs" and ?vs' = "(m_values t)[it := sk k (m_values t ! it)]"
  obtain f h where fh: "?H (gk (?vs ! it)) = (f, h)" by fastforce
  obtain f' h' where fh': "?H k = (f', h')" by fastforce
  note hb = table_holds [OF ok] and st = table_start [OF ok fh] and st' = table_start [OF ok fh']
  have x: "(it, f, h) \<in> set ?es" using fh it by (simp add: in_value_entries)
  have small: "it < 2 ^ 32" using it table_small [OF ok] by simp
  obtain m where m: "sits ?bs (it, f, h) m" "find_slot ?bs (of_nat it) (pos (length ?bs) h 0) = Some (pos (length ?bs) h m)"
    using find_slot_finds [OF hb x small] by auto
  obtain bs where bs: "erase_and_shift_down ?bs (pos (length ?bs) h m) = Some bs" "length bs = length ?bs"
      "holds bs (remove1 (it, f, h) ?es)"
    using remove_bucket [OF hb x m(1)] by (auto simp: yields_iff)
  obtain j where j: "j < length bs" "skip_farther bs (dst f' 0) (pos (length bs) h' 0) = Some (dst f' j, pos (length bs) h' j)"
      "D (slot bs h' j) \<le> 256 * (j + 1) + f'" "\<forall>i < j. 256 * (i + 1) + f' < D (slot bs h' i)"
    using skip_farther_stops [OF bs(3), of h' f'] st' bs(2) by auto
  have fresh: "it \<notin> fst ` set (remove1 (it, f, h) ?es)"
    using hb x remove1_entries(2) [of ?es "(it, f, h)"] by (auto simp: holds_def in_value_entries image_iff fh)
  have len: "length (remove1 (it, f, h) ?es) + 1 < length bs"
    using hb x bs(2) by (simp add: holds_def length_remove1) (use it in linarith)
  obtain bs' where bs': "place_and_shift_up bs \<lparr>m_dist_and_fingerprint = dst f' j, m_value_idx = of_nat it\<rparr> (pos (length bs) h' j) = Some bs'"
      "length bs' = length bs" "holds bs' (remove1 (it, f, h) ?es @ [(it, f', h')])"
    using insert_bucket [OF bs(3) len _ _ fresh small j(1,3)] j(4) st' bs(2) by (auto simp: yields_iff less_imp_le)
  have "holds bs' (value_entries gk ?H ?vs')"
    using holds_mset [OF bs'(3), of "value_entries gk ?H ?vs'"] value_entries_set_key [OF it, of gk ?H] by (simp add: fh fh' sk)
  moreover have "distinct (map gk ?vs')"
    using table_distinct [OF ok] absent(1) by (simp add: map_update sk distinct_list_update image_iff)
  ultimately have ok': "table_ok gk hs (t\<lparr>m_values := ?vs', m_buckets := bs'\<rparr>)"
    using ok bs(2) bs'(2) by (simp add: table_ok_iff indexed_def frame_ok_def)
  obtain df i where pk: "probe_key gk hs t k = Some (Vacant df i)"
    using probe_key_vacant [OF ok absent(1) fh', of "[]"] by auto
  show ?thesis
    using it absent pk st st' m(2) bs(1,2) j(2) bs'(1) ok'
    by (simp add: replace_key_def Let_def next_while_less_def)
qed

section \<open>Replacing the contents\<close>

lemma index_unique_ok:
  assumes "frame_ok t" "v \<le> length (m_values t)" "length (m_values t) \<le> load_cap (m_shifts t)"
    and "indexed gk (start_of hs (m_shifts t)) (take v (m_values t)) (m_buckets t)"
  shows "yields (index_unique gk hs v t) (\<lambda>t'. table_ok gk hs t' \<and> gk ` set (m_values t') = gk ` set (m_values t) \<and>
    mset (m_values t') \<subseteq># mset (m_values t))"
  using assms
proof (induction "length (m_values t) - v" arbitrary: v t)
  case 0
  then have v: "v = length (m_values t)" by simp
  then have ok: "table_ok gk hs t" using 0 by (simp add: table_ok_iff)
  then have "index_unique gk hs v t = Some t"
    using v table_small [OF ok] by (subst index_unique.simps) simp
  then show ?case using ok by simp
next
  case (Suc n)
  let ?vs = "m_values t" and ?bs = "m_buckets t" and ?H = "start_of hs (m_shifts t)"
  have v: "v < length ?vs" using Suc.hyps(2) by simp
  let ?t = "t\<lparr>m_values := take v ?vs\<rparr>" and ?k = "gk (m_values t ! v)"
  have ok: "table_ok gk hs ?t" using Suc.prems by (simp add: table_ok_iff frame_ok_values)
  have t: "?t\<lparr>m_values := m_values ?t @ drop v ?vs\<rparr> = t" by simp
  have lt: "length ?vs < length ?bs" using Suc.prems(1,3) load_cap_less [of "m_shifts t"] by (simp add: frame_ok_def)
  have "length ?bs \<le> 2 ^ 23" using holds_size [OF table_holds [OF ok]] by simp
  then have small: "length ?vs < 2 ^ 32" using lt by simp
  then have nv: "v \<noteq> length ?vs mod 2 ^ 32" using v by simp
  show ?case
  proof (cases rule: key_cases [of ?k gk "take v ?vs"])
    case (present w)
    obtain i where p: "probe_key gk hs t ?k = Some (Found i)"
      using probe_key_found [OF ok, of w ?k "drop v ?vs"] present t by auto
    define t' where "t' = t\<lparr>m_values := swap_remove v ?vs\<rparr>"
    have u: "index_unique gk hs v t = index_unique gk hs v t'"
      using nv p v by (subst index_unique.simps) (auto simp: t'_def swap_remove_def butlast_list_update)
    have tk: "take v (swap_remove v ?vs) = take v ?vs"
      using v by (intro nth_equalityI) (auto simp: length_swap_remove nth_swap_remove)
    have "yields (index_unique gk hs v t') (\<lambda>t''. table_ok gk hs t'' \<and> gk ` set (m_values t'') = gk ` set (m_values t') \<and>
        mset (m_values t'') \<subseteq># mset (m_values t'))"
      using Suc.hyps(2) Suc.prems v by (intro Suc.hyps(1)) (auto simp: t'_def length_swap_remove tk frame_ok_values)
    moreover have ms: "mset (swap_remove v ?vs) = mset ?vs - {#?vs ! v#}" by (rule mset_swap_remove [OF v])
    moreover have "gk ` set (swap_remove v ?vs) = gk ` set ?vs"
    proof -
      have "add_mset (?vs ! v) (mset (swap_remove v ?vs)) = mset ?vs" using ms v by simp
      then have "set ?vs = insert (?vs ! v) (set (swap_remove v ?vs))" by (metis set_mset_add_mset_insert set_mset_mset)
      moreover have "?k \<in> gk ` set (swap_remove v ?vs)"
        using present(3) tk by (metis image_mono set_take_subset subsetD)
      ultimately show ?thesis by auto
    qed
    ultimately show ?thesis
      unfolding u by (elim yields_weaken) (auto simp: t'_def intro: subset_mset.order_trans)
  next
    case absent
    obtain f h where fh: "?H ?k = (f, h)" by fastforce
    have fh': "start_of hs (m_shifts ?t) ?k = (f, h)" using fh by simp
    obtain m where m: "m < length ?bs" "probe_key gk hs t ?k = Some (Vacant (dst f m) (pos (length ?bs) h m))"
        "D (slot ?bs h m) < 256 * (m + 1) + f" "\<And>i. i < m \<Longrightarrow> 256 * (i + 1) + f \<le> D (slot ?bs h i)"
      using probe_key_vacant [OF ok _ fh', of "drop v ?vs"] absent(1) t by auto
    have es: "value_entries gk ?H (take (Suc v) ?vs) = value_entries gk ?H (take v ?vs) @ [(v, f, h)]"
      using v fh by (simp add: take_Suc_conv_app_nth value_entries_snoc)
    obtain bs where bs: "place_and_shift_up ?bs \<lparr>m_dist_and_fingerprint = dst f m, m_value_idx = of_nat v\<rparr> (pos (length ?bs) h m) = Some bs"
        "length bs = length ?bs" "holds bs (value_entries gk ?H (take v ?vs) @ [(v, f, h)])"
      using insert_bucket [OF table_holds [OF ok], of f h v m] m v lt small table_start [OF ok fh']
      by (auto simp: yields_iff value_entries_fst)
    define t' where "t' = t\<lparr>m_buckets := bs\<rparr>"
    have u: "index_unique gk hs v t = index_unique gk hs (Suc v) t'"
      using nv m(2) bs(1) by (subst index_unique.simps) (simp add: t'_def)
    have "distinct (map gk (take (Suc v) ?vs))"
      using absent(1) Suc.prems(4) v by (simp add: take_Suc_conv_app_nth indexed_def)
    then have "yields (index_unique gk hs (Suc v) t') (\<lambda>t''. table_ok gk hs t'' \<and> gk ` set (m_values t'') = gk ` set (m_values t') \<and>
        mset (m_values t'') \<subseteq># mset (m_values t'))"
      using Suc.hyps(2) Suc.prems v bs es by (intro Suc.hyps(1)) (auto simp: t'_def indexed_def frame_ok_buckets)
    then show ?thesis unfolding u by (simp add: t'_def)
  qed
qed

lemma replace_ok:
  assumes ok: "table_ok gk hs t" and small: "length vs \<le> max_elements"
  shows "yields (replace gk hs vs t) (\<lambda>(t', r). table_ok gk hs t' \<and> r = None \<and> gk ` set (m_values t') = gk ` set vs \<and>
    mset (m_values t') \<subseteq># mset vs)"
proof -
  define s where "s = calc_shifts_for_size (m_max_load_factor t) (length vs)"
  have ml: "m_max_load_factor t = default_max_load_factor" and fr: "frame_ok t"
    using table_load [OF ok] ok by (simp_all add: table_ok_iff)
  have s: "41 \<le> s" "s \<le> 62" "length vs \<le> load_cap s" using calc_shifts_ok [OF small] by (simp_all add: s_def ml)
  have "\<exists>t'. (if m_buckets t = [] \<or> s < m_shifts t
      then allocate_buckets_from_shift (deallocate_buckets (t\<lparr>m_shifts := s\<rparr>)) else Some t) = Some t' \<and>
      frame_ok t' \<and> length vs \<le> load_cap (m_shifts t')"
  proof (cases "m_buckets t = [] \<or> s < m_shifts t")
    case True
    then show ?thesis using allocate_ok [of "deallocate_buckets (t\<lparr>m_shifts := s\<rparr>)"] s ml by (auto simp: deallocate_buckets_def)
  next
    case False
    then have "load_cap s \<le> load_cap (m_shifts t)"
      unfolding load_cap_def by (intro div_le_mono mult_le_mono1 power_increasing) auto
    then show ?thesis using False fr s(3) by auto
  qed
  then obtain t' where t': "(if m_buckets t = [] \<or> s < m_shifts t
      then allocate_buckets_from_shift (deallocate_buckets (t\<lparr>m_shifts := s\<rparr>)) else Some t) = Some t'"
      "frame_ok t'" "length vs \<le> load_cap (m_shifts t')" by auto
  let ?t = "(clear_buckets t')\<lparr>m_values := vs\<rparr>"
  have "yields (index_unique gk hs 0 ?t) (\<lambda>t''. table_ok gk hs t'' \<and> gk ` set (m_values t'') = gk ` set (m_values ?t) \<and>
      mset (m_values t'') \<subseteq># mset (m_values ?t))"
    using t' holds_cleared [OF t'(2)]
    by (intro index_unique_ok) (auto simp: frame_ok_def clear_buckets_def indexed_def value_entries_def)
  moreover have "length vs \<le> max_size" using small by (simp add: max_elements_value max_size_def)
  ultimately show ?thesis
    using t'(1) unfolding replace_def s_def [symmetric] Let_def by (auto elim!: yields_weaken)
qed

end
