(* ===== verification/HashTableSpec.thy ===== *)
theory HashTableSpec
  imports HashTableApi
begin

text \<open>
  What the rest of the program relies on: \<open>a_hashmap\<close> and \<open>a_hashset\<close> are the lists of \<open>Prelude\<close>. The locale
  states the contract of a container that keeps its elements in a list, and derives from it that any
  sequence of operations runs as it does on the list; the robin hood table provides it as a map and as a
  set, whatever the hash function. The step relation adds the operations that only reorganise a table.
\<close>

section \<open>The contract\<close>

definition add_new :: "('e \<Rightarrow> 'k) \<Rightarrow> 'e \<Rightarrow> 'e list \<Rightarrow> 'e list" where
  "add_new gk e vs = (if gk e \<in> gk ` set vs then vs else vs @ [e])"

definition remove_key :: "('e \<Rightarrow> 'k) \<Rightarrow> 'k \<Rightarrow> 'e list \<Rightarrow> 'e list" where
  "remove_key gk k vs = (case find_index (\<lambda>e. gk e = k) vs of None \<Rightarrow> vs | Some i \<Rightarrow> swap_remove i vs)"

lemma add_new_map: "add_new fst (k, v) m = dm_emplace k v m"
  by (simp add: add_new_def dm_emplace_def map_of_eq_None_iff)

lemma add_new_set: "add_new (\<lambda>x. x) k s = ds_insert k s"
  by (simp add: add_new_def ds_insert_def)

lemma remove_key_map: "remove_key fst k m = dm_erase k m"
  by (simp add: remove_key_def dm_erase_def)

lemma remove_key_set: "remove_key (\<lambda>x. x) k s = ds_erase k s"
  by (simp add: remove_key_def ds_erase_def)

datatype ('e, 'k) set_call = Insert_element 'e | Remove_key 'k

datatype ('k, 'v) map_call = Assign 'k 'v | Insert_pair 'k 'v | Remove 'k

definition list_set_call :: "('e \<Rightarrow> 'k) \<Rightarrow> 'e list \<Rightarrow> ('e, 'k) set_call \<Rightarrow> 'e list" where
  "list_set_call gk vs c = (case c of Insert_element e \<Rightarrow> add_new gk e vs | Remove_key k \<Rightarrow> remove_key gk k vs)"

definition list_map_call :: "('k \<times> 'v) list \<Rightarrow> ('k, 'v) map_call \<Rightarrow> ('k \<times> 'v) list" where
  "list_map_call m c = (case c of Assign k v \<Rightarrow> dm_put k v m | Insert_pair k v \<Rightarrow> dm_emplace k v m | Remove k \<Rightarrow> dm_erase k m)"

fun run_with :: "('c \<Rightarrow> 't \<Rightarrow> 't option) \<Rightarrow> 'c list \<Rightarrow> 't \<Rightarrow> 't option" where
  "run_with call [] t = Some t"
| "run_with call (c # cs) t = Option.bind (call c t) (run_with call cs)"

lemma run_with_refines:
  assumes step: "\<And>c t. ok t \<Longrightarrow> length (vals t) < limit \<Longrightarrow> yields (call c t) (\<lambda>t'. ok t' \<and> vals t' = on_list (vals t) c)"
    and grow: "\<And>vs c. length (on_list vs c) \<le> Suc (length vs)"
    and "ok t" "length (vals t) + length cs \<le> limit"
  shows "yields (run_with call cs t) (\<lambda>t'. ok t' \<and> vals t' = foldl on_list (vals t) cs)"
  using assms(3,4)
proof (induction cs arbitrary: t)
  case (Cons c cs)
  have "yields (call c t) (\<lambda>t'. yields (run_with call cs t') (\<lambda>t''. ok t'' \<and>
      vals t'' = foldl on_list (on_list (vals t) c) cs))"
  proof (rule yields_weaken [OF step])
    fix t' assume t': "ok t' \<and> vals t' = on_list (vals t) c"
    then have "length (vals t') + length cs \<le> limit"
      using grow [of "vals t" c] Cons.prems(2) by simp
    then show "yields (run_with call cs t') (\<lambda>t''. ok t'' \<and> vals t'' = foldl on_list (on_list (vals t) c) cs)"
      using Cons.IH [of t'] t' by simp
  qed (use Cons.prems in auto)
  then show ?case by simp
qed simp

lemma length_add_new: "length (add_new gk e vs) \<le> Suc (length vs)"
  by (simp add: add_new_def)

lemma length_remove_key: "length (remove_key gk k vs) \<le> Suc (length vs)"
  by (auto simp: remove_key_def length_swap_remove le_diff_conv split: option.split)

lemma length_list_set_call: "length (list_set_call gk vs c) \<le> Suc (length vs)"
  by (cases c) (simp_all add: list_set_call_def length_add_new length_remove_key)

lemma length_list_map_call: "length (list_map_call m c) \<le> Suc (length m)"
  by (cases c) (simp_all add: list_map_call_def length_dm_put length_add_new length_remove_key
    flip: add_new_map remove_key_map)

locale dense_table =
  fixes gk :: "'e \<Rightarrow> 'k"
    and values_of :: "'t \<Rightarrow> 'e list"
    and ok :: "'t \<Rightarrow> bool"
    and insert_op :: "'t \<Rightarrow> 'e \<Rightarrow> 't option"
    and erase_op :: "'t \<Rightarrow> 'k \<Rightarrow> 't option"
    and find_op :: "'t \<Rightarrow> 'k \<Rightarrow> nat option"
    and limit :: nat
  assumes insert_law: "ok t \<Longrightarrow> length (values_of t) < limit \<Longrightarrow>
      yields (insert_op t e) (\<lambda>t'. ok t' \<and> values_of t' = add_new gk e (values_of t))"
    and erase_law: "ok t \<Longrightarrow> yields (erase_op t k) (\<lambda>t'. ok t' \<and> values_of t' = remove_key gk k (values_of t))"
    and find_law: "ok t \<Longrightarrow> find_op t k = Some (key_index gk k (values_of t))"
    and distinct_law: "ok t \<Longrightarrow> distinct (map gk (values_of t))"
begin

definition set_call :: "('e, 'k) set_call \<Rightarrow> 't \<Rightarrow> 't option" where
  "set_call c t = (case c of Insert_element e \<Rightarrow> insert_op t e | Remove_key k \<Rightarrow> erase_op t k)"

lemma set_call_refines:
  "ok t \<Longrightarrow> length (values_of t) < limit \<Longrightarrow>
   yields (set_call c t) (\<lambda>t'. ok t' \<and> values_of t' = list_set_call gk (values_of t) c)"
  using insert_law erase_law by (cases c) (simp_all add: set_call_def list_set_call_def)

lemma set_calls_refine:
  "ok t \<Longrightarrow> length (values_of t) + length cs \<le> limit \<Longrightarrow>
   yields (run_with set_call cs t) (\<lambda>t'. ok t' \<and> values_of t' = foldl (list_set_call gk) (values_of t) cs)"
  using run_with_refines [of ok values_of limit set_call "list_set_call gk"] set_call_refines length_list_set_call by blast

lemma found_iff: "ok t \<Longrightarrow> find_op t k = Some (length (values_of t)) \<longleftrightarrow> k \<notin> gk ` set (values_of t)"
  using find_law [of t k] by (cases rule: key_cases [of k gk "values_of t"]) auto

end

text \<open>A map also assigns.\<close>

locale dense_map = dense_table fst values_of ok insert_op erase_op find_op limit
  for values_of :: "'t \<Rightarrow> ('k \<times> 'v) list" and ok insert_op erase_op find_op limit +
  fixes assign_op :: "'t \<Rightarrow> 'k \<Rightarrow> 'v \<Rightarrow> 't option"
  assumes assign_law: "ok t \<Longrightarrow> length (values_of t) < limit \<Longrightarrow>
      yields (assign_op t k v) (\<lambda>t'. ok t' \<and> values_of t' = dm_put k v (values_of t))"
begin

definition map_call :: "('k, 'v) map_call \<Rightarrow> 't \<Rightarrow> 't option" where
  "map_call c t = (case c of Assign k v \<Rightarrow> assign_op t k v | Insert_pair k v \<Rightarrow> insert_op t (k, v) | Remove k \<Rightarrow> erase_op t k)"

lemma map_call_refines:
  "ok t \<Longrightarrow> length (values_of t) < limit \<Longrightarrow>
   yields (map_call c t) (\<lambda>t'. ok t' \<and> values_of t' = list_map_call (values_of t) c)"
  using insert_law erase_law assign_law
  by (cases c) (simp_all add: map_call_def list_map_call_def flip: add_new_map remove_key_map)

lemma map_calls_refine:
  "ok t \<Longrightarrow> length (values_of t) + length cs \<le> limit \<Longrightarrow>
   yields (run_with map_call cs t) (\<lambda>t'. ok t' \<and> values_of t' = foldl list_map_call (values_of t) cs)"
  using run_with_refines [of ok values_of limit map_call list_map_call] map_call_refines length_list_map_call by blast

lemma assign_then_find:
  assumes "ok t" "length (values_of t) < limit"
  shows "yields (assign_op t k v) (\<lambda>t'. map_of (values_of t') = (map_of (values_of t))(k \<mapsto> v) \<and>
    yields (find_op t' k) (\<lambda>i. i < length (values_of t') \<and> values_of t' ! i = (k, v)))"
proof (rule yields_weaken [OF assign_law [OF assms]], elim conjE, intro conjI)
  fix t' assume t': "ok t'" "values_of t' = dm_put k v (values_of t)"
  then show m: "map_of (values_of t') = (map_of (values_of t))(k \<mapsto> v)" by simp
  have "map_of (values_of t') k = Some v" by (simp add: m)
  then have "(k, v) \<in> set (values_of t')" by (rule map_of_SomeD)
  then have "k \<in> fst ` set (values_of t')" by force
  then obtain i where i: "i < length (values_of t')" "fst (values_of t' ! i) = k" "key_index fst k (values_of t') = i"
    by (cases rule: key_cases [of k fst "values_of t'"]) auto
  have "map_of (values_of t') k = Some (snd (values_of t' ! i))"
    using key_index_map_of [OF distinct_law [OF t'(1)], of k] i by simp
  then have "values_of t' ! i = (k, v)" using i m by (simp add: prod_eq_iff)
  then show "yields (find_op t' k) (\<lambda>i. i < length (values_of t') \<and> values_of t' ! i = (k, v))"
    using find_law [OF t'(1), of k] i by simp
qed

end

section \<open>The table provides it\<close>

definition table_insert :: "('e \<Rightarrow> 'k) \<Rightarrow> ('k \<Rightarrow> 64 word) \<Rightarrow> 'e table \<Rightarrow> 'e \<Rightarrow> 'e table option" where
  "table_insert gk hs t e = map_option fst (emplace gk hs t e)"

definition table_erase :: "('e \<Rightarrow> 'k) \<Rightarrow> ('k \<Rightarrow> 64 word) \<Rightarrow> 'e table \<Rightarrow> 'k \<Rightarrow> 'e table option" where
  "table_erase gk hs t k = map_option fst (erase_key gk hs t k)"

definition map_assign :: "'v \<Rightarrow> ('k \<Rightarrow> 64 word) \<Rightarrow> ('k \<times> 'v) table \<Rightarrow> 'k \<Rightarrow> 'v \<Rightarrow> ('k \<times> 'v) table option" where
  "map_assign d hs t k v = map_option fst (index_assign d hs t k v)"

lemma table_insert_ok:
  assumes "table_ok gk hs t" "length (m_values t) < max_elements"
  shows "yields (table_insert gk hs t e) (\<lambda>t'. table_ok gk hs t' \<and> m_values t' = add_new gk e (m_values t))"
  using emplace_ok [OF assms, of e] by (auto simp: table_insert_def add_new_def elim!: yields_weaken)

lemma table_erase_ok:
  assumes "table_ok gk hs t"
  shows "yields (table_erase gk hs t k) (\<lambda>t'. table_ok gk hs t' \<and> m_values t' = remove_key gk k (m_values t))"
  using do_erase_key_ok [OF assms, of k]
  by (auto simp: table_erase_def erase_key_def remove_key_def case_prod_unfold split: option.splits elim!: yields_weaken)

lemma map_assign_ok:
  assumes "table_ok fst hs t" "length (m_values t) < max_elements"
  shows "yields (map_assign d hs t k v) (\<lambda>t'. table_ok fst hs t' \<and> m_values t' = dm_put k v (m_values t))"
  using index_assign_ok [OF assms, of d k v] by (auto simp: map_assign_def elim!: yields_weaken)

interpretation hash_map: dense_map m_values "table_ok fst hs" "table_insert fst hs" "table_erase fst hs"
    "do_find fst hs" max_elements "map_assign d hs"
  for hs :: "'k \<Rightarrow> 64 word" and d :: 'v
  by unfold_locales (assumption | rule table_insert_ok table_erase_ok do_find_ok map_assign_ok table_distinct)+

interpretation hash_set: dense_table "\<lambda>x. x" m_values "table_ok (\<lambda>x. x) hs" "table_insert (\<lambda>x. x) hs"
    "table_erase (\<lambda>x. x) hs" "do_find (\<lambda>x. x) hs" max_elements
  for hs :: "'k \<Rightarrow> 64 word"
  by unfold_locales (assumption | rule table_insert_ok table_erase_ok do_find_ok table_distinct)+

text \<open>Programs over a map and a set: a new container, and calls on it one after another.\<close>

definition run_map :: "'v \<Rightarrow> ('k \<Rightarrow> 64 word) \<Rightarrow> ('k, 'v) map_call list \<Rightarrow> ('k \<times> 'v) table option" where
  "run_map d hs cs = Option.bind (new_table fst hs 0) (run_with (\<lambda>c t. case c of
     Assign k v \<Rightarrow> map_assign d hs t k v
   | Insert_pair k v \<Rightarrow> table_insert fst hs t (k, v)
   | Remove k \<Rightarrow> table_erase fst hs t k) cs)"

definition run_set :: "('k \<Rightarrow> 64 word) \<Rightarrow> ('k, 'k) set_call list \<Rightarrow> 'k table option" where
  "run_set hs cs = Option.bind (new_table (\<lambda>x. x) hs 0) (run_with (\<lambda>c t. case c of
     Insert_element k \<Rightarrow> table_insert (\<lambda>x. x) hs t k
   | Remove_key k \<Rightarrow> table_erase (\<lambda>x. x) hs t k) cs)"

lemma run_map_ok:
  fixes d :: 'v and hs :: "'k \<Rightarrow> 64 word"
  assumes "length cs \<le> max_elements"
  shows "yields (run_map d hs cs) (\<lambda>t. table_ok fst hs t \<and> m_values t = foldl list_map_call [] cs)"
proof -
  have "yields (new_table fst hs 0) (\<lambda>t. yields (run_with (hash_map.map_call hs d) cs t)
      (\<lambda>t'. table_ok fst hs t' \<and> m_values t' = foldl list_map_call [] cs))"
  proof (rule yields_weaken [OF new_table_ok])
    fix t :: "('k \<times> 'v) table" assume "table_ok fst hs t \<and> m_values t = []"
    then show "yields (run_with (hash_map.map_call hs d) cs t)
        (\<lambda>t'. table_ok fst hs t' \<and> m_values t' = foldl list_map_call [] cs)"
      using hash_map.map_calls_refine [of hs t cs d] assms by simp
  qed
  then show ?thesis by (simp add: run_map_def hash_map.map_call_def [abs_def])
qed

lemma run_set_ok:
  fixes hs :: "'k \<Rightarrow> 64 word"
  assumes "length cs \<le> max_elements"
  shows "yields (run_set hs cs) (\<lambda>t. table_ok (\<lambda>x. x) hs t \<and> m_values t = foldl (list_set_call (\<lambda>x. x)) [] cs)"
proof -
  have "yields (new_table (\<lambda>x. x) hs 0) (\<lambda>t. yields (run_with (hash_set.set_call hs) cs t)
      (\<lambda>t'. table_ok (\<lambda>x. x) hs t' \<and> m_values t' = foldl (list_set_call (\<lambda>x. x)) [] cs))"
  proof (rule yields_weaken [OF new_table_ok])
    fix t :: "'k table" assume "table_ok (\<lambda>x. x) hs t \<and> m_values t = []"
    then show "yields (run_with (hash_set.set_call hs) cs t)
        (\<lambda>t'. table_ok (\<lambda>x. x) hs t' \<and> m_values t' = foldl (list_set_call (\<lambda>x. x)) [] cs)"
      using hash_set.set_calls_refine [of hs t cs] assms by simp
  qed
  then show ?thesis by (simp add: run_set_def hash_set.set_call_def [abs_def])
qed

section \<open>Every reachable table\<close>

text \<open>One call of any modifying operation of a map, with as many elements as the distances allow. \<open>d\<close> is the
  default of the mapped type.\<close>

inductive map_step :: "'v \<Rightarrow> ('k \<Rightarrow> 64 word) \<Rightarrow> ('k \<times> 'v) table \<Rightarrow> ('k \<times> 'v) table \<Rightarrow> bool" for d hs where
  step_emplace: "length (m_values t) < max_elements \<Longrightarrow> emplace fst hs t e = Some (t', r) \<Longrightarrow> map_step d hs t t'"
| step_try_emplace: "length (m_values t) < max_elements \<Longrightarrow> do_try_emplace fst hs t k (k, v) = Some (t', r) \<Longrightarrow>
    map_step d hs t t'"
| step_insert_or_assign: "length (m_values t) < max_elements \<Longrightarrow> insert_or_assign hs t k v = Some (t', r) \<Longrightarrow>
    map_step d hs t t'"
| step_index: "length (m_values t) < max_elements \<Longrightarrow> index_assign d hs t k v = Some (t', r') \<Longrightarrow> map_step d hs t t'"
| step_erase_key: "erase_key fst hs t k = Some (t', n) \<Longrightarrow> map_step d hs t t'"
| step_erase_at: "it < length (m_values t) \<Longrightarrow> erase_at fst hs t it = Some (t', n) \<Longrightarrow> map_step d hs t t'"
| step_erase_if: "erase_if fst hs p t = Some (t', n) \<Longrightarrow> map_step d hs t t'"
| step_clear: "map_step d hs t (clear_table t)"
| step_reserve: "n \<le> max_elements \<Longrightarrow> reserve fst hs n t = Some t' \<Longrightarrow> map_step d hs t t'"
| step_rehash: "n \<le> max_elements \<Longrightarrow> rehash fst hs n t = Some t' \<Longrightarrow> map_step d hs t t'"
| step_replace_key: "it < length (m_values t) \<Longrightarrow> replace_key fst (\<lambda>k e. (k, snd e)) hs t it k = Some (t', i, b) \<Longrightarrow>
    map_step d hs t t'"
| step_replace: "length vs \<le> max_elements \<Longrightarrow> replace fst hs vs t = Some (t', x) \<Longrightarrow> map_step d hs t t'"
| step_copy: "copy_table t = Some t' \<Longrightarrow> map_step d hs t t'"
| step_moved_from: "move_assign t1 t = Some (t2, t') \<Longrightarrow> map_step d hs t t'"

inductive reachable_map :: "'v \<Rightarrow> ('k \<Rightarrow> 64 word) \<Rightarrow> ('k \<times> 'v) table \<Rightarrow> bool" for d hs where
  reachable_new: "n \<le> max_elements \<Longrightarrow> new_table fst hs n = Some t \<Longrightarrow> reachable_map d hs t"
| reachable_step: "reachable_map d hs t \<Longrightarrow> map_step d hs t t' \<Longrightarrow> reachable_map d hs t'"

inductive_cases map_stepE: "map_step d hs t t'"

lemma yieldsD: "yields m P \<Longrightarrow> m = Some x \<Longrightarrow> P x"
  by simp

lemma map_step_ok: "map_step d hs t t' \<Longrightarrow> table_ok fst hs t \<Longrightarrow> table_ok fst hs t'"
proof (induction rule: map_step.induct)
  case (step_emplace t e t' r)
  then show ?case using yieldsD [OF emplace_ok [OF step_emplace(3,1)] step_emplace(2)] by simp
next
  case (step_try_emplace t k v t' r)
  show ?case using yieldsD [OF do_try_emplace_ok [OF step_try_emplace(3,1)] step_try_emplace(2)] by simp
next
  case (step_insert_or_assign t k v t' r)
  show ?case using yieldsD [OF insert_or_assign_ok [OF step_insert_or_assign(3,1)] step_insert_or_assign(2)] by simp
next
  case (step_index t k v t' r')
  show ?case using yieldsD [OF index_assign_ok [OF step_index(3,1)] step_index(2)] by simp
next
  case (step_erase_key t k t' n)
  then show ?case using table_erase_ok [of fst hs t k] by (simp add: table_erase_def)
next
  case (step_erase_at it t t' n)
  show ?case using yieldsD [OF erase_at_ok [OF step_erase_at(3,1)] step_erase_at(2)] by simp
next
  case (step_erase_if p t t' n)
  show ?case using yieldsD [OF erase_if_ok [OF step_erase_if(2)] step_erase_if(1)] by simp
next
  case (step_clear t)
  then show ?case by (simp add: clear_table_ok)
next
  case (step_reserve n t t')
  show ?case using yieldsD [OF reserve_ok [OF step_reserve(3,1)] step_reserve(2)] by simp
next
  case (step_rehash n t t')
  show ?case using yieldsD [OF rehash_ok [OF step_rehash(3,1)] step_rehash(2)] by simp
next
  case (step_replace_key it t k t' i b)
  show ?case using yieldsD [OF replace_key_ok [OF step_replace_key(3,1)] step_replace_key(2)] by simp
next
  case (step_replace vs t t' x)
  show ?case using yieldsD [OF replace_ok [OF step_replace(3,1)] step_replace(2)] by simp
next
  case (step_copy t t')
  show ?case using yieldsD [OF copy_table_ok [OF step_copy(2)] step_copy(1)] by simp
next
  case (step_moved_from t1 t t2 t')
  show ?case using yieldsD [OF move_assign_ok [OF step_moved_from(2)] step_moved_from(1)] by simp
qed

lemma reachable_map_ok: "reachable_map d hs t \<Longrightarrow> table_ok fst hs t"
proof (induction rule: reachable_map.induct)
  case (reachable_new n t)
  show ?case using yieldsD [OF new_table_reserved_ok [OF reachable_new(1)] reachable_new(2)] by simp
next
  case (reachable_step t t')
  then show ?case using map_step_ok [of d hs t t'] by simp
qed

section \<open>Properties\<close>

text \<open>C1: Any sequence of at most 6,710,886 calls \<open>m[k] = v\<close>, \<open>insert\<close> and \<open>erase\<close> on a new hash map, whatever
  the hash function, returns without an exception, an access outside a vector or an endless loop; the
  vector of elements is then the one the dense map of \<open>Prelude\<close> has after the same calls, and \<open>at\<close> answers
  from it for every key.\<close>

theorem hash_map_refines_list:
  fixes hs :: "'k \<Rightarrow> 64 word" and d :: 'v
  assumes "length cs \<le> 6710886"
  shows "\<exists>t. run_map d hs cs = Some t \<and> m_values t = foldl list_map_call [] cs \<and>
    (\<forall>k. do_at hs t k = Some (case map_of (foldl list_map_call [] cs) k of Some v \<Rightarrow> Inr v | None \<Rightarrow> Inl Key_not_found))"
proof -
  obtain t where "run_map d hs cs = Some t" "table_ok fst hs t" "m_values t = foldl list_map_call [] cs"
    using run_map_ok [of cs d hs] assms by (auto simp: yields_iff max_elements_value)
  then show ?thesis using do_at_ok [of hs t] by auto
qed

theorem hash_map_refines_list_witness:
  "\<exists>t. run_map ''?'' (\<lambda>k :: nat. 7) [Assign 1 ''a'', Insert_pair 2 ''b'', Insert_pair 1 ''c'', Assign 3 ''d'', Assign 2 ''e'', Remove 1] = Some t \<and>
    m_values t = [(3, ''d''), (2, ''e'')] \<and>
    do_at (\<lambda>k. 7) t 2 = Some (Inr ''e'') \<and> do_at (\<lambda>k. 7) t 1 = Some (Inl Key_not_found)"
proof -
  let ?cs = "[Assign 1 ''a'', Insert_pair 2 ''b'', Insert_pair 1 ''c'', Assign 3 ''d'', Assign 2 ''e'', Remove (1 :: nat)]"
  have l: "foldl list_map_call [] ?cs = [(3, ''d''), (2, ''e'')]"
    by (simp add: list_map_call_def dm_put_def dm_emplace_def dm_erase_def swap_remove_def)
  show ?thesis
    using hash_map_refines_list [of ?cs "''?''" "\<lambda>k. 7"] unfolding l by (force simp del: run_with.simps)
qed

text \<open>C24: Every table that the modifying operations of a map can produce from a new one is well formed: its
  number of buckets is the power of two its shift count says, its capacity is four fifths of it, rounded
  down, and holds its elements, no key is there twice, every bucket in use points to an element and no
  bucket is more than one step farther from its home than the bucket before it.\<close>

theorem reachable_table_well_formed:
  assumes "reachable_map d hs t"
  shows "length (m_buckets t) = 2 ^ (64 - m_shifts t) \<and> 41 \<le> m_shifts t \<and> m_shifts t \<le> 62 \<and>
    m_max_bucket_capacity t = length (m_buckets t) * 13421773 div 2 ^ 24 \<and>
    length (m_values t) \<le> m_max_bucket_capacity t \<and> distinct (map fst (m_values t)) \<and>
    (\<forall>i < length (m_buckets t). m_dist_and_fingerprint (m_buckets t ! i) \<noteq> 0 \<longrightarrow>
       unat (m_value_idx (m_buckets t ! i)) < length (m_values t)) \<and>
    (\<forall>i < length (m_buckets t). unat (m_dist_and_fingerprint (m_buckets t ! (Suc i mod length (m_buckets t)))) div 256 \<le>
       unat (m_dist_and_fingerprint (m_buckets t ! i)) div 256 + 1)"
proof -
  have ok: "table_ok fst hs t" by (rule reachable_map_ok [OF assms])
  then have ix: "indexed fst (start_of hs (m_shifts t)) (m_values t) (m_buckets t)" by (simp add: table_ok_def)
  have "unat (m_value_idx (m_buckets t ! i)) < length (m_values t)"
    if "i < length (m_buckets t)" "m_dist_and_fingerprint (m_buckets t ! i) \<noteq> 0" for i
    using indexed_slot [OF ix that(1)] that(2) by (simp add: unat_eq_0)
  moreover have "D (m_buckets t ! (Suc i mod length (m_buckets t))) div 256 \<le> D (m_buckets t ! i) div 256 + 1"
    if "i < length (m_buckets t)" for i
  proof -
    have "D (m_buckets t ! (Suc i mod length (m_buckets t))) \<le> max 511 (D (m_buckets t ! i) + 256)"
      using smooth_next [OF holds_smooth [OF table_holds [OF ok]] that] by (simp add: nx_def)
    then have "D (m_buckets t ! (Suc i mod length (m_buckets t))) div 256 \<le> max 511 (D (m_buckets t ! i) + 256) div 256"
      by (rule div_le_mono)
    also have "\<dots> \<le> D (m_buckets t ! i) div 256 + 1" by (simp add: max_def)
    finally show ?thesis .
  qed
  ultimately show ?thesis using ok table_distinct [OF ok] by (simp add: table_ok_def load_cap_def)
qed

text \<open>On every table that the modifying operations can produce, \<open>find\<close> returns the iterator of the element
  with the key, or the end, and every operation has a result: none reads outside a vector or loops for ever.\<close>

theorem reachable_table_answers:
  assumes "reachable_map d hs t"
  shows "do_find fst hs t k = Some (key_index fst k (m_values t)) \<and>
    (\<exists>t'. erase_key fst hs t k = Some (t', if k \<in> fst ` set (m_values t) then 1 else 0) \<and> m_values t' = dm_erase k (m_values t)) \<and>
    (length (m_values t) < 6710886 \<longrightarrow> (\<exists>t' r. emplace fst hs t (k, v) = Some (t', Inr r) \<and> m_values t' = dm_emplace k v (m_values t))) \<and>
    (\<exists>t' n. erase_if fst hs p t = Some (t', n) \<and> mset (m_values t') = filter_mset (\<lambda>e. \<not> p e) (mset (m_values t)))"
proof -
  have ok: "table_ok fst hs t" by (rule reachable_map_ok [OF assms])
  have e: "yields (erase_key fst hs t k) (\<lambda>(t', n). n = (if k \<in> fst ` set (m_values t) then 1 else 0) \<and> m_values t' = dm_erase k (m_values t))"
    using do_erase_key_ok [OF ok, of k] unfolding erase_key_def dm_erase_def
    by (cases rule: key_cases [of k fst "m_values t"]) (auto elim!: yields_weaken)
  have i: "yields (emplace fst hs t (k, v)) (\<lambda>(t', r). (\<exists>x. r = Inr x) \<and> m_values t' = dm_emplace k v (m_values t))"
    if "length (m_values t) < 6710886"
    using emplace_ok [OF ok, of "(k, v)"] that unfolding add_new_map [symmetric] add_new_def max_elements_value
    by (cases "k \<in> fst ` set (m_values t)") (auto elim!: yields_weaken)
  show ?thesis using do_find_ok [OF ok, of k] e i erase_if_ok [OF ok, of p] by (fastforce simp: yields_iff)
qed

text \<open>A table to run on: two elements, then a rehash.\<close>

lemma sample_reachable: "\<exists>t. reachable_map ''?'' (\<lambda>k :: nat. 7) t \<and> m_values t = [(1, ''a''), (2, ''b'')]"
proof -
  obtain t0 :: "(nat \<times> string) table" where t0: "new_table fst (\<lambda>k. 7) 0 = Some t0" "table_ok fst (\<lambda>k. 7) t0" "m_values t0 = []"
    using new_table_ok [of "fst :: nat \<times> string \<Rightarrow> nat" "\<lambda>k. 7"] by (auto simp: yields_iff)
  obtain t1 r1 where t1: "emplace fst (\<lambda>k. 7) t0 (1, ''a'') = Some (t1, r1)" "table_ok fst (\<lambda>k. 7) t1" "m_values t1 = [(1, ''a'')]"
    using emplace_ok [OF t0(2), of "(1, ''a'')"] by (auto simp: yields_iff t0(3) max_elements_value)
  obtain t2 r2 where t2: "emplace fst (\<lambda>k. 7) t1 (2, ''b'') = Some (t2, r2)" "table_ok fst (\<lambda>k. 7) t2" "m_values t2 = [(1, ''a''), (2, ''b'')]"
    using emplace_ok [OF t1(2), of "(2, ''b'')"] by (auto simp: yields_iff t1(3) max_elements_value)
  obtain t3 where t3: "rehash fst (\<lambda>k. 7) 100 t2 = Some t3" "m_values t3 = [(1, ''a''), (2, ''b'')]"
    using rehash_ok [OF t2(2), of 100] by (auto simp: yields_iff t2(3) max_elements_value)
  have "reachable_map ''?'' (\<lambda>k. 7) t0" using t0(1) by (intro reachable_new [of 0]) (simp_all add: max_elements_value)
  moreover have "map_step ''?'' (\<lambda>k. 7) t0 t1" using t0(3) t1(1) by (intro step_emplace) (simp_all add: max_elements_value)
  moreover have "map_step ''?'' (\<lambda>k. 7) t1 t2" using t1(3) t2(1) by (intro step_emplace) (simp_all add: max_elements_value)
  moreover have "map_step ''?'' (\<lambda>k. 7) t2 t3" using t3(1) by (intro step_rehash [of 100]) (simp_all add: max_elements_value)
  ultimately have "reachable_map ''?'' (\<lambda>k. 7) t3" by (metis reachable_step)
  with t3(2) show ?thesis by blast
qed

theorem reachable_table_well_formed_witness:
  "\<exists>t :: (nat \<times> string) table. m_values t = [(1, ''a''), (2, ''b'')] \<and> length (m_buckets t) = 2 ^ (64 - m_shifts t) \<and>
    length (m_values t) \<le> m_max_bucket_capacity t"
proof -
  obtain t where t: "reachable_map ''?'' (\<lambda>k :: nat. 7) t" "m_values t = [(1, ''a''), (2, ''b'')]"
    using sample_reachable by auto
  show ?thesis using reachable_table_well_formed [OF t(1)] t(2) by blast
qed

theorem reachable_table_answers_witness:
  "\<exists>t. m_values t = [(1 :: nat, ''a''), (2, ''b'')] \<and> do_find fst (\<lambda>k. 7) t 2 = Some 1 \<and>
    do_find fst (\<lambda>k. 7) t 5 = Some 2 \<and> (\<exists>t'. erase_key fst (\<lambda>k. 7) t 1 = Some (t', 1) \<and> m_values t' = [(2, ''b'')])"
proof -
  obtain t where t: "reachable_map ''?'' (\<lambda>k :: nat. 7) t" "m_values t = [(1, ''a''), (2, ''b'')]"
    using sample_reachable by auto
  have "key_index fst 2 (m_values t) = 1" "key_index fst 5 (m_values t) = 2" "dm_erase 1 (m_values t) = [(2, ''b'')]"
    by (simp_all add: t(2) key_index_def dm_erase_def swap_remove_def)
  then show ?thesis
    using t(2) reachable_table_answers [OF t(1), of 2] reachable_table_answers [OF t(1), of 5]
      reachable_table_answers [OF t(1), of 1] by auto
qed

end
