(* ===== verification/SegmentedVector.thy ===== *)
theory SegmentedVector
  imports Prelude "HOL-Library.Word" "HOL-Library.Monad_Syntax"
begin

text \<open>
  The segmented vector of src/src/ankerl/unordered_dense.h, the container the table uses for its elements
  and buckets when it is asked not to move them as it grows. Memory is a list of blocks of equal length;
  a cell of a block is \<open>None\<close> while no object lives in it. An operation is \<open>None\<close> where the code would read
  or write outside a block or use a cell without an object. \<open>nb\<close> is the constant \<open>num_bits\<close> of the class,
  \<open>triv\<close> says whether the destructor of the elements is trivial. Sizes are natural numbers: they count
  elements in memory and stay far below \<open>2 ^ 64\<close>. Allocators compare equal, as \<open>std::allocator\<close> does.
\<close>

unbundle bit_operations_syntax

section \<open>Blocks\<close>

record 'a segmented_vector =
  m_blocks :: "'a option list list"
  m_size :: nat

text \<open>The largest \<open>x\<close> with \<open>s << x <= max_val\<close>; the size of a type is positive.\<close>

function num_bits_from :: "nat \<Rightarrow> nat \<Rightarrow> nat \<Rightarrow> nat" where
  "num_bits_from max_val s f = (if 0 < s \<and> push_bit (f + 1) s \<le> max_val then num_bits_from max_val s (f + 1) else f)"
  by pat_completeness auto
termination
proof (relation "measure (\<lambda>(m, s, f). m - f)")
  fix m s f :: nat
  assume a: "0 < s \<and> push_bit (f + 1) s \<le> m"
  have "f < 2 ^ f" by (rule less_exp)
  also have "(2 :: nat) ^ f \<le> 2 ^ (f + 1)" by simp
  also have "(2 :: nat) ^ (f + 1) \<le> push_bit (f + 1) s" using a by (simp add: push_bit_eq_mult)
  finally show "((m, s, f + 1), m, s, f) \<in> measure (\<lambda>(m, s, f). m - f)" using a by (simp, linarith)
qed simp

definition num_bits_closest :: "nat \<Rightarrow> nat \<Rightarrow> nat" where
  "num_bits_closest max_val s = num_bits_from max_val s 0"

definition num_elements_in_block :: "nat \<Rightarrow> nat" where
  "num_elements_in_block nb = push_bit nb 1"

definition block_mask :: "nat \<Rightarrow> nat" where
  "block_mask nb = num_elements_in_block nb - 1"

definition segmented_vector_new :: "'a segmented_vector" where
  "segmented_vector_new = \<lparr>m_blocks = [], m_size = 0\<rparr>"

definition sv_capacity :: "nat \<Rightarrow> 'a segmented_vector \<Rightarrow> nat" where
  "sv_capacity nb v = length (m_blocks v) * num_elements_in_block nb"

definition calc_num_blocks_for_capacity :: "nat \<Rightarrow> nat \<Rightarrow> nat" where
  "calc_num_blocks_for_capacity nb capacity = (capacity + num_elements_in_block nb - 1) div num_elements_in_block nb"

text \<open>\<open>m_blocks[i >> num_bits][i & mask]\<close> as a place, read and written.\<close>

definition in_blocks :: "nat \<Rightarrow> 'a segmented_vector \<Rightarrow> nat \<Rightarrow> bool" where
  "in_blocks nb v i \<longleftrightarrow> drop_bit nb i < length (m_blocks v) \<and> (i AND block_mask nb) < length (m_blocks v ! drop_bit nb i)"

definition sv_at :: "nat \<Rightarrow> 'a segmented_vector \<Rightarrow> nat \<Rightarrow> 'a option" where
  "sv_at nb v i = (if in_blocks nb v i then m_blocks v ! drop_bit nb i ! (i AND block_mask nb) else None)"

definition put_cell :: "nat \<Rightarrow> nat \<Rightarrow> 'a option \<Rightarrow> 'a segmented_vector \<Rightarrow> 'a segmented_vector option" where
  "put_cell nb i c v = (if in_blocks nb v i
     then Some (v\<lparr>m_blocks := (m_blocks v)[drop_bit nb i := (m_blocks v ! drop_bit nb i)[i AND block_mask nb := c]]\<rparr>)
     else None)"

definition increase_capacity :: "nat \<Rightarrow> 'a segmented_vector \<Rightarrow> 'a segmented_vector" where
  "increase_capacity nb v = v\<lparr>m_blocks := m_blocks v @ [replicate (num_elements_in_block nb) None]\<rparr>"

lemma num_elements_pos [simp]: "0 < num_elements_in_block nb" "num_elements_in_block nb = 2 ^ nb"
  by (simp_all add: num_elements_in_block_def)

lemma capacity_increase [simp]: "sv_capacity nb (increase_capacity nb v) = sv_capacity nb v + num_elements_in_block nb"
  by (simp add: sv_capacity_def increase_capacity_def)

section \<open>Operations\<close>

function sv_reserve :: "nat \<Rightarrow> nat \<Rightarrow> 'a segmented_vector \<Rightarrow> 'a segmented_vector" where
  "sv_reserve nb new_capacity v =
     (if new_capacity > sv_capacity nb v then sv_reserve nb new_capacity (increase_capacity nb v) else v)"
  by pat_completeness auto
termination
  by (relation "measure (\<lambda>(nb, c, v). c - sv_capacity nb v)") (auto intro: diff_less_mono2 simp del: num_elements_pos(2))

text \<open>The destructors of the elements from one index to another.\<close>

function destroy_range :: "nat \<Rightarrow> nat \<Rightarrow> nat \<Rightarrow> 'a segmented_vector \<Rightarrow> 'a segmented_vector option" where
  "destroy_range nb ix last_ix v =
     (if ix < last_ix then do {
        _ \<leftarrow> sv_at nb v ix;
        v \<leftarrow> put_cell nb ix None v;
        destroy_range nb (ix + 1) last_ix v
      } else Some v)"
  by pat_completeness auto
termination
  by (relation "measure (\<lambda>(nb, ix, last_ix, v). last_ix - ix)") auto

declare num_bits_from.simps [simp del] sv_reserve.simps [simp del] destroy_range.simps [simp del]

definition resize_shrink :: "bool \<Rightarrow> nat \<Rightarrow> nat \<Rightarrow> 'a segmented_vector \<Rightarrow> 'a segmented_vector option" where
  "resize_shrink triv nb new_size v = do {
     v \<leftarrow> (if triv then Some v else destroy_range nb new_size (m_size v) v);
     Some (v\<lparr>m_size := new_size\<rparr>)
   }"

definition sv_clear :: "bool \<Rightarrow> nat \<Rightarrow> 'a segmented_vector \<Rightarrow> 'a segmented_vector option" where
  "sv_clear triv nb v = do {
     v \<leftarrow> (if triv then Some v else destroy_range nb 0 (m_size v) v);
     Some (v\<lparr>m_size := 0\<rparr>)
   }"

definition emplace_back :: "nat \<Rightarrow> 'a \<Rightarrow> 'a segmented_vector \<Rightarrow> 'a segmented_vector option" where
  "emplace_back nb x v =
     (let v = (if m_size v = sv_capacity nb v then increase_capacity nb v else v) in do {
        v \<leftarrow> put_cell nb (m_size v) (Some x) v;
        Some (v\<lparr>m_size := m_size v + 1\<rparr>)
      })"

text \<open>\<open>back\<close>; on an empty vector the index wraps, far outside the blocks.\<close>

definition sv_back :: "nat \<Rightarrow> 'a segmented_vector \<Rightarrow> 'a option" where
  "sv_back nb v = (if m_size v = 0 then None else sv_at nb v (m_size v - 1))"

definition pop_back :: "nat \<Rightarrow> 'a segmented_vector \<Rightarrow> 'a segmented_vector option" where
  "pop_back nb v = do {
     _ \<leftarrow> sv_back nb v;
     v \<leftarrow> put_cell nb (m_size v - 1) None v;
     Some (v\<lparr>m_size := m_size v - 1\<rparr>)
   }"

fun emplace_times :: "nat \<Rightarrow> nat \<Rightarrow> 'a \<Rightarrow> 'a segmented_vector \<Rightarrow> 'a segmented_vector option" where
  "emplace_times nb 0 x v = Some v"
| "emplace_times nb (Suc k) x v = Option.bind (emplace_back nb x v) (emplace_times nb k x)"

definition sv_resize :: "bool \<Rightarrow> nat \<Rightarrow> nat \<Rightarrow> 'a \<Rightarrow> 'a segmented_vector \<Rightarrow> 'a segmented_vector option" where
  "sv_resize triv nb new_size x v =
     (if new_size < m_size v then resize_shrink triv nb new_size v
      else if new_size > m_size v then
        (let new_elems = new_size - m_size v in emplace_times nb new_elems x (sv_reserve nb new_size v))
      else Some v)"

fun append_each :: "nat \<Rightarrow> 'a segmented_vector \<Rightarrow> nat list \<Rightarrow> 'a segmented_vector \<Rightarrow> 'a segmented_vector option" where
  "append_each nb other [] v = Some v"
| "append_each nb other (i # is) v = do {
     x \<leftarrow> sv_at nb other i;
     v \<leftarrow> emplace_back nb x v;
     append_each nb other is v
   }"

text \<open>The iterators of the range-based loop run from index 0 to \<open>m_size\<close>.\<close>

definition append_everything_from :: "nat \<Rightarrow> 'a segmented_vector \<Rightarrow> 'a segmented_vector \<Rightarrow> 'a segmented_vector option" where
  "append_everything_from nb other v =
     append_each nb other [0..<m_size other] (sv_reserve nb (m_size v + m_size other) v)"

definition sv_copy :: "nat \<Rightarrow> 'a segmented_vector \<Rightarrow> 'a segmented_vector option" where
  "sv_copy nb other = append_everything_from nb other segmented_vector_new"

definition sv_copy_assign :: "bool \<Rightarrow> nat \<Rightarrow> 'a segmented_vector \<Rightarrow> 'a segmented_vector \<Rightarrow> 'a segmented_vector option" where
  "sv_copy_assign triv nb other v = do {
     v \<leftarrow> sv_clear triv nb v;
     append_everything_from nb other v
   }"

text \<open>Move assignment from another object: the vector afterwards and the other one.\<close>

definition sv_move_assign :: "bool \<Rightarrow> nat \<Rightarrow> 'a segmented_vector \<Rightarrow> 'a segmented_vector \<Rightarrow>
    ('a segmented_vector \<times> 'a segmented_vector) option" where
  "sv_move_assign triv nb other v = do {
     v \<leftarrow> sv_clear triv nb v;
     Some (v\<lparr>m_blocks := m_blocks other, m_size := m_size other\<rparr>, \<lparr>m_blocks = [], m_size = 0\<rparr>)
   }"

function shrink_blocks :: "nat \<Rightarrow> 'a segmented_vector \<Rightarrow> 'a segmented_vector" where
  "shrink_blocks required v =
     (if length (m_blocks v) > required then shrink_blocks required (v\<lparr>m_blocks := butlast (m_blocks v)\<rparr>) else v)"
  by pat_completeness auto
termination
  by (relation "measure (\<lambda>(r, v). length (m_blocks v))") auto

declare shrink_blocks.simps [simp del]

definition shrink_to_fit :: "nat \<Rightarrow> 'a segmented_vector \<Rightarrow> 'a segmented_vector" where
  "shrink_to_fit nb v = shrink_blocks (calc_num_blocks_for_capacity nb (m_size v)) v"

section \<open>Iterators\<close>

text \<open>The index of an iterator is a \<open>size_t\<close>, distances are signed; a signed overflow is undefined.\<close>

definition ptrdiff :: "int \<Rightarrow> int option" where
  "ptrdiff d = (if - (2 ^ 63) \<le> d \<and> d < 2 ^ 63 then Some d else None)"

definition iter_plus :: "64 word \<Rightarrow> int \<Rightarrow> 64 word option" where
  "iter_plus m_idx diff = map_option word_of_int (ptrdiff (sint m_idx + diff))"

definition iter_minus :: "64 word \<Rightarrow> int \<Rightarrow> 64 word option" where
  "iter_minus m_idx diff = map_option word_of_int (ptrdiff (sint m_idx - diff))"

definition iter_distance :: "64 word \<Rightarrow> 64 word \<Rightarrow> int option" where
  "iter_distance m_idx other = ptrdiff (sint m_idx - sint other)"

definition iter_next :: "64 word \<Rightarrow> 64 word" where
  "iter_next m_idx = m_idx + 1"

definition iter_prev :: "64 word \<Rightarrow> 64 word" where
  "iter_prev m_idx = m_idx - 1"

definition iter_less :: "64 word \<Rightarrow> 64 word \<Rightarrow> bool" where
  "iter_less m_idx other \<longleftrightarrow> m_idx < other"

definition iter_deref :: "nat \<Rightarrow> 'a segmented_vector \<Rightarrow> 64 word \<Rightarrow> 'a option" where
  "iter_deref nb v m_idx = sv_at nb v (unat m_idx)"

section \<open>The list of the elements\<close>

text \<open>The cells of all blocks in a row.\<close>

definition cells :: "'a segmented_vector \<Rightarrow> 'a option list" where
  "cells v = concat (m_blocks v)"

definition elems :: "'a segmented_vector \<Rightarrow> 'a list" where
  "elems v = map the (take (m_size v) (cells v))"

definition even_blocks :: "nat \<Rightarrow> 'a segmented_vector \<Rightarrow> bool" where
  "even_blocks nb v \<longleftrightarrow> (\<forall>b \<in> set (m_blocks v). length b = 2 ^ nb)"

definition sv_ok :: "nat \<Rightarrow> 'a segmented_vector \<Rightarrow> bool" where
  "sv_ok nb v \<longleftrightarrow> even_blocks nb v \<and> m_size v \<le> length (cells v) \<and> None \<notin> set (take (m_size v) (cells v))"

lemma length_concat_even: "\<forall>b \<in> set bs. length b = n \<Longrightarrow> length (concat bs) = length bs * n"
  by (induction bs) auto

lemma concat_nth_even:
  assumes "\<forall>b \<in> set bs. length b = n" "i < length bs * n"
  shows "concat bs ! i = bs ! (i div n) ! (i mod n)"
  using assms
proof (induction bs arbitrary: i)
  case (Cons b bs)
  have n: "length b = n" "0 < n" using Cons.prems by (auto intro: gr0I)
  show ?case
  proof (cases "i < n")
    case True
    then show ?thesis using n by (simp add: nth_append)
  next
    case False
    then have "i div n = Suc ((i - n) div n)" "i mod n = (i - n) mod n" using n(2) by (simp_all add: le_div_geq le_mod_geq)
    then show ?thesis using Cons.IH [of "i - n"] Cons.prems False n by (simp add: nth_append)
  qed
qed simp

lemma concat_update_even:
  assumes "\<forall>b \<in> set bs. length b = n" "i < length bs * n"
  shows "concat (bs[i div n := (bs ! (i div n))[i mod n := x]]) = (concat bs)[i := x]"
  using assms
proof (induction bs arbitrary: i)
  case (Cons b bs)
  have n: "length b = n" "0 < n" using Cons.prems by (auto intro: gr0I)
  show ?case
  proof (cases "i < n")
    case True
    then show ?thesis using n by (simp add: list_update_append)
  next
    case False
    then have "i div n = Suc ((i - n) div n)" "i mod n = (i - n) mod n" using n(2) by (simp_all add: le_div_geq le_mod_geq)
    then show ?thesis using Cons.IH [of "i - n"] Cons.prems False n by (simp add: list_update_append)
  qed
qed simp

lemma block_mask_mask: "block_mask nb = mask nb"
  by (simp add: block_mask_def mask_eq_exp_minus_1)

lemma place: "drop_bit nb i = i div 2 ^ nb" "i AND block_mask nb = i mod 2 ^ nb" for i :: nat
  by (simp_all only: drop_bit_eq_div block_mask_mask take_bit_eq_mask [symmetric] take_bit_eq_mod)

lemma cells_capacity: "even_blocks nb v \<Longrightarrow> length (cells v) = sv_capacity nb v"
  by (simp add: cells_def even_blocks_def sv_capacity_def length_concat_even)

lemma in_blocks_even: "even_blocks nb v \<Longrightarrow> in_blocks nb v i \<longleftrightarrow> i < length (cells v)"
proof -
  assume e: "even_blocks nb v"
  have d: "i div 2 ^ nb < length (m_blocks v) \<longleftrightarrow> i < length (cells v)"
    by (simp add: cells_capacity [OF e] sv_capacity_def div_less_iff_less_mult)
  then show ?thesis using e unfolding in_blocks_def place by (auto simp: even_blocks_def)
qed

lemma sv_at_cells:
  assumes "even_blocks nb v"
  shows "sv_at nb v i = (if i < length (cells v) then cells v ! i else None)"
proof (cases "i < length (cells v)")
  case True
  then have "i < length (m_blocks v) * 2 ^ nb" by (simp add: cells_capacity [OF assms] sv_capacity_def)
  then have "concat (m_blocks v) ! i = m_blocks v ! (i div 2 ^ nb) ! (i mod 2 ^ nb)"
    using assms by (intro concat_nth_even) (simp_all add: even_blocks_def)
  then show ?thesis using True in_blocks_even [OF assms, of i] by (simp add: sv_at_def place cells_def)
qed (use in_blocks_even [OF assms, of i] in \<open>simp add: sv_at_def\<close>)

lemma put_cell_cells:
  assumes "even_blocks nb v" "i < length (cells v)"
  shows "\<exists>v'. put_cell nb i c v = Some v' \<and> even_blocks nb v' \<and> cells v' = (cells v)[i := c] \<and> m_size v' = m_size v \<and>
    length (m_blocks v') = length (m_blocks v)"
proof -
  have b: "drop_bit nb i < length (m_blocks v)" using in_blocks_even [OF assms(1), of i] assms(2) by (simp add: in_blocks_def)
  have e: "\<forall>b \<in> set (m_blocks v). length b = 2 ^ nb" using assms(1) by (simp add: even_blocks_def)
  have "length (m_blocks v ! drop_bit nb i) = 2 ^ nb" using e b by simp
  then have "\<forall>b \<in> set ((m_blocks v)[drop_bit nb i := (m_blocks v ! drop_bit nb i)[i AND block_mask nb := c]]). length b = 2 ^ nb"
    using e by (auto dest!: set_update_subset_insert [THEN subsetD])
  moreover have "concat ((m_blocks v)[drop_bit nb i := (m_blocks v ! drop_bit nb i)[i AND block_mask nb := c]]) = (cells v)[i := c]"
    unfolding place cells_def using assms(2) by (intro concat_update_even [OF e]) (simp add: cells_def length_concat_even [OF e])
  ultimately show ?thesis using in_blocks_even [OF assms(1), of i] assms(2)
    by (simp add: put_cell_def even_blocks_def cells_def)
qed

lemma increase_cells:
  "even_blocks nb v \<Longrightarrow> even_blocks nb (increase_capacity nb v)"
  "cells (increase_capacity nb v) = cells v @ replicate (2 ^ nb) None"
  "m_size (increase_capacity nb v) = m_size v"
  by (auto simp: increase_capacity_def cells_def even_blocks_def)

lemma sv_ok_increase: "sv_ok nb v \<Longrightarrow> sv_ok nb (increase_capacity nb v) \<and> elems (increase_capacity nb v) = elems v"
  by (simp add: sv_ok_def elems_def increase_cells)

lemma elems_size: "sv_ok nb v \<Longrightarrow> length (elems v) = m_size v"
  by (simp add: elems_def sv_ok_def)

lemma cell_elem: "sv_ok nb v \<Longrightarrow> i < m_size v \<Longrightarrow> cells v ! i = Some (elems v ! i)"
proof -
  assume a: "sv_ok nb v" "i < m_size v"
  then have "cells v ! i \<in> set (take (m_size v) (cells v))" by (auto simp: sv_ok_def in_set_conv_nth)
  then have "cells v ! i \<noteq> None" using a(1) unfolding sv_ok_def by metis
  then show ?thesis using a by (auto simp: elems_def sv_ok_def)
qed

lemma sv_at_elem: "sv_ok nb v \<Longrightarrow> i < m_size v \<Longrightarrow> sv_at nb v i = Some (elems v ! i)"
  using cell_elem [of nb v i] by (simp add: sv_at_cells sv_ok_def)

section \<open>What each operation does to the list\<close>

lemma emplace_back_ok:
  assumes "sv_ok nb v"
  shows "yields (emplace_back nb x v) (\<lambda>v'. sv_ok nb v' \<and> elems v' = elems v @ [x])"
proof -
  define w where "w = (if m_size v = sv_capacity nb v then increase_capacity nb v else v)"
  have w: "sv_ok nb w" "elems w = elems v" "m_size w = m_size v" "m_size w < length (cells w)"
    using assms sv_ok_increase [OF assms] by (auto simp: w_def increase_cells sv_ok_def cells_capacity)
  obtain v' where v': "put_cell nb (m_size w) (Some x) w = Some v'" "even_blocks nb v'"
    "cells v' = (cells w)[m_size w := Some x]" "m_size v' = m_size w"
    using put_cell_cells [of nb w "m_size w" "Some x"] w by (auto simp: sv_ok_def)
  have t: "take (Suc (m_size w)) (cells v') = take (m_size w) (cells w) @ [Some x]"
    using w(4) v'(3) by (simp add: take_Suc_conv_app_nth)
  have "sv_ok nb (v'\<lparr>m_size := m_size v' + 1\<rparr>) \<and> elems (v'\<lparr>m_size := m_size v' + 1\<rparr>) = elems w @ [x]"
    using w(1,4) v'(2,3,4) t by (simp add: sv_ok_def elems_def cells_def even_blocks_def)
  then show ?thesis using v'(1) w(2) unfolding emplace_back_def Let_def w_def [symmetric] by simp
qed

lemma destroy_range_ok:
  assumes "even_blocks nb v" "last_ix \<le> length (cells v)" "None \<notin> set (take (last_ix - ix) (drop ix (cells v)))"
  shows "yields (destroy_range nb ix last_ix v) (\<lambda>v'. even_blocks nb v' \<and> length (cells v') = length (cells v) \<and>
    take ix (cells v') = take ix (cells v) \<and> m_size v' = m_size v)"
  using assms
proof (induction nb ix last_ix v rule: destroy_range.induct)
  case (1 nb ix last_ix v)
  show ?case
  proof (cases "ix < last_ix")
    case True
    have l: "ix < length (cells v)" using True "1.prems"(2) by simp
    have d: "take (last_ix - ix) (drop ix (cells v)) = cells v ! ix # take (last_ix - Suc ix) (drop (Suc ix) (cells v))"
      using True l by (simp add: Cons_nth_drop_Suc [symmetric] Suc_diff_Suc [symmetric])
    then obtain x where x: "sv_at nb v ix = Some x" using "1.prems"(1,3) l by (cases "cells v ! ix") (auto simp: sv_at_cells)
    obtain v' where v': "put_cell nb ix None v = Some v'" "even_blocks nb v'" "cells v' = (cells v)[ix := None]" "m_size v' = m_size v"
      using put_cell_cells [OF "1.prems"(1) l] by blast
    have "yields (destroy_range nb (ix + 1) last_ix v') (\<lambda>v''. even_blocks nb v'' \<and> length (cells v'') = length (cells v') \<and>
        take (ix + 1) (cells v'') = take (ix + 1) (cells v') \<and> m_size v'' = m_size v')"
      using "1.prems" d v' by (intro "1.IH" [OF True x v'(1)]) simp_all
    then show ?thesis unfolding destroy_range.simps [of nb ix last_ix v] using True x v'
      by (simp, elim yields_weaken) (auto dest: arg_cong [where f = "take ix"] simp: min_def)
  next
    case False
    then show ?thesis using "1.prems" by (simp add: destroy_range.simps)
  qed
qed

lemma sv_ok_shorter: "even_blocks nb v' \<Longrightarrow> length (cells v') = length (cells v) \<Longrightarrow> take k (cells v') = take k (cells v) \<Longrightarrow>
    sv_ok nb v \<Longrightarrow> k \<le> m_size v \<Longrightarrow> sv_ok nb (v'\<lparr>m_size := k\<rparr>) \<and> elems (v'\<lparr>m_size := k\<rparr>) = take k (elems v)"
proof -
  assume a: "even_blocks nb v'" "length (cells v') = length (cells v)" "take k (cells v') = take k (cells v)" "sv_ok nb v" "k \<le> m_size v"
  have "set (take k (cells v)) \<subseteq> set (take (m_size v) (cells v))" using a(5) by (rule set_take_subset_set_take)
  then have "None \<notin> set (take k (cells v))" using a(4) by (auto simp: sv_ok_def)
  moreover have c: "cells (v'\<lparr>m_size := k\<rparr>) = cells v'" "even_blocks nb (v'\<lparr>m_size := k\<rparr>) = even_blocks nb v'"
    by (simp_all add: cells_def even_blocks_def)
  ultimately show ?thesis using a by (simp add: sv_ok_def elems_def take_map min_absorb1)
qed

lemma resize_shrink_ok:
  assumes "sv_ok nb v" "k \<le> m_size v"
  shows "yields (resize_shrink triv nb k v) (\<lambda>v'. sv_ok nb v' \<and> elems v' = take k (elems v))"
proof (cases triv)
  case True
  then show ?thesis using sv_ok_shorter [of nb v v k] assms by (simp add: resize_shrink_def sv_ok_def)
next
  case False
  have "set (take (m_size v - k) (drop k (cells v))) \<subseteq> set (take (m_size v) (cells v))"
    by (simp add: take_drop set_drop_subset assms(2))
  then have "yields (destroy_range nb k (m_size v) v) (\<lambda>v'. even_blocks nb v' \<and> length (cells v') = length (cells v) \<and>
      take k (cells v') = take k (cells v) \<and> m_size v' = m_size v)"
    using assms by (intro destroy_range_ok) (auto simp: sv_ok_def)
  then show ?thesis using False sv_ok_shorter [OF _ _ _ assms]
    by (simp add: resize_shrink_def) (erule yields_weaken, blast)
qed

lemma sv_clear_shrink: "sv_clear triv nb v = resize_shrink triv nb 0 v"
  by (simp add: sv_clear_def resize_shrink_def)

lemma sv_back_ok: "sv_ok nb v \<Longrightarrow> sv_back nb v = (if elems v = [] then None else Some (last (elems v)))"
proof -
  assume a: "sv_ok nb v"
  then have e: "elems v = [] \<longleftrightarrow> m_size v = 0" using elems_size [OF a] by (metis length_0_conv)
  have "sv_at nb v (m_size v - 1) = Some (last (elems v))" if "m_size v \<noteq> 0"
    using sv_at_elem [OF a, of "m_size v - 1"] that e elems_size [OF a] by (simp add: last_conv_nth)
  then show ?thesis using e by (simp add: sv_back_def)
qed

lemma pop_back_ok:
  assumes "sv_ok nb v"
  shows "if elems v = [] then pop_back nb v = None
    else yields (pop_back nb v) (\<lambda>v'. sv_ok nb v' \<and> elems v' = butlast (elems v))"
proof (cases "elems v = []")
  case True
  then show ?thesis using sv_back_ok [OF assms] by (simp add: pop_back_def)
next
  case False
  have s: "0 < m_size v" using False elems_size [OF assms] by (metis length_0_conv gr0I)
  then have "m_size v - 1 < length (cells v)" using assms by (auto simp: sv_ok_def)
  then obtain v' where v': "put_cell nb (m_size v - 1) None v = Some v'" "even_blocks nb v'"
    "cells v' = (cells v)[m_size v - 1 := None]" "m_size v' = m_size v"
    using put_cell_cells [of nb v "m_size v - 1" None] assms by (auto simp: sv_ok_def)
  have "take (m_size v - 1) (cells v') = take (m_size v - 1) (cells v)" using v'(3) by simp
  from sv_ok_shorter [OF v'(2) _ this assms] v'(3) show ?thesis using False s v'(1,4) sv_back_ok [OF assms] elems_size [OF assms]
    by (simp add: pop_back_def butlast_conv_take)
qed

lemma sv_reserve_ok: "sv_ok nb v \<Longrightarrow> sv_ok nb (sv_reserve nb c v) \<and> elems (sv_reserve nb c v) = elems v \<and>
    m_size (sv_reserve nb c v) = m_size v \<and> c \<le> sv_capacity nb (sv_reserve nb c v)"
proof (induction nb c v rule: sv_reserve.induct)
  case (1 nb c v)
  show ?case
  proof (cases "c > sv_capacity nb v")
    case True
    then show ?thesis using 1 sv_ok_increase [OF "1.prems"] by (simp add: sv_reserve.simps [of nb c v] increase_cells)
  next
    case False
    then show ?thesis using 1 by (simp add: sv_reserve.simps [of nb c v])
  qed
qed

section \<open>Appending\<close>

text \<open>The contract of a container one appends to, and what repeated appending does under it.\<close>

locale back_container =
  fixes append_one :: "'a \<Rightarrow> 's \<Rightarrow> 's option"
    and content :: "'s \<Rightarrow> 'a list"
    and good :: "'s \<Rightarrow> bool"
  assumes append_one: "good s \<Longrightarrow> yields (append_one x s) (\<lambda>s'. good s' \<and> content s' = content s @ [x])"
begin

primrec append_all :: "'a list \<Rightarrow> 's \<Rightarrow> 's option" where
  "append_all [] s = Some s"
| "append_all (x # xs) s = Option.bind (append_one x s) (append_all xs)"

lemma append_all: "good s \<Longrightarrow> yields (append_all xs s) (\<lambda>s'. good s' \<and> content s' = content s @ xs)"
proof (induction xs arbitrary: s)
  case (Cons x xs)
  have "yields (append_one x s) (\<lambda>s'. yields (append_all xs s') (\<lambda>s''. good s'' \<and> content s'' = content s @ x # xs))"
  proof (rule yields_weaken [OF append_one [OF Cons.prems]])
    fix s' assume s': "good s' \<and> content s' = content s @ [x]"
    show "yields (append_all xs s') (\<lambda>s''. good s'' \<and> content s'' = content s @ x # xs)"
      by (rule yields_weaken [OF Cons.IH]) (use s' in auto)
  qed
  then show ?case by simp
qed simp

end

interpretation sv: back_container "emplace_back nb" elems "sv_ok nb" for nb
  by unfold_locales (rule emplace_back_ok)

lemma emplace_times_all: "emplace_times nb k x v = sv.append_all nb (replicate k x) v"
  by (induction k arbitrary: v) (auto intro: Option.bind_cong)

lemma append_each_all:
  assumes "sv_ok nb other" "\<forall>i \<in> set is. i < m_size other"
  shows "append_each nb other is v = sv.append_all nb (map (\<lambda>i. elems other ! i) is) v"
  using assms(2) by (induction "is" arbitrary: v) (auto simp: sv_at_elem [OF assms(1)] intro: Option.bind_cong)

lemma append_everything_ok:
  assumes "sv_ok nb other" "sv_ok nb v"
  shows "yields (append_everything_from nb other v) (\<lambda>v'. sv_ok nb v' \<and> elems v' = elems v @ elems other)"
proof -
  have "map (\<lambda>i. elems other ! i) [0..<m_size other] = elems other" by (simp add: elems_size [OF assms(1), symmetric] map_nth)
  then have "append_everything_from nb other v = sv.append_all nb (elems other) (sv_reserve nb (m_size v + m_size other) v)"
    using append_each_all [OF assms(1), of "[0..<m_size other]"] by (simp add: append_everything_from_def)
  then show ?thesis using sv.append_all [of nb "sv_reserve nb (m_size v + m_size other) v" "elems other"]
      sv_reserve_ok [OF assms(2), of "m_size v + m_size other"] by simp
qed

lemma sv_resize_ok:
  assumes "sv_ok nb v"
  shows "yields (sv_resize triv nb k x v) (\<lambda>v'. sv_ok nb v' \<and> elems v' = take k (elems v) @ replicate (k - m_size v) x)"
proof (cases "k < m_size v")
  case True
  then show ?thesis using resize_shrink_ok [OF assms, of k triv] by (simp add: sv_resize_def)
next
  case False
  then show ?thesis using sv.append_all [of nb "sv_reserve nb k v" "replicate (k - m_size v) x"] sv_reserve_ok [OF assms, of k]
      elems_size [OF assms] assms by (auto simp: sv_resize_def emplace_times_all)
qed

lemma sv_ok_new [simp]: "sv_ok nb segmented_vector_new" "elems segmented_vector_new = []"
  by (simp_all add: sv_ok_def segmented_vector_new_def even_blocks_def elems_def)

lemma sv_copy_assign_ok:
  assumes "sv_ok nb other" "sv_ok nb v"
  shows "yields (sv_copy_assign triv nb other v) (\<lambda>v'. sv_ok nb v' \<and> elems v' = elems other)"
proof -
  have "yields (sv_clear triv nb v) (\<lambda>v'. yields (append_everything_from nb other v') (\<lambda>v''. sv_ok nb v'' \<and> elems v'' = elems other))"
    unfolding sv_clear_shrink by (rule yields_weaken [OF resize_shrink_ok [OF assms(2), of 0 triv]])
      (use append_everything_ok [OF assms(1)] in fastforce)+
  then show ?thesis by (simp add: sv_copy_assign_def)
qed

lemma shrink_blocks_take: "r \<le> length (m_blocks v) \<Longrightarrow> shrink_blocks r v = v\<lparr>m_blocks := take r (m_blocks v)\<rparr>"
proof (induction r v rule: shrink_blocks.induct)
  case (1 r v)
  show ?case
  proof (cases "length (m_blocks v) > r")
    case True
    have "take r (butlast (m_blocks v)) = take r (m_blocks v)" using True by (simp add: butlast_conv_take min_absorb1)
    then show ?thesis using "1.IH" [OF True] True by (simp add: shrink_blocks.simps [of r v])
  next
    case False
    then have r: "r = length (m_blocks v)" using "1.prems" by simp
    show ?thesis unfolding r by (subst shrink_blocks.simps) simp
  qed
qed

lemma blocks_needed: "m_size v \<le> calc_num_blocks_for_capacity nb (m_size v) * 2 ^ nb"
  "m_size v \<le> n * 2 ^ nb \<Longrightarrow> calc_num_blocks_for_capacity nb (m_size v) \<le> n"
proof -
  have p: "(0 :: nat) < 2 ^ nb" by simp
  have "m_size v + 2 ^ nb - 1 = (m_size v + 2 ^ nb - 1) div 2 ^ nb * 2 ^ nb + (m_size v + 2 ^ nb - 1) mod 2 ^ nb"
    by (rule div_mult_mod_eq [symmetric])
  moreover have "(m_size v + 2 ^ nb - 1) mod 2 ^ nb < 2 ^ nb" using p by simp
  ultimately show "m_size v \<le> calc_num_blocks_for_capacity nb (m_size v) * 2 ^ nb"
    unfolding calc_num_blocks_for_capacity_def num_elements_pos(2) using p by linarith
  assume "m_size v \<le> n * 2 ^ nb"
  then have "m_size v + 2 ^ nb - 1 < Suc n * 2 ^ nb" unfolding mult_Suc using p by linarith
  then show "calc_num_blocks_for_capacity nb (m_size v) \<le> n"
    unfolding calc_num_blocks_for_capacity_def num_elements_pos(2) using less_mult_imp_div_less by (metis less_Suc_eq_le)
qed

lemma shrink_to_fit_ok:
  assumes "sv_ok nb v"
  shows "sv_ok nb (shrink_to_fit nb v) \<and> elems (shrink_to_fit nb v) = elems v \<and> sv_capacity nb (shrink_to_fit nb v) < m_size v + 2 ^ nb"
proof -
  let ?r = "calc_num_blocks_for_capacity nb (m_size v)" and ?v = "v\<lparr>m_blocks := take (calc_num_blocks_for_capacity nb (m_size v)) (m_blocks v)\<rparr>"
  have e: "even_blocks nb v" "m_size v \<le> length (cells v)" using assms by (simp_all add: sv_ok_def)
  then have r: "?r \<le> length (m_blocks v)" using blocks_needed(2) [of v "length (m_blocks v)" nb]
    by (simp add: cells_capacity sv_capacity_def)
  have f: "even_blocks nb ?v" using e(1) by (auto simp: even_blocks_def dest: in_set_takeD)
  have "cells v = cells ?v @ concat (drop ?r (m_blocks v))" by (simp add: cells_def flip: concat_append)
  moreover have "m_size v \<le> length (cells ?v)" using blocks_needed(1) [of v nb] r by (simp add: cells_capacity [OF f] sv_capacity_def)
  ultimately have t: "take (m_size v) (cells ?v) = take (m_size v) (cells v)" by simp
  have "?r * 2 ^ nb \<le> m_size v + 2 ^ nb - 1"
    unfolding calc_num_blocks_for_capacity_def num_elements_pos(2) by (rule div_times_less_eq_dividend)
  moreover have "(0 :: nat) < 2 ^ nb" by simp
  ultimately have "?r * 2 ^ nb < m_size v + 2 ^ nb" by linarith
  then show ?thesis using assms f t r \<open>m_size v \<le> length (cells ?v)\<close>
    by (simp add: shrink_to_fit_def shrink_blocks_take sv_ok_def elems_def sv_capacity_def)
qed

section \<open>Runs\<close>

text \<open>Programs on two vectors: calls on the first, construction and assignment of the first from the second, and
  the two changing their names.\<close>

datatype 'a command = EmplaceBack 'a | PopBack | Clear | Resize nat 'a | Reserve nat | ShrinkToFit
  | CopyConstruct | CopyAssign | MoveAssign | Rename

fun sv_command :: "bool \<Rightarrow> nat \<Rightarrow> 'a command \<Rightarrow> 'a segmented_vector \<times> 'a segmented_vector \<Rightarrow>
    ('a segmented_vector \<times> 'a segmented_vector) option" where
  "sv_command triv nb (EmplaceBack x) (v, w) = map_option (\<lambda>v. (v, w)) (emplace_back nb x v)"
| "sv_command triv nb PopBack (v, w) = map_option (\<lambda>v. (v, w)) (pop_back nb v)"
| "sv_command triv nb Clear (v, w) = map_option (\<lambda>v. (v, w)) (sv_clear triv nb v)"
| "sv_command triv nb (Resize k x) (v, w) = map_option (\<lambda>v. (v, w)) (sv_resize triv nb k x v)"
| "sv_command triv nb (Reserve k) (v, w) = Some (sv_reserve nb k v, w)"
| "sv_command triv nb ShrinkToFit (v, w) = Some (shrink_to_fit nb v, w)"
| "sv_command triv nb CopyConstruct (v, w) = map_option (\<lambda>v. (v, w)) (sv_copy nb w)"
| "sv_command triv nb CopyAssign (v, w) = map_option (\<lambda>v. (v, w)) (sv_copy_assign triv nb w v)"
| "sv_command triv nb MoveAssign (v, w) = sv_move_assign triv nb w v"
| "sv_command triv nb Rename (v, w) = Some (w, v)"

fun list_command :: "'a command \<Rightarrow> 'a list \<times> 'a list \<Rightarrow> ('a list \<times> 'a list) option" where
  "list_command (EmplaceBack x) (xs, ys) = Some (xs @ [x], ys)"
| "list_command PopBack (xs, ys) = (if xs = [] then None else Some (butlast xs, ys))"
| "list_command Clear (xs, ys) = Some ([], ys)"
| "list_command (Resize k x) (xs, ys) = Some (take k xs @ replicate (k - length xs) x, ys)"
| "list_command (Reserve k) (xs, ys) = Some (xs, ys)"
| "list_command ShrinkToFit (xs, ys) = Some (xs, ys)"
| "list_command CopyConstruct (xs, ys) = Some (ys, ys)"
| "list_command CopyAssign (xs, ys) = Some (ys, ys)"
| "list_command MoveAssign (xs, ys) = Some (ys, [])"
| "list_command Rename (xs, ys) = Some (ys, xs)"

fun run_commands :: "('c \<Rightarrow> 's \<Rightarrow> 's option) \<Rightarrow> 'c list \<Rightarrow> 's \<Rightarrow> 's option" where
  "run_commands step [] s = Some s"
| "run_commands step (c # cs) s = Option.bind (step c s) (run_commands step cs)"

definition pair_ok :: "nat \<Rightarrow> 'a segmented_vector \<times> 'a segmented_vector \<Rightarrow> bool" where
  "pair_ok nb p \<longleftrightarrow> sv_ok nb (fst p) \<and> sv_ok nb (snd p)"

definition pair_elems :: "'a segmented_vector \<times> 'a segmented_vector \<Rightarrow> 'a list \<times> 'a list" where
  "pair_elems p = (elems (fst p), elems (snd p))"

lemma sv_move_assign_ok:
  assumes "sv_ok nb other" "sv_ok nb v"
  shows "yields (sv_move_assign triv nb other v) (\<lambda>p. pair_ok nb p \<and> pair_elems p = (elems other, []))"
proof -
  have "yields (sv_clear triv nb v) (\<lambda>v'. pair_ok nb (v'\<lparr>m_blocks := m_blocks other, m_size := m_size other\<rparr>, \<lparr>m_blocks = [], m_size = 0\<rparr>) \<and>
      pair_elems (v'\<lparr>m_blocks := m_blocks other, m_size := m_size other\<rparr>, \<lparr>m_blocks = [], m_size = 0\<rparr>) = (elems other, []))"
    unfolding sv_clear_shrink by (rule yields_weaken [OF resize_shrink_ok [OF assms(2), of 0 triv]])
      (use assms(1) in \<open>simp_all add: pair_ok_def pair_elems_def sv_ok_def elems_def cells_def even_blocks_def\<close>)
  then show ?thesis by (simp add: sv_move_assign_def)
qed

lemma sv_command_ok:
  assumes "pair_ok nb p"
  shows "case list_command c (pair_elems p) of None \<Rightarrow> sv_command triv nb c p = None
    | Some r \<Rightarrow> yields (sv_command triv nb c p) (\<lambda>p'. pair_ok nb p' \<and> pair_elems p' = r)"
proof -
  obtain v w where p: "p = (v, w)" by (cases p)
  have ok: "sv_ok nb v" "sv_ok nb w" using assms by (simp_all add: p pair_ok_def)
  note s = p ok pair_ok_def pair_elems_def yields_iff
  show ?thesis
  proof (cases c)
    case (EmplaceBack x)
    then show ?thesis using emplace_back_ok [OF ok(1), of x] by (auto simp: s)
  next
    case PopBack
    then show ?thesis using pop_back_ok [OF ok(1)] by (auto simp: s split: if_splits)
  next
    case Clear
    then show ?thesis using resize_shrink_ok [OF ok(1), of 0 triv] by (auto simp: s sv_clear_shrink)
  next
    case (Resize k x)
    then show ?thesis using sv_resize_ok [OF ok(1), of triv k x] elems_size [OF ok(1)] by (auto simp: s)
  next
    case (Reserve k)
    then show ?thesis using sv_reserve_ok [OF ok(1), of k] by (simp add: s)
  next
    case ShrinkToFit
    then show ?thesis using shrink_to_fit_ok [OF ok(1)] by (simp add: s)
  next
    case CopyConstruct
    then show ?thesis using append_everything_ok [OF ok(2), of segmented_vector_new] by (auto simp: s sv_copy_def)
  next
    case CopyAssign
    then show ?thesis using sv_copy_assign_ok [OF ok(2,1), of triv] by (auto simp: s)
  next
    case MoveAssign
    then show ?thesis using sv_move_assign_ok [OF ok(2,1), of triv] by (simp add: s)
  next
    case Rename
    then show ?thesis by (simp add: s)
  qed
qed

lemma run_commands_ok:
  "pair_ok nb p \<Longrightarrow> map_option pair_elems (run_commands (sv_command triv nb) cs p) = run_commands list_command cs (pair_elems p)"
proof (induction cs arbitrary: p)
  case (Cons c cs)
  show ?case
  proof (cases "list_command c (pair_elems p)")
    case None
    then show ?thesis using sv_command_ok [OF Cons.prems, of triv c] by simp
  next
    case (Some r)
    then obtain p' where "sv_command triv nb c p = Some p'" "pair_ok nb p'" "pair_elems p' = r"
      using sv_command_ok [OF Cons.prems, of triv c] by (auto simp: yields_iff)
    then show ?thesis using Cons.IH Some by simp
  qed
qed simp

text \<open>The segmented vector is a list. Any program on two new segmented vectors, appending, taking away,
  clearing, resizing, reserving, shrinking, copying and moving, with blocks of any size, leaves the
  elements that lists have after it; it touches nothing outside the blocks and no cell without an object,
  unless it takes the last element of an empty vector, which has no result in either.\<close>

theorem segmented_vector_refines_list:
  "map_option pair_elems (run_commands (sv_command triv nb) cs (segmented_vector_new, segmented_vector_new)) =
    run_commands list_command cs ([], [])"
  using run_commands_ok [of nb "(segmented_vector_new, segmented_vector_new)" triv cs] by (simp add: pair_ok_def pair_elems_def)

text \<open>Appending moves no element: each keeps its block and its place in it.\<close>

lemma increase_keeps: "i < length (cells v) \<Longrightarrow> even_blocks nb v \<Longrightarrow> sv_at nb (increase_capacity nb v) i = sv_at nb v i"
  by (simp add: sv_at_cells increase_cells nth_append)

theorem references_stay_valid:
  assumes "sv_ok nb v" "emplace_back nb x v = Some v'" "i < m_size v"
  shows "drop_bit nb i < length (m_blocks v) \<and>
    m_blocks v' ! drop_bit nb i ! (i AND block_mask nb) = m_blocks v ! drop_bit nb i ! (i AND block_mask nb)"
proof -
  have v': "sv_ok nb v'" "elems v' = elems v @ [x]" using emplace_back_ok [OF assms(1), of x] assms(2) by simp_all
  have "m_size v' = Suc (m_size v)" using elems_size [OF v'(1)] v'(2) elems_size [OF assms(1)] by simp
  then have "sv_at nb v' i = sv_at nb v i" using sv_at_elem [OF assms(1,3)] sv_at_elem [OF v'(1), of i] v'(2) assms(3) elems_size [OF assms(1)]
    by (simp add: nth_append)
  moreover have "sv_at nb v i \<noteq> None" "sv_at nb v' i \<noteq> None" using sv_at_elem [OF assms(1,3)] calculation by simp_all
  ultimately show ?thesis by (simp add: sv_at_def in_blocks_def split: if_splits)
qed

section \<open>The size of a block\<close>

lemma num_bits_from_spec: "0 < s \<Longrightarrow> push_bit f s \<le> m \<Longrightarrow>
    push_bit (num_bits_from m s f) s \<le> m \<and> m < push_bit (num_bits_from m s f + 1) s"
proof (induction m s f rule: num_bits_from.induct)
  case (1 m s f)
  then show ?case by (cases "push_bit (f + 1) s \<le> m") (simp_all add: num_bits_from.simps [of m s f] not_le)
qed

text \<open>A block of elements of \<open>s\<close> bytes fits into 4096 bytes, and no power of two of more elements does; an element
  that is larger has a block of its own.\<close>

theorem block_size:
  "0 < s \<Longrightarrow> s \<le> 4096 \<Longrightarrow> num_elements_in_block (num_bits_closest 4096 s) * s \<le> 4096 \<and>
     4096 < 2 * num_elements_in_block (num_bits_closest 4096 s) * s"
  "4096 < s \<Longrightarrow> num_elements_in_block (num_bits_closest 4096 s) = 1"
proof -
  assume "0 < s" "s \<le> 4096"
  then show "num_elements_in_block (num_bits_closest 4096 s) * s \<le> 4096 \<and> 4096 < 2 * num_elements_in_block (num_bits_closest 4096 s) * s"
    using num_bits_from_spec [of s 0 4096] by (simp add: num_bits_closest_def push_bit_eq_mult mult.commute mult.left_commute)
next
  assume "4096 < s"
  then show "num_elements_in_block (num_bits_closest 4096 s) = 1" by (simp add: num_bits_closest_def num_bits_from.simps push_bit_eq_mult)
qed

text \<open>Iterators: moving forth and back, and the distance of the moved one.\<close>

theorem iter_moves:
  assumes "iter_plus i d = Some j"
  shows "iter_minus j d = Some i \<and> iter_distance j i = ptrdiff d"
proof -
  have r: "- (2 ^ 63) \<le> sint i + d" "sint i + d < 2 ^ 63" and j: "j = word_of_int (sint i + d)"
    using assms by (auto simp: iter_plus_def ptrdiff_def split: if_splits)
  have "sint j = sint i + d" unfolding j sint_sbintrunc' using r by (intro signed_take_bit_int_eq_self) simp_all
  moreover have "- (2 ^ 63) \<le> sint i" "sint i < 2 ^ 63" using sint_ge [of i] sint_lt [of i] by simp_all
  ultimately show ?thesis by (simp add: iter_minus_def iter_distance_def ptrdiff_def)
qed

end
