(* ===== verification/CachePolicy.thy ===== *)
theory CachePolicy
  imports Prelude
begin

text \<open>
  The replacement policies of src/src/cpp_caches. A policy is an object with four virtual methods
  (\<open>ICachePolicy\<close>); the record \<open>policy_ops\<close> is its method table. A \<open>std::list\<close> or
  \<open>std::multimap\<close> is the list of its nodes, each with the address that an iterator to it holds, and
  the hash map from keys to iterators is a partial function into addresses. A method whose C++
  behaviour would be undefined (an iterator that names no node, \<open>back\<close> of an empty list) returns
  \<open>None\<close>. The locale \<open>cache_policy\<close> is what a cache relies on; every policy interprets it.
\<close>

record ('k, 'p) policy_ops =
  Insert_op :: "'p \<Rightarrow> 'k \<Rightarrow> 'p"
  Touch_op :: "'p \<Rightarrow> 'k \<Rightarrow> 'p option"
  Erase_op :: "'p \<Rightarrow> 'k \<Rightarrow> 'p option"
  ReplCandidate_op :: "'p \<Rightarrow> 'k option"

locale cache_policy =
  fixes ops :: "('k, 'p) policy_ops"
    and pinv :: "'p \<Rightarrow> bool"
    and keys :: "'p \<Rightarrow> 'k list"
  assumes distinct_keys: "pinv p \<Longrightarrow> distinct (keys p)"
    and Insert_ok: "pinv p \<Longrightarrow> k \<notin> set (keys p) \<Longrightarrow>
      pinv (Insert_op ops p k) \<and> set (keys (Insert_op ops p k)) = insert k (set (keys p))"
    and Touch_ok: "pinv p \<Longrightarrow> k \<in> set (keys p) \<Longrightarrow>
      \<exists>p'. Touch_op ops p k = Some p' \<and> pinv p' \<and> set (keys p') = set (keys p)"
    and Erase_ok: "pinv p \<Longrightarrow> k \<in> set (keys p) \<Longrightarrow>
      \<exists>p'. Erase_op ops p k = Some p' \<and> pinv p' \<and> set (keys p') = set (keys p) - {k}"
    and ReplCandidate_ok: "pinv p \<Longrightarrow> keys p \<noteq> [] \<Longrightarrow>
      \<exists>k. ReplCandidate_op ops p = Some k \<and> k \<in> set (keys p)"

section \<open>Lists of nodes with addresses\<close>

definition node_list_ok :: "(nat \<times> 'k) list \<Rightarrow> ('k \<rightharpoonup> nat) \<Rightarrow> nat \<Rightarrow> bool" where
  "node_list_ok q f n \<longleftrightarrow> distinct (map fst q) \<and> distinct (map snd q) \<and>
     (\<forall>a \<in> fst ` set q. a < n) \<and> (\<forall>k a. f k = Some a \<longleftrightarrow> (a, k) \<in> set q)"

text \<open>Unlinking the node at an address, and finding it.\<close>

definition unlink :: "nat \<Rightarrow> (nat \<times> 'k) list \<Rightarrow> (nat \<times> 'k) list" where
  "unlink a q = filter (\<lambda>nd. fst nd \<noteq> a) q"

lemma find_Some_node: "distinct (map fst q) \<Longrightarrow> (a, k) \<in> set q \<Longrightarrow> map_of q a = Some k"
  by (rule map_of_is_SomeI)

lemma unlink_id: "a \<notin> fst ` set q \<Longrightarrow> unlink a q = q"
  by (auto simp: unlink_def filter_id_conv)

lemma node_list_ok_push:
  assumes "node_list_ok q f n" and "k \<notin> snd ` set q"
  shows "node_list_ok ((n, k) # q) (f(k \<mapsto> n)) (Suc n)"
proof -
  have "n \<notin> fst ` set q" using assms(1) unfolding node_list_ok_def by blast
  moreover have "\<forall>a \<in> fst ` set q. a < Suc n" using assms(1) less_Suc_eq
    unfolding node_list_ok_def by blast
  moreover have "(f(k \<mapsto> n)) x = Some a \<longleftrightarrow> (a, x) \<in> set ((n, k) # q)" for x a
    using assms by (cases "x = k") (auto simp: node_list_ok_def image_iff)
  ultimately show ?thesis using assms unfolding node_list_ok_def by simp
qed

lemma node_unique:
  assumes "node_list_ok q f n" and "(a, k) \<in> set q" and "(a', k') \<in> set q"
  shows "a = a' \<longleftrightarrow> k = k'"
proof -
  have "inj_on fst (set q)" and "inj_on snd (set q)"
    using assms(1) by (simp_all add: node_list_ok_def distinct_map)
  then show ?thesis using assms(2,3) by (metis inj_onD fst_conv snd_conv)
qed

lemma set_unlink:
  assumes "node_list_ok q f n" and "(a, k) \<in> set q"
  shows "set (unlink a q) = set q - {(a, k)}"
proof -
  have u: "b = k" if "(a, b) \<in> set q" for b
    using node_unique [OF assms that] by simp
  show ?thesis using assms(2) by (auto simp: unlink_def dest: u)
qed

lemma distinct_unlink:
  "node_list_ok q f n \<Longrightarrow> distinct (map fst (unlink a q)) \<and> distinct (map snd (unlink a q))"
  by (simp add: node_list_ok_def unlink_def distinct_map_filter)

lemma node_list_ok_unlink:
  assumes ok: "node_list_ok q f n" and "f k = Some a"
  shows "node_list_ok (unlink a q) (f(k := None)) n"
proof -
  have ak: "(a, k) \<in> set q" using assms by (simp add: node_list_ok_def)
  have "(f(k := None)) x = Some b \<longleftrightarrow> (b, x) \<in> set (unlink a q)" for x b
    using set_unlink [OF ok ak] node_unique [OF ok ak, of b x] ok
    by (cases "x = k") (auto simp: node_list_ok_def)
  then show ?thesis using distinct_unlink [OF ok, of a] ok set_unlink [OF ok ak]
    unfolding node_list_ok_def by blast
qed

lemma node_list_ok_to_front:
  assumes ok: "node_list_ok q f n" and ak: "(a, k) \<in> set q"
  shows "node_list_ok ((a, k) # unlink a q) f n"
proof -
  have s: "set ((a, k) # unlink a q) = set q" using set_unlink [OF ok ak] ak by auto
  have "a \<notin> fst ` set (unlink a q)" "k \<notin> snd ` set (unlink a q)"
    using set_unlink [OF ok ak] node_unique [OF ok ak] by force+
  then show ?thesis using distinct_unlink [OF ok, of a] ok s
    unfolding node_list_ok_def by simp
qed

lemma unlink_snd:
  assumes ok: "node_list_ok q f n" and ak: "(a, k) \<in> set q"
  shows "map snd (unlink a q) = filter (\<lambda>x. x \<noteq> k) (map snd q)"
proof -
  have "fst nd = a \<longleftrightarrow> snd nd = k" if "nd \<in> set q" for nd
    using node_unique [OF ok ak, of "fst nd" "snd nd"] that by auto
  then have "unlink a q = filter (\<lambda>nd. snd nd \<noteq> k) q"
    unfolding unlink_def by (intro filter_cong) auto
  then show ?thesis by (simp add: filter_map o_def)
qed

section \<open>Least recently used\<close>

record 'k LRUCachePolicy =
  lru_queue :: "(nat \<times> 'k) list"
  key_finder :: "'k \<rightharpoonup> nat"
  lru_fresh :: nat

definition LRUCachePolicy_new :: "'k LRUCachePolicy" where
  "LRUCachePolicy_new = \<lparr>lru_queue = [], key_finder = Map.empty, lru_fresh = 0\<rparr>"

definition LRU_Insert :: "'k LRUCachePolicy \<Rightarrow> 'k \<Rightarrow> 'k LRUCachePolicy" where
  "LRU_Insert p key = p\<lparr>lru_queue := (lru_fresh p, key) # lru_queue p,
     key_finder := (key_finder p)(key \<mapsto> lru_fresh p), lru_fresh := Suc (lru_fresh p)\<rparr>"

definition LRU_Touch :: "'k LRUCachePolicy \<Rightarrow> 'k \<Rightarrow> 'k LRUCachePolicy option" where
  "LRU_Touch p key = (case key_finder p key of None \<Rightarrow> None
     | Some it \<Rightarrow> (case map_of (lru_queue p) it of None \<Rightarrow> None
         | Some x \<Rightarrow> Some (p\<lparr>lru_queue := (it, x) # unlink it (lru_queue p)\<rparr>)))"

definition LRU_Erase :: "'k LRUCachePolicy \<Rightarrow> 'k \<Rightarrow> 'k LRUCachePolicy option" where
  "LRU_Erase p key = (case key_finder p key of None \<Rightarrow> None
     | Some it \<Rightarrow> (case map_of (lru_queue p) it of None \<Rightarrow> None
         | Some x \<Rightarrow> Some (p\<lparr>lru_queue := unlink it (lru_queue p),
             key_finder := (key_finder p)(key := None)\<rparr>)))"

definition LRU_ReplCandidate :: "'k LRUCachePolicy \<Rightarrow> 'k option" where
  "LRU_ReplCandidate p = (if lru_queue p = [] then None else Some (snd (last (lru_queue p))))"

definition LRU_ops :: "('k, 'k LRUCachePolicy) policy_ops" where
  "LRU_ops = \<lparr>Insert_op = LRU_Insert, Touch_op = LRU_Touch, Erase_op = LRU_Erase,
     ReplCandidate_op = LRU_ReplCandidate\<rparr>"

definition lru_inv :: "'k LRUCachePolicy \<Rightarrow> bool" where
  "lru_inv p \<longleftrightarrow> node_list_ok (lru_queue p) (key_finder p) (lru_fresh p)"

text \<open>Keys from the most recently used to the least.\<close>

definition lru_keys :: "'k LRUCachePolicy \<Rightarrow> 'k list" where
  "lru_keys p = map snd (lru_queue p)"

lemma lru_new_inv [simp]: "lru_inv LRUCachePolicy_new" "lru_keys LRUCachePolicy_new = []"
  by (simp_all add: lru_inv_def LRUCachePolicy_new_def node_list_ok_def lru_keys_def)

lemma LRU_Insert_keys: "lru_keys (LRU_Insert p k) = k # lru_keys p"
  by (simp add: LRU_Insert_def lru_keys_def)

lemma LRU_Insert_inv: "lru_inv p \<Longrightarrow> k \<notin> set (lru_keys p) \<Longrightarrow> lru_inv (LRU_Insert p k)"
  by (simp add: LRU_Insert_def lru_inv_def lru_keys_def node_list_ok_push)

lemma lru_keysE:
  assumes "lru_inv p" and "k \<in> set (lru_keys p)"
  obtains a where "key_finder p k = Some a" "(a, k) \<in> set (lru_queue p)"
    "map_of (lru_queue p) a = Some k"
  using assms by (auto simp: lru_inv_def lru_keys_def node_list_ok_def)

lemma LRU_Touch_keys:
  assumes "lru_inv p" and "k \<in> set (lru_keys p)"
  shows "\<exists>p'. LRU_Touch p k = Some p' \<and> lru_inv p' \<and>
    lru_keys p' = k # filter (\<lambda>x. x \<noteq> k) (lru_keys p)"
proof -
  obtain a where a: "key_finder p k = Some a" "(a, k) \<in> set (lru_queue p)"
    "map_of (lru_queue p) a = Some k" using lru_keysE [OF assms] .
  have ok: "node_list_ok (lru_queue p) (key_finder p) (lru_fresh p)"
    using assms(1) by (simp add: lru_inv_def)
  show ?thesis
    using a(1,3) node_list_ok_to_front [OF ok a(2)] unlink_snd [OF ok a(2)]
    by (simp add: LRU_Touch_def lru_inv_def lru_keys_def)
qed

lemma LRU_Erase_keys:
  assumes "lru_inv p" and "k \<in> set (lru_keys p)"
  shows "\<exists>p'. LRU_Erase p k = Some p' \<and> lru_inv p' \<and>
    lru_keys p' = filter (\<lambda>x. x \<noteq> k) (lru_keys p)"
proof -
  obtain a where a: "key_finder p k = Some a" "(a, k) \<in> set (lru_queue p)"
    "map_of (lru_queue p) a = Some k" using lru_keysE [OF assms] .
  have ok: "node_list_ok (lru_queue p) (key_finder p) (lru_fresh p)"
    using assms(1) by (simp add: lru_inv_def)
  show ?thesis
    using a(1,3) node_list_ok_unlink [OF ok a(1)] unlink_snd [OF ok a(2)]
    by (simp add: LRU_Erase_def lru_inv_def lru_keys_def)
qed

lemma LRU_ReplCandidate_keys:
  "LRU_ReplCandidate p = (if lru_keys p = [] then None else Some (last (lru_keys p)))"
  by (simp add: LRU_ReplCandidate_def lru_keys_def last_map)

lemma lru_distinct: "lru_inv p \<Longrightarrow> distinct (lru_keys p)"
  by (simp add: lru_inv_def lru_keys_def node_list_ok_def)

interpretation lru: cache_policy LRU_ops lru_inv lru_keys
proof unfold_locales
  fix p :: "'a LRUCachePolicy" and k
  assume i: "lru_inv p"
  show "distinct (lru_keys p)" using i by (rule lru_distinct)
  show "\<exists>p'. Touch_op LRU_ops p k = Some p' \<and> lru_inv p' \<and> set (lru_keys p') = set (lru_keys p)"
    if "k \<in> set (lru_keys p)"
    using LRU_Touch_keys [OF i that] that by (auto simp: LRU_ops_def)
  show "\<exists>p'. Erase_op LRU_ops p k = Some p' \<and> lru_inv p' \<and> set (lru_keys p') = set (lru_keys p) - {k}"
    if "k \<in> set (lru_keys p)"
    using LRU_Erase_keys [OF i that] by (auto simp: LRU_ops_def)
qed (auto simp: LRU_ops_def LRU_Insert_keys LRU_Insert_inv LRU_ReplCandidate_keys)

section \<open>First in, first out\<close>

text \<open>The queue and the iterator map are those of LRU; only \<open>Touch\<close> differs, and does nothing.\<close>

record 'k FIFOCachePolicy =
  fifo_queue :: "(nat \<times> 'k) list"
  key_lookup :: "'k \<rightharpoonup> nat"
  fifo_fresh :: nat

definition FIFOCachePolicy_new :: "'k FIFOCachePolicy" where
  "FIFOCachePolicy_new = \<lparr>fifo_queue = [], key_lookup = Map.empty, fifo_fresh = 0\<rparr>"

definition FIFO_Insert :: "'k FIFOCachePolicy \<Rightarrow> 'k \<Rightarrow> 'k FIFOCachePolicy" where
  "FIFO_Insert p key = p\<lparr>fifo_queue := (fifo_fresh p, key) # fifo_queue p,
     key_lookup := (key_lookup p)(key \<mapsto> fifo_fresh p), fifo_fresh := Suc (fifo_fresh p)\<rparr>"

definition FIFO_Touch :: "'k FIFOCachePolicy \<Rightarrow> 'k \<Rightarrow> 'k FIFOCachePolicy option" where
  "FIFO_Touch p key = Some p"

definition FIFO_Erase :: "'k FIFOCachePolicy \<Rightarrow> 'k \<Rightarrow> 'k FIFOCachePolicy option" where
  "FIFO_Erase p key = (case key_lookup p key of None \<Rightarrow> None
     | Some element \<Rightarrow> (case map_of (fifo_queue p) element of None \<Rightarrow> None
         | Some x \<Rightarrow> Some (p\<lparr>fifo_queue := unlink element (fifo_queue p),
             key_lookup := (key_lookup p)(key := None)\<rparr>)))"

definition FIFO_ReplCandidate :: "'k FIFOCachePolicy \<Rightarrow> 'k option" where
  "FIFO_ReplCandidate p = (if fifo_queue p = [] then None else Some (snd (last (fifo_queue p))))"

definition FIFO_ops :: "('k, 'k FIFOCachePolicy) policy_ops" where
  "FIFO_ops = \<lparr>Insert_op = FIFO_Insert, Touch_op = FIFO_Touch, Erase_op = FIFO_Erase,
     ReplCandidate_op = FIFO_ReplCandidate\<rparr>"

definition fifo_inv :: "'k FIFOCachePolicy \<Rightarrow> bool" where
  "fifo_inv p \<longleftrightarrow> node_list_ok (fifo_queue p) (key_lookup p) (fifo_fresh p)"

text \<open>Keys from the newest to the oldest.\<close>

definition fifo_keys :: "'k FIFOCachePolicy \<Rightarrow> 'k list" where
  "fifo_keys p = map snd (fifo_queue p)"

lemma fifo_new_inv [simp]: "fifo_inv FIFOCachePolicy_new" "fifo_keys FIFOCachePolicy_new = []"
  by (simp_all add: fifo_inv_def FIFOCachePolicy_new_def node_list_ok_def fifo_keys_def)

lemma FIFO_Insert_keys: "fifo_keys (FIFO_Insert p k) = k # fifo_keys p"
  by (simp add: FIFO_Insert_def fifo_keys_def)

lemma FIFO_Insert_inv: "fifo_inv p \<Longrightarrow> k \<notin> set (fifo_keys p) \<Longrightarrow> fifo_inv (FIFO_Insert p k)"
  by (simp add: FIFO_Insert_def fifo_inv_def fifo_keys_def node_list_ok_push)

lemma FIFO_Erase_keys:
  assumes "fifo_inv p" and "k \<in> set (fifo_keys p)"
  shows "\<exists>p'. FIFO_Erase p k = Some p' \<and> fifo_inv p' \<and>
    fifo_keys p' = filter (\<lambda>x. x \<noteq> k) (fifo_keys p)"
proof -
  have ok: "node_list_ok (fifo_queue p) (key_lookup p) (fifo_fresh p)"
    using assms(1) by (simp add: fifo_inv_def)
  obtain a where a: "(a, k) \<in> set (fifo_queue p)"
    using assms(2) by (auto simp: fifo_keys_def)
  then have l: "key_lookup p k = Some a" "map_of (fifo_queue p) a = Some k"
    using ok by (simp_all add: node_list_ok_def)
  show ?thesis
    using l node_list_ok_unlink [OF ok l(1)] unlink_snd [OF ok a]
    by (simp add: FIFO_Erase_def fifo_inv_def fifo_keys_def)
qed

lemma FIFO_ReplCandidate_keys:
  "FIFO_ReplCandidate p = (if fifo_keys p = [] then None else Some (last (fifo_keys p)))"
  by (simp add: FIFO_ReplCandidate_def fifo_keys_def last_map)

interpretation fifo: cache_policy FIFO_ops fifo_inv fifo_keys
proof unfold_locales
  fix p :: "'a FIFOCachePolicy" and k
  assume i: "fifo_inv p"
  show "distinct (fifo_keys p)" using i by (simp add: fifo_inv_def fifo_keys_def node_list_ok_def)
  show "\<exists>p'. Erase_op FIFO_ops p k = Some p' \<and> fifo_inv p' \<and>
      set (fifo_keys p') = set (fifo_keys p) - {k}"
    if "k \<in> set (fifo_keys p)"
    using FIFO_Erase_keys [OF i that] by (auto simp: FIFO_ops_def)
qed (auto simp: FIFO_ops_def FIFO_Insert_keys FIFO_Insert_inv FIFO_ReplCandidate_keys FIFO_Touch_def)

section \<open>Least frequently used\<close>

text \<open>
  \<open>frequency_storage\<close> is a \<open>std::multimap\<close> from frequencies to keys: its nodes in order, each with
  its address, its frequency and its key. The hint of \<open>Insert\<close> is \<open>cbegin\<close>: the node goes in front
  of all others when its frequency is not above the first one's, which holds as every frequency is
  at least 1. The hint of \<open>Touch\<close> is \<open>cend\<close>: the node goes behind every node whose frequency is not
  above its own. Frequencies are unbounded here; \<open>size_t\<close> wraps after \<open>2 ^ 64\<close> touches.
\<close>

record 'k LFUCachePolicy =
  frequency_storage :: "(nat \<times> nat \<times> 'k) list"
  lfu_storage :: "'k \<rightharpoonup> nat"
  lfu_fresh :: nat

definition LFUCachePolicy_new :: "'k LFUCachePolicy" where
  "LFUCachePolicy_new = \<lparr>frequency_storage = [], lfu_storage = Map.empty, lfu_fresh = 0\<rparr>"

fun insert_upper :: "nat \<times> nat \<times> 'k \<Rightarrow> (nat \<times> nat \<times> 'k) list \<Rightarrow> (nat \<times> nat \<times> 'k) list" where
  "insert_upper nd [] = [nd]"
| "insert_upper nd (x # xs) =
     (if fst (snd x) \<le> fst (snd nd) then x # insert_upper nd xs else nd # x # xs)"

definition emplace_hint_begin :: "nat \<times> nat \<times> 'k \<Rightarrow> (nat \<times> nat \<times> 'k) list \<Rightarrow> (nat \<times> nat \<times> 'k) list" where
  "emplace_hint_begin nd q = (case q of [] \<Rightarrow> [nd]
     | x # xs \<Rightarrow> if fst (snd nd) \<le> fst (snd x) then nd # q else insert_upper nd q)"

definition LFU_Insert :: "'k LFUCachePolicy \<Rightarrow> 'k \<Rightarrow> 'k LFUCachePolicy" where
  "LFU_Insert p key = p\<lparr>
     frequency_storage := emplace_hint_begin (lfu_fresh p, 1, key) (frequency_storage p),
     lfu_storage := (lfu_storage p)(key \<mapsto> lfu_fresh p), lfu_fresh := Suc (lfu_fresh p)\<rparr>"

definition LFU_Touch :: "'k LFUCachePolicy \<Rightarrow> 'k \<Rightarrow> 'k LFUCachePolicy option" where
  "LFU_Touch p key = (case lfu_storage p key of None \<Rightarrow> None
     | Some it \<Rightarrow> (case map_of (frequency_storage p) it of None \<Rightarrow> None
         | Some (f, x) \<Rightarrow> Some (p\<lparr>
             frequency_storage := insert_upper (lfu_fresh p, f + 1, x)
               (filter (\<lambda>nd. fst nd \<noteq> it) (frequency_storage p)),
             lfu_storage := (lfu_storage p)(key \<mapsto> lfu_fresh p),
             lfu_fresh := Suc (lfu_fresh p)\<rparr>)))"

definition LFU_Erase :: "'k LFUCachePolicy \<Rightarrow> 'k \<Rightarrow> 'k LFUCachePolicy option" where
  "LFU_Erase p key = (case lfu_storage p key of None \<Rightarrow> None
     | Some it \<Rightarrow> (case map_of (frequency_storage p) it of None \<Rightarrow> None
         | Some nd \<Rightarrow> Some (p\<lparr>
             frequency_storage := filter (\<lambda>nd. fst nd \<noteq> it) (frequency_storage p),
             lfu_storage := (lfu_storage p)(key := None)\<rparr>)))"

definition LFU_ReplCandidate :: "'k LFUCachePolicy \<Rightarrow> 'k option" where
  "LFU_ReplCandidate p = (case frequency_storage p of [] \<Rightarrow> None | nd # _ \<Rightarrow> Some (snd (snd nd)))"

definition LFU_ops :: "('k, 'k LFUCachePolicy) policy_ops" where
  "LFU_ops = \<lparr>Insert_op = LFU_Insert, Touch_op = LFU_Touch, Erase_op = LFU_Erase,
     ReplCandidate_op = LFU_ReplCandidate\<rparr>"

definition lfu_nodes :: "'k LFUCachePolicy \<Rightarrow> (nat \<times> 'k) list" where
  "lfu_nodes p = map (\<lambda>nd. (fst nd, snd (snd nd))) (frequency_storage p)"

definition lfu_keys :: "'k LFUCachePolicy \<Rightarrow> 'k list" where
  "lfu_keys p = map (\<lambda>nd. snd (snd nd)) (frequency_storage p)"

text \<open>How often a key counts as used: once for its insertion, once for every touch.\<close>

definition lfu_freq :: "'k LFUCachePolicy \<Rightarrow> 'k \<Rightarrow> nat option" where
  "lfu_freq p k = (case lfu_storage p k of None \<Rightarrow> None
     | Some it \<Rightarrow> map_option fst (map_of (frequency_storage p) it))"

definition lfu_inv :: "'k LFUCachePolicy \<Rightarrow> bool" where
  "lfu_inv p \<longleftrightarrow> node_list_ok (lfu_nodes p) (lfu_storage p) (lfu_fresh p) \<and>
     sorted (map (\<lambda>nd. fst (snd nd)) (frequency_storage p)) \<and>
     (\<forall>nd \<in> set (frequency_storage p). 1 \<le> fst (snd nd))"

lemma node_list_ok_mset:
  assumes "node_list_ok q f n" and "mset q' = mset q"
  shows "node_list_ok q' f n"
proof -
  have "mset (map fst q') = mset (map fst q)" "mset (map snd q') = mset (map snd q)" "set q' = set q"
    using assms(2) by (simp, simp, metis set_mset_mset)
  then show ?thesis using assms(1) unfolding node_list_ok_def
    by (metis mset_eq_imp_distinct_iff)
qed

lemma mset_insert_upper [simp]: "mset (insert_upper nd q) = add_mset nd (mset q)"
  by (induction q) auto

lemma set_insert_upper [simp]: "set (insert_upper nd q) = insert nd (set q)"
  by (induction q) auto

lemma sorted_insert_upper: "sorted (map (\<lambda>nd. fst (snd nd)) q) \<Longrightarrow>
   sorted (map (\<lambda>nd. fst (snd nd)) (insert_upper nd q))"
  by (induction q) (fastforce)+

lemma lfu_unlink: "map (\<lambda>nd. (fst nd, snd (snd nd))) (filter (\<lambda>nd. fst nd \<noteq> a) q) =
   unlink a (map (\<lambda>nd. (fst nd, snd (snd nd))) q)"
  by (simp add: unlink_def filter_map o_def)

lemma lfu_new_inv [simp]: "lfu_inv LFUCachePolicy_new" "lfu_keys LFUCachePolicy_new = []"
  by (simp_all add: lfu_inv_def LFUCachePolicy_new_def node_list_ok_def lfu_keys_def lfu_nodes_def)

lemma lfu_keys_nodes: "lfu_keys p = map snd (lfu_nodes p)"
  by (simp add: lfu_keys_def lfu_nodes_def)

lemma lfu_map_of_nodes:
  "map_of (map (\<lambda>nd. (fst nd, snd (snd nd))) q) a = map_option snd (map_of q a)"
  by (induction q) auto

lemma lfuE:
  assumes "lfu_inv p" and "k \<in> set (lfu_keys p)"
  obtains a f where "lfu_storage p k = Some a" "map_of (frequency_storage p) a = Some (f, k)"
    "(a, k) \<in> set (lfu_nodes p)"
proof -
  have ok: "node_list_ok (lfu_nodes p) (lfu_storage p) (lfu_fresh p)"
    using assms(1) by (simp add: lfu_inv_def)
  obtain a where a: "(a, k) \<in> set (lfu_nodes p)"
    using assms(2) by (auto simp: lfu_keys_nodes)
  then have l: "lfu_storage p k = Some a" "map_of (lfu_nodes p) a = Some k"
    using ok by (simp_all add: node_list_ok_def)
  then obtain f where "map_of (frequency_storage p) a = Some (f, k)"
    by (auto simp: lfu_nodes_def lfu_map_of_nodes)
  with that a l show ?thesis by blast
qed

lemma LFU_Insert_inv:
  assumes "lfu_inv p" and "k \<notin> set (lfu_keys p)"
  shows "lfu_inv (LFU_Insert p k) \<and> set (lfu_keys (LFU_Insert p k)) = insert k (set (lfu_keys p))"
proof -
  have e: "emplace_hint_begin (lfu_fresh p, 1, k) (frequency_storage p) =
      (lfu_fresh p, 1, k) # frequency_storage p"
    using assms(1) by (auto simp: emplace_hint_begin_def lfu_inv_def split: list.splits)
  have "k \<notin> snd ` set (lfu_nodes p)" using assms(2) by (simp add: lfu_keys_nodes)
  then have "node_list_ok ((lfu_fresh p, k) # lfu_nodes p) ((lfu_storage p)(k \<mapsto> lfu_fresh p))
      (Suc (lfu_fresh p))" using assms(1) by (intro node_list_ok_push) (simp_all add: lfu_inv_def)
  then show ?thesis using assms(1) e
    by (simp add: LFU_Insert_def lfu_inv_def lfu_nodes_def lfu_keys_def)
qed

lemma LFU_Erase_keys:
  assumes "lfu_inv p" and "k \<in> set (lfu_keys p)"
  shows "\<exists>p'. LFU_Erase p k = Some p' \<and> lfu_inv p' \<and> set (lfu_keys p') = set (lfu_keys p) - {k}"
proof -
  have ok: "node_list_ok (lfu_nodes p) (lfu_storage p) (lfu_fresh p)"
    using assms(1) by (simp add: lfu_inv_def)
  obtain a f where a: "lfu_storage p k = Some a" "map_of (frequency_storage p) a = Some (f, k)"
    "(a, k) \<in> set (lfu_nodes p)" using lfuE [OF assms] .
  let ?q = "filter (\<lambda>nd. fst nd \<noteq> a) (frequency_storage p)"
  let ?p = "p\<lparr>frequency_storage := ?q, lfu_storage := (lfu_storage p)(k := None)\<rparr>"
  have n: "lfu_nodes ?p = unlink a (lfu_nodes p)" by (simp add: lfu_nodes_def lfu_unlink)
  have "node_list_ok (lfu_nodes ?p) ((lfu_storage p)(k := None)) (lfu_fresh p)"
    using node_list_ok_unlink [OF ok a(1)] n by simp
  then have "lfu_inv ?p" using assms(1) by (simp add: lfu_inv_def sorted_filter)
  moreover have "set (lfu_keys ?p) = set (lfu_keys p) - {k}"
    using unlink_snd [OF ok a(3)] by (auto simp: lfu_keys_nodes n)
  moreover have "LFU_Erase p k = Some ?p" using a by (simp add: LFU_Erase_def)
  ultimately show ?thesis by blast
qed

lemma LFU_Touch_keys:
  assumes "lfu_inv p" and "k \<in> set (lfu_keys p)"
  shows "\<exists>p'. LFU_Touch p k = Some p' \<and> lfu_inv p' \<and> set (lfu_keys p') = set (lfu_keys p)"
proof -
  have ok: "node_list_ok (lfu_nodes p) (lfu_storage p) (lfu_fresh p)"
    using assms(1) by (simp add: lfu_inv_def)
  obtain a f where a: "lfu_storage p k = Some a" "map_of (frequency_storage p) a = Some (f, k)"
    "(a, k) \<in> set (lfu_nodes p)" using lfuE [OF assms] .
  let ?q = "filter (\<lambda>nd. fst nd \<noteq> a) (frequency_storage p)"
  let ?st = "(lfu_storage p)(k \<mapsto> lfu_fresh p)"
  let ?p = "p\<lparr>frequency_storage := insert_upper (lfu_fresh p, f + 1, k) ?q,
     lfu_storage := ?st, lfu_fresh := Suc (lfu_fresh p)\<rparr>"
  have s: "snd ` set (unlink a (lfu_nodes p)) = snd ` set (lfu_nodes p) - {k}"
    using unlink_snd [OF ok a(3)] by (auto simp flip: set_map)
  have "node_list_ok ((lfu_fresh p, k) # unlink a (lfu_nodes p))
      (((lfu_storage p)(k := None))(k \<mapsto> lfu_fresh p)) (Suc (lfu_fresh p))"
    by (rule node_list_ok_push [OF node_list_ok_unlink [OF ok a(1)]]) (simp add: s)
  moreover have m: "mset (lfu_nodes ?p) = mset ((lfu_fresh p, k) # unlink a (lfu_nodes p))"
    by (simp add: lfu_nodes_def flip: lfu_unlink)
  ultimately have "node_list_ok (lfu_nodes ?p) ?st (Suc (lfu_fresh p))"
    using node_list_ok_mset by fastforce
  then have "lfu_inv ?p" using assms(1)
    by (auto simp: lfu_inv_def sorted_filter sorted_insert_upper)
  moreover have "set (lfu_keys ?p) = insert k (set (lfu_keys p) - {k})"
    using s mset_eq_setD [OF m] by (simp add: lfu_keys_nodes)
  moreover have "LFU_Touch p k = Some ?p" using a by (simp add: LFU_Touch_def)
  ultimately show ?thesis using assms(2) by (metis insert_Diff)
qed

lemma LFU_ReplCandidate_keys:
  "lfu_keys p \<noteq> [] \<Longrightarrow> LFU_ReplCandidate p = Some (hd (lfu_keys p))"
  by (cases "frequency_storage p") (simp_all add: LFU_ReplCandidate_def lfu_keys_def)

interpretation lfu: cache_policy LFU_ops lfu_inv lfu_keys
proof unfold_locales
  fix p :: "'a LFUCachePolicy" and k
  assume i: "lfu_inv p"
  show "distinct (lfu_keys p)" using i by (simp add: lfu_inv_def lfu_keys_nodes node_list_ok_def)
qed (auto simp: LFU_ops_def LFU_Insert_inv LFU_Touch_keys LFU_Erase_keys LFU_ReplCandidate_keys)

section \<open>No policy\<close>

text \<open>
  \<open>key_storage\<close> is a \<open>std::unordered_set\<close>, whose first element is not specified: \<open>pick\<close> stands
  for the choice the library makes.
\<close>

definition No_Insert :: "'k list \<Rightarrow> 'k \<Rightarrow> 'k list" where
  "No_Insert key_storage key = List.insert key key_storage"

definition No_Touch :: "'k list \<Rightarrow> 'k \<Rightarrow> 'k list option" where
  "No_Touch key_storage key = Some key_storage"

definition No_Erase :: "'k list \<Rightarrow> 'k \<Rightarrow> 'k list option" where
  "No_Erase key_storage key = Some (remove1 key key_storage)"

definition No_ReplCandidate :: "('k list \<Rightarrow> 'k) \<Rightarrow> 'k list \<Rightarrow> 'k option" where
  "No_ReplCandidate pick key_storage =
     (if key_storage = [] then None else Some (pick key_storage))"

definition No_ops :: "('k list \<Rightarrow> 'k) \<Rightarrow> ('k, 'k list) policy_ops" where
  "No_ops pick = \<lparr>Insert_op = No_Insert, Touch_op = No_Touch, Erase_op = No_Erase,
     ReplCandidate_op = No_ReplCandidate pick\<rparr>"

lemma no_policy_laws:
  assumes "\<And>xs. xs \<noteq> [] \<Longrightarrow> pick xs \<in> set xs"
  shows "cache_policy (No_ops pick) distinct (\<lambda>s. s)"
  by unfold_locales (auto simp: No_ops_def No_Insert_def No_Touch_def No_Erase_def
      No_ReplCandidate_def assms)

interpretation nop: cache_policy "No_ops hd" distinct "\<lambda>s. s"
  by (rule no_policy_laws) simp

end
