(* ===== verification/Cache.thy ===== *)
theory Cache
  imports CachePolicy
begin

text \<open>
  \<open>fixed_sized_cache\<close> of src/src/cpp_caches/cache.hpp over any replacement policy, with the dense
  hash map the program instantiates it with (\<open>lru_cache_t\<close> in src/src/core/caches.h). The state is
  the map, the policy object and the capacity; \<open>erase_log\<close> records the calls of
  \<open>on_erase_callback\<close>, in order, with their arguments. The mutex is held for the whole of every public
  operation, so an operation is one step. \<open>None\<close> is undefined behaviour of the policy's containers.
  The lemmas are proved once, in the locale of the policies; LRU adds the refinement to a plain
  list of pairs in order of use.
\<close>

record ('k, 'v, 'p) cache =
  cache_items_map :: "('k, 'v) a_hashmap"
  cache_policy_obj :: 'p
  max_cache_size :: nat
  erase_log :: "('k \<times> 'v) list"

definition cache_new :: "nat \<Rightarrow> 'p \<Rightarrow> ('k, 'v, 'p) cache" where
  "cache_new max_size policy = \<lparr>cache_items_map = [], cache_policy_obj = policy,
     max_cache_size = (if max_size = 0 then 1 else max_size), erase_log = []\<rparr>"

section \<open>Internal operations\<close>

definition FindElem :: "('k, 'v, 'p) cache \<Rightarrow> 'k \<Rightarrow> 'v option" where
  "FindElem c key = map_of (cache_items_map c) key"

definition Insert :: "('k, 'p) policy_ops \<Rightarrow> ('k, 'v, 'p) cache \<Rightarrow> 'k \<Rightarrow> 'v \<Rightarrow> ('k, 'v, 'p) cache" where
  "Insert ops c key v = c\<lparr>cache_policy_obj := Insert_op ops (cache_policy_obj c) key,
     cache_items_map := dm_emplace key v (cache_items_map c)\<rparr>"

text \<open>The overload of \<open>Erase\<close> that takes the element an iterator names.\<close>

definition Erase_elem ::
    "('k, 'p) policy_ops \<Rightarrow> ('k, 'v, 'p) cache \<Rightarrow> 'k \<times> 'v \<Rightarrow> ('k, 'v, 'p) cache option" where
  "Erase_elem ops c elem = (case Erase_op ops (cache_policy_obj c) (fst elem) of None \<Rightarrow> None
     | Some p \<Rightarrow> Some (c\<lparr>cache_policy_obj := p, erase_log := erase_log c @ [elem],
         cache_items_map := dm_erase (fst elem) (cache_items_map c)\<rparr>))"

definition Erase :: "('k, 'p) policy_ops \<Rightarrow> ('k, 'v, 'p) cache \<Rightarrow> 'k \<Rightarrow> ('k, 'v, 'p) cache option" where
  "Erase ops c key = (case FindElem c key of Some v \<Rightarrow> Erase_elem ops c (key, v) | None \<Rightarrow> Some c)"

definition Update ::
    "('k, 'p) policy_ops \<Rightarrow> ('k, 'v, 'p) cache \<Rightarrow> 'k \<Rightarrow> 'v \<Rightarrow> ('k, 'v, 'p) cache option" where
  "Update ops c key v = (case Touch_op ops (cache_policy_obj c) key of None \<Rightarrow> None
     | Some p \<Rightarrow> Some (c\<lparr>cache_policy_obj := p,
         cache_items_map := dm_put key v (cache_items_map c)\<rparr>))"

definition GetInternal ::
    "('k, 'p) policy_ops \<Rightarrow> ('k, 'v, 'p) cache \<Rightarrow> 'k \<Rightarrow> (('k, 'v, 'p) cache \<times> 'v option) option" where
  "GetInternal ops c key = (case FindElem c key of None \<Rightarrow> Some (c, None)
     | Some v \<Rightarrow> (case Touch_op ops (cache_policy_obj c) key of None \<Rightarrow> None
         | Some p \<Rightarrow> Some (c\<lparr>cache_policy_obj := p\<rparr>, Some v)))"

section \<open>Public operations\<close>

definition Put ::
    "('k, 'p) policy_ops \<Rightarrow> ('k, 'v, 'p) cache \<Rightarrow> 'k \<Rightarrow> 'v \<Rightarrow> ('k, 'v, 'p) cache option" where
  "Put ops c key v = (case FindElem c key of
       None \<Rightarrow>
         (case (if length (cache_items_map c) + 1 > max_cache_size c
                then (case ReplCandidate_op ops (cache_policy_obj c) of None \<Rightarrow> None
                      | Some disp_candidate_key \<Rightarrow> Erase ops c disp_candidate_key)
                else Some c) of
            None \<Rightarrow> None
          | Some c' \<Rightarrow> Some (Insert ops c' key v))
     | Some _ \<Rightarrow> Update ops c key v)"

text \<open>\<open>dflt\<close> is the default-constructed \<open>value_type{}\<close>.\<close>

definition TryGet ::
    "('k, 'p) policy_ops \<Rightarrow> 'v \<Rightarrow> ('k, 'v, 'p) cache \<Rightarrow> 'k \<Rightarrow> (('k, 'v, 'p) cache \<times> 'v \<times> bool) option" where
  "TryGet ops dflt c key = (case GetInternal ops c key of None \<Rightarrow> None
     | Some (c', Some v) \<Rightarrow> Some (c', v, True)
     | Some (c', None) \<Rightarrow> Some (c', dflt, False))"

definition Get ::
    "('k, 'p) policy_ops \<Rightarrow> 'v \<Rightarrow> ('k, 'v, 'p) cache \<Rightarrow> 'k \<Rightarrow> (('k, 'v, 'p) cache \<times> 'v) option" where
  "Get ops dflt c key = (case GetInternal ops c key of None \<Rightarrow> None
     | Some (c', Some v) \<Rightarrow> Some (c', v)
     | Some (c', None) \<Rightarrow> Some (c', dflt))"

definition Pop ::
    "('k, 'p) policy_ops \<Rightarrow> 'v \<Rightarrow> ('k, 'v, 'p) cache \<Rightarrow> 'k \<Rightarrow> (('k, 'v, 'p) cache \<times> 'v \<times> bool) option" where
  "Pop ops dflt c key = (case FindElem c key of
       None \<Rightarrow> Some (c, dflt, False)
     | Some v \<Rightarrow> (case Erase_op ops (cache_policy_obj c) key of None \<Rightarrow> None
         | Some p \<Rightarrow> Some (c\<lparr>cache_policy_obj := p,
             cache_items_map := dm_erase key (cache_items_map c)\<rparr>, v, True)))"

definition Cached :: "('k, 'v, 'p) cache \<Rightarrow> 'k \<Rightarrow> bool" where
  "Cached c key \<longleftrightarrow> FindElem c key \<noteq> None"

definition Size :: "('k, 'v, 'p) cache \<Rightarrow> nat" where
  "Size c = length (cache_items_map c)"

definition Remove ::
    "('k, 'p) policy_ops \<Rightarrow> ('k, 'v, 'p) cache \<Rightarrow> 'k \<Rightarrow> (('k, 'v, 'p) cache \<times> bool) option" where
  "Remove ops c key = (case FindElem c key of None \<Rightarrow> Some (c, False)
     | Some v \<Rightarrow> (case Erase_elem ops c (key, v) of None \<Rightarrow> None | Some c' \<Rightarrow> Some (c', True)))"

lemma Erase_elem_length: "Erase_elem ops c kv = Some c' \<Longrightarrow> kv \<in> set (cache_items_map c) \<Longrightarrow>
   length (cache_items_map c') < length (cache_items_map c)"
  by (cases "cache_items_map c")
    (auto simp: Erase_elem_def length_dm_erase rev_image_eqI split: option.splits)

function ClearWithCallback ::
    "('k, 'p) policy_ops \<Rightarrow> ('k, 'v, 'p) cache \<Rightarrow> ('k, 'v, 'p) cache option" where
  "ClearWithCallback ops c = (case cache_items_map c of [] \<Rightarrow> Some c
     | first # _ \<Rightarrow> (case Erase_elem ops c first of None \<Rightarrow> None
         | Some c' \<Rightarrow> ClearWithCallback ops c'))"
  by pat_completeness auto
termination
  by (relation "measure (\<lambda>(ops, c). length (cache_items_map c))")
    (auto dest!: Erase_elem_length)

declare ClearWithCallback.simps [simp del]

text \<open>\<open>Clear\<close>, which the destructor calls: no callback.\<close>

fun erase_all_keys :: "('k, 'p) policy_ops \<Rightarrow> 'p \<Rightarrow> ('k \<times> 'v) list \<Rightarrow> 'p option" where
  "erase_all_keys ops p [] = Some p"
| "erase_all_keys ops p (el # els) = (case Erase_op ops p (fst el) of None \<Rightarrow> None
     | Some p' \<Rightarrow> erase_all_keys ops p' els)"

definition Clear :: "('k, 'p) policy_ops \<Rightarrow> ('k, 'v, 'p) cache \<Rightarrow> ('k, 'v, 'p) cache option" where
  "Clear ops c = (case erase_all_keys ops (cache_policy_obj c) (cache_items_map c) of None \<Rightarrow> None
     | Some p \<Rightarrow> Some (c\<lparr>cache_policy_obj := p, cache_items_map := []\<rparr>))"

section \<open>The invariant, for every policy\<close>

definition cache_ok :: "('p \<Rightarrow> bool) \<Rightarrow> ('p \<Rightarrow> 'k list) \<Rightarrow> ('k, 'v, 'p) cache \<Rightarrow> bool" where
  "cache_ok pinv keys c \<longleftrightarrow> pinv (cache_policy_obj c) \<and> dm_inv (cache_items_map c) \<and>
     set (keys (cache_policy_obj c)) = fst ` set (cache_items_map c) \<and>
     length (cache_items_map c) \<le> max_cache_size c \<and> 1 \<le> max_cache_size c"

lemma cache_okD:
  assumes "cache_ok pinv keys c"
  shows "pinv (cache_policy_obj c)" "dm_inv (cache_items_map c)"
    "set (keys (cache_policy_obj c)) = fst ` set (cache_items_map c)"
    "length (cache_items_map c) \<le> max_cache_size c" "1 \<le> max_cache_size c"
  using assms by (simp_all add: cache_ok_def)

lemma FindElem_eq: "FindElem c = map_of (cache_items_map c)"
  by (simp add: FindElem_def fun_eq_iff)

lemma FindElem_None: "FindElem c k = None \<longleftrightarrow> k \<notin> fst ` set (cache_items_map c)"
  by (simp add: FindElem_def map_of_eq_None_iff)

lemma FindElem_Some: "FindElem c k = Some v \<Longrightarrow> k \<in> fst ` set (cache_items_map c)"
  by (metis FindElem_None option.distinct(1))

lemma FindElem_pair: "dm_inv (cache_items_map c) \<Longrightarrow> (k, v) \<in> set (cache_items_map c) \<Longrightarrow>
   FindElem c k = Some v"
  by (simp add: FindElem_def dm_inv_def)

context cache_policy
begin

lemma Erase_elem_ok:
  assumes ok: "cache_ok pinv keys c" and f: "FindElem c k = Some v"
  shows "\<exists>p'. Erase_op ops (cache_policy_obj c) k = Some p' \<and>
    (let c' = c\<lparr>cache_policy_obj := p', erase_log := erase_log c @ [(k, v)],
         cache_items_map := dm_erase k (cache_items_map c)\<rparr>
     in Erase_elem ops c (k, v) = Some c' \<and> cache_ok pinv keys c' \<and>
        FindElem c' = (FindElem c)(k := None) \<and> erase_log c' = erase_log c @ [(k, v)] \<and>
        length (cache_items_map c') < max_cache_size c' \<and> max_cache_size c' = max_cache_size c)"
proof -
  note D = cache_okD [OF ok]
  have k: "k \<in> fst ` set (cache_items_map c)" using f by (rule FindElem_Some)
  then have pos: "0 < length (cache_items_map c)" by auto
  have len: "length (dm_erase k (cache_items_map c)) < max_cache_size c"
    unfolding length_dm_erase using k D(4) pos by (simp del: length_greater_0_conv)
  obtain p' where p': "Erase_op ops (cache_policy_obj c) k = Some p'" "pinv p'"
    "set (keys p') = set (keys (cache_policy_obj c)) - {k}"
    using Erase_ok [OF D(1)] D(3) k by blast
  then show ?thesis using D(2,3,5) len
    by (simp add: Erase_elem_def cache_ok_def FindElem_eq Let_def)
qed

lemma Pop_hit:
  assumes ok: "cache_ok pinv keys c" and f: "FindElem c k = Some v"
  shows "\<exists>c'. Pop ops d c k = Some (c', v, True) \<and> cache_ok pinv keys c' \<and>
    FindElem c' = (FindElem c)(k := None) \<and> erase_log c' = erase_log c"
  using Erase_elem_ok [OF assms] f
  by (auto simp: Pop_def Let_def cache_ok_def FindElem_eq)

lemma Pop_miss: "FindElem c k = None \<Longrightarrow> Pop ops d c k = Some (c, d, False)"
  by (simp add: Pop_def)

lemma Remove_hit:
  assumes ok: "cache_ok pinv keys c" and f: "FindElem c k = Some v"
  shows "\<exists>c'. Remove ops c k = Some (c', True) \<and> cache_ok pinv keys c' \<and>
    FindElem c' = (FindElem c)(k := None) \<and> erase_log c' = erase_log c @ [(k, v)]"
  using Erase_elem_ok [OF assms] f by (auto simp: Remove_def Let_def)

lemma Remove_miss: "FindElem c k = None \<Longrightarrow> Remove ops c k = Some (c, False)"
  by (simp add: Remove_def)

lemma touched_ok:
  assumes ok: "cache_ok pinv keys c" and f: "FindElem c k = Some v"
  obtains p' where "Touch_op ops (cache_policy_obj c) k = Some p'"
    "cache_ok pinv keys (c\<lparr>cache_policy_obj := p'\<rparr>)"
proof -
  note D = cache_okD [OF ok]
  obtain p' where "Touch_op ops (cache_policy_obj c) k = Some p'" "pinv p'"
    "set (keys p') = set (keys (cache_policy_obj c))"
    using Touch_ok [OF D(1)] D(3) FindElem_Some [OF f] by blast
  with that D show thesis by (simp add: cache_ok_def)
qed

lemma TryGet_hit:
  assumes ok: "cache_ok pinv keys c" and f: "FindElem c k = Some v"
  shows "\<exists>c'. TryGet ops d c k = Some (c', v, True) \<and> cache_ok pinv keys c' \<and>
    cache_items_map c' = cache_items_map c \<and> erase_log c' = erase_log c"
proof -
  obtain p' where "Touch_op ops (cache_policy_obj c) k = Some p'"
    "cache_ok pinv keys (c\<lparr>cache_policy_obj := p'\<rparr>)" using touched_ok [OF assms] .
  then show ?thesis using f by (simp add: TryGet_def GetInternal_def)
qed

lemma TryGet_miss: "FindElem c k = None \<Longrightarrow> TryGet ops d c k = Some (c, d, False)"
  by (simp add: TryGet_def GetInternal_def)

lemma Get_TryGet: "Get ops d c k = map_option (\<lambda>(c', v, _). (c', v)) (TryGet ops d c k)"
  by (simp add: Get_def TryGet_def split: option.splits)

lemma Update_ok:
  assumes ok: "cache_ok pinv keys c" and f: "FindElem c k = Some w"
  shows "\<exists>c'. Update ops c k v = Some c' \<and> cache_ok pinv keys c' \<and>
    FindElem c' = (FindElem c)(k \<mapsto> v) \<and> erase_log c' = erase_log c"
proof -
  obtain p' where "Touch_op ops (cache_policy_obj c) k = Some p'"
    and p': "cache_ok pinv keys (c\<lparr>cache_policy_obj := p'\<rparr>)" using touched_ok [OF assms] .
  moreover have "k \<in> fst ` set (cache_items_map c)" using f by (rule FindElem_Some)
  ultimately show ?thesis
    by (auto simp: Update_def cache_ok_def FindElem_eq length_dm_put)
qed

lemma Insert_ok_cache:
  assumes ok: "cache_ok pinv keys c" and f: "FindElem c k = None"
    and room: "length (cache_items_map c) < max_cache_size c"
  shows "cache_ok pinv keys (Insert ops c k v) \<and> FindElem (Insert ops c k v) = (FindElem c)(k \<mapsto> v)
    \<and> erase_log (Insert ops c k v) = erase_log c"
proof -
  note D = cache_okD [OF ok]
  have k: "k \<notin> fst ` set (cache_items_map c)" using f by (simp add: FindElem_None)
  then have "pinv (Insert_op ops (cache_policy_obj c) k)"
    "set (keys (Insert_op ops (cache_policy_obj c) k)) = insert k (set (keys (cache_policy_obj c)))"
    using Insert_ok [OF D(1)] D(3) by simp_all
  moreover have "dm_emplace k v (cache_items_map c) = dm_put k v (cache_items_map c)"
    using f by (simp add: FindElem_def dm_emplace_new)
  ultimately show ?thesis using D room k
    by (simp add: Insert_def cache_ok_def FindElem_eq length_dm_put)
qed

text \<open>The three ways a \<open>Put\<close> goes.\<close>

lemma Put_hit:
  assumes "cache_ok pinv keys c" and "FindElem c k = Some w"
  shows "\<exists>c'. Put ops c k v = Some c' \<and> cache_ok pinv keys c' \<and>
    FindElem c' = (FindElem c)(k \<mapsto> v) \<and> erase_log c' = erase_log c"
  using Update_ok [OF assms] assms(2) by (simp add: Put_def)

lemma Put_room:
  assumes "cache_ok pinv keys c" and "FindElem c k = None"
    and "length (cache_items_map c) < max_cache_size c"
  shows "\<exists>c'. Put ops c k v = Some c' \<and> cache_ok pinv keys c' \<and>
    FindElem c' = (FindElem c)(k \<mapsto> v) \<and> erase_log c' = erase_log c"
  using Insert_ok_cache [OF assms] assms(2,3) by (simp add: Put_def)

lemma Put_full:
  assumes ok: "cache_ok pinv keys c" and f: "FindElem c k = None"
    and full: "length (cache_items_map c) = max_cache_size c"
  shows "\<exists>c' k0 v0. Put ops c k v = Some c' \<and> cache_ok pinv keys c' \<and>
    ReplCandidate_op ops (cache_policy_obj c) = Some k0 \<and> FindElem c k0 = Some v0 \<and>
    FindElem c' = (FindElem c)(k0 := None, k \<mapsto> v) \<and> erase_log c' = erase_log c @ [(k0, v0)]"
proof -
  note D = cache_okD [OF ok]
  have "keys (cache_policy_obj c) \<noteq> []" using D full by auto
  then obtain k0 where k0: "ReplCandidate_op ops (cache_policy_obj c) = Some k0"
    "k0 \<in> fst ` set (cache_items_map c)" using ReplCandidate_ok [OF D(1)] D(3) by auto
  then obtain v0 where v0: "FindElem c k0 = Some v0" by (metis FindElem_None not_None_eq)
  obtain c1 where c1: "Erase ops c k0 = Some c1" "cache_ok pinv keys c1"
    "FindElem c1 = (FindElem c)(k0 := None)" "erase_log c1 = erase_log c @ [(k0, v0)]"
    "length (cache_items_map c1) < max_cache_size c1"
    using Erase_elem_ok [OF ok v0] v0 by (auto simp: Erase_def Let_def)
  have "FindElem c1 k = None" using c1(3) f by simp
  note ins = Insert_ok_cache [OF c1(2) this c1(5), of v]
  have "Put ops c k v = Some (Insert ops c1 k v)"
    using f full k0(1) c1(1) by (simp add: Put_def)
  then show ?thesis using ins k0(1) v0 c1(3,4) by auto
qed

lemma Put_never_undefined:
  assumes ok: "cache_ok pinv keys c"
  shows "\<exists>c'. Put ops c k v = Some c' \<and> cache_ok pinv keys c' \<and> FindElem c' k = Some v"
proof (cases "FindElem c k")
  case None
  show ?thesis
  proof (cases "length (cache_items_map c) < max_cache_size c")
    case True
    then show ?thesis using Put_room [OF ok None True, of v] by auto
  next
    case False
    then have "length (cache_items_map c) = max_cache_size c" using cache_okD [OF ok] by simp
    then show ?thesis using Put_full [OF ok None, of v] by auto
  qed
next
  case (Some w)
  then show ?thesis using Put_hit [OF ok Some, of v] by auto
qed

lemma ClearWithCallback_ok:
  assumes "cache_ok pinv keys c"
  shows "\<exists>c'. ClearWithCallback ops c = Some c' \<and> cache_items_map c' = [] \<and> cache_ok pinv keys c' \<and>
    mset (erase_log c') = mset (erase_log c) + mset (cache_items_map c)"
  using assms
proof (induction "length (cache_items_map c)" arbitrary: c)
  case 0
  then show ?case by (simp add: ClearWithCallback.simps [of ops c])
next
  case (Suc n)
  note D = cache_okD [OF Suc.prems]
  obtain kv rest where m: "cache_items_map c = kv # rest" using Suc.hyps(2)
    by (cases "cache_items_map c") auto
  then have f: "FindElem c (fst kv) = Some (snd kv)" by (simp add: FindElem_def)
  obtain c1 where c1: "Erase_elem ops c (fst kv, snd kv) = Some c1" "cache_ok pinv keys c1"
    "erase_log c1 = erase_log c @ [kv]"
    "cache_items_map c1 = dm_erase (fst kv) (cache_items_map c)"
    using Erase_elem_ok [OF Suc.prems f] by (auto simp: Let_def)
  have e: "cache_items_map c1 = swap_remove 0 (kv # rest)"
    using m by (simp add: c1(4) dm_erase_def)
  then have "n = length (cache_items_map c1)" using Suc.hyps(2) m by (simp add: length_swap_remove)
  from Suc.hyps(1) [OF this c1(2)] show ?case
    using c1(1,3) m mset_swap_remove [of 0 "kv # rest"] e
    by (auto simp: ClearWithCallback.simps [of ops c])
qed

end

section \<open>LRU: the cache as a list in order of use\<close>

type_synonym ('k, 'v) lru_cache = "('k, 'v, 'k LRUCachePolicy) cache"

definition lru_cache_new :: "nat \<Rightarrow> ('k, 'v) lru_cache" where
  "lru_cache_new max_size = cache_new max_size LRUCachePolicy_new"

abbreviation lru_ok :: "('k, 'v) lru_cache \<Rightarrow> bool" where
  "lru_ok \<equiv> cache_ok lru_inv lru_keys"

text \<open>What the cache holds, most recently used first.\<close>

definition lru_view :: "('k, 'v) lru_cache \<Rightarrow> ('k \<times> 'v) list" where
  "lru_view c = map (\<lambda>k. (k, the (FindElem c k))) (lru_keys (cache_policy_obj c))"

text \<open>The specification: plain functions on such a list.\<close>

definition spec_drop :: "'k \<Rightarrow> ('k \<times> 'v) list \<Rightarrow> ('k \<times> 'v) list" where
  "spec_drop k xs = filter (\<lambda>p. fst p \<noteq> k) xs"

definition spec_put :: "nat \<Rightarrow> 'k \<Rightarrow> 'v \<Rightarrow> ('k \<times> 'v) list \<Rightarrow> ('k \<times> 'v) list" where
  "spec_put cap k v xs = take cap ((k, v) # spec_drop k xs)"

definition spec_touch :: "'k \<Rightarrow> ('k \<times> 'v) list \<Rightarrow> ('k \<times> 'v) list" where
  "spec_touch k xs = (case map_of xs k of None \<Rightarrow> xs | Some v \<Rightarrow> (k, v) # spec_drop k xs)"

lemma lru_cache_new_ok [simp]: "lru_ok (lru_cache_new n)" "lru_view (lru_cache_new n) = []"
  by (simp_all add: lru_cache_new_def cache_new_def cache_ok_def lru_view_def)

lemma map_of_view: "map_of (map (\<lambda>k. (k, the (f k))) ks) k =
    (if k \<in> set ks then Some (the (f k)) else None)"
  by (induction ks) auto

lemma lru_view_lookup:
  assumes "lru_ok c"
  shows "map_of (lru_view c) k = FindElem c k"
proof -
  have "k \<in> set (lru_keys (cache_policy_obj c)) \<longleftrightarrow> FindElem c k \<noteq> None"
    using cache_okD(3) [OF assms] by (simp add: FindElem_None)
  then show ?thesis by (auto simp: lru_view_def map_of_view)
qed

lemma lru_view_length:
  assumes "lru_ok c" shows "length (lru_view c) = Size c"
proof -
  note D = cache_okD [OF assms]
  have "card (set (lru_keys (cache_policy_obj c))) = card (set (map fst (cache_items_map c)))"
    using D(3) by simp
  then show ?thesis using lru_distinct [OF D(1)] D(2)
    by (simp only: distinct_card dm_inv_def Size_def length_map lru_view_def)
qed

lemma view_cong: "(\<And>k. k \<in> set ks \<Longrightarrow> f k = g k) \<Longrightarrow>
   map (\<lambda>k. (k, the (f k))) ks = map (\<lambda>k. (k, the (g k))) ks"
  by auto

lemma spec_drop_view: "spec_drop k (map (\<lambda>k. (k, the (f k))) ks) =
   map (\<lambda>k. (k, the (f k))) (filter (\<lambda>x. x \<noteq> k) ks)"
  by (simp add: spec_drop_def filter_map o_def)

lemma filter_not_last: "distinct xs \<Longrightarrow> xs \<noteq> [] \<Longrightarrow> filter (\<lambda>x. x \<noteq> last xs) xs = butlast xs"
  by (induction xs rule: rev_induct) (auto simp: filter_id_conv)

lemma spec_drop_absent: "map_of xs k = None \<Longrightarrow> spec_drop k xs = xs"
  by (auto simp: spec_drop_def filter_id_conv map_of_eq_None_iff)

lemma spec_drop_length: "map_of xs k \<noteq> None \<Longrightarrow> length (spec_drop k xs) < length xs"
  unfolding spec_drop_def using length_filter_less [of _ xs "\<lambda>p. fst p \<noteq> k"]
  by (auto dest!: map_of_SomeD)

lemma LRU_ops_simps [simp]: "Insert_op LRU_ops = LRU_Insert" "Touch_op LRU_ops = LRU_Touch"
  "Erase_op LRU_ops = LRU_Erase" "ReplCandidate_op LRU_ops = LRU_ReplCandidate"
  by (simp_all add: LRU_ops_def)

lemma lru_touch_view:
  assumes ok: "lru_ok c" and f: "FindElem c k = Some w"
  shows "\<exists>p'. LRU_Touch (cache_policy_obj c) k = Some p' \<and>
    lru_keys p' = k # filter (\<lambda>x. x \<noteq> k) (lru_keys (cache_policy_obj c))"
  using LRU_Touch_keys cache_okD(1,3) [OF ok] FindElem_Some [OF f] by metis

lemma lru_update_view:
  assumes ok: "lru_ok c" and f: "FindElem c k = Some w" and u: "Update LRU_ops c k v = Some c'"
  shows "lru_view c' = (k, v) # spec_drop k (lru_view c)"
proof -
  obtain p' where p': "LRU_Touch (cache_policy_obj c) k = Some p'"
    "lru_keys p' = k # filter (\<lambda>x. x \<noteq> k) (lru_keys (cache_policy_obj c))"
    using lru_touch_view [OF ok f] by blast
  then have "c' = c\<lparr>cache_policy_obj := p', cache_items_map := dm_put k v (cache_items_map c)\<rparr>"
    using u by (simp add: Update_def)
  then show ?thesis using p'(2)
    by (simp add: lru_view_def spec_drop_view FindElem_eq)
qed

lemma lru_erase_view:
  assumes ok: "lru_ok c" and f: "FindElem c k = Some w" and e: "Erase_elem LRU_ops c (k, w) = Some c'"
  shows "lru_view c' = spec_drop k (lru_view c)"
proof -
  obtain p' where p': "LRU_Erase (cache_policy_obj c) k = Some p'"
    "lru_keys p' = filter (\<lambda>x. x \<noteq> k) (lru_keys (cache_policy_obj c))"
    using LRU_Erase_keys cache_okD(1,3) [OF ok] FindElem_Some [OF f] by metis
  then show ?thesis using e cache_okD(2) [OF ok]
    by (auto simp: Erase_elem_def lru_view_def spec_drop_view FindElem_eq)
qed

lemma lru_insert_view:
  assumes ok: "lru_ok c" and f: "FindElem c k = None"
  shows "lru_view (Insert LRU_ops c k v) = (k, v) # lru_view c"
proof -
  have "k \<notin> set (lru_keys (cache_policy_obj c))"
    using cache_okD(3) [OF ok] f by (simp add: FindElem_None)
  then show ?thesis using f
    by (auto simp: Insert_def lru_view_def LRU_Insert_keys FindElem_eq dm_emplace_new)
qed

lemma lru_put_full_view:
  assumes ok: "lru_ok c" and f: "FindElem c k = None" and full: "Size c = max_cache_size c"
    and put: "Put LRU_ops c k v = Some c'"
  shows "lru_view c' = (k, v) # butlast (lru_view c)"
proof -
  note D = cache_okD [OF ok]
  let ?ks = "lru_keys (cache_policy_obj c)"
  have ks: "?ks \<noteq> []" using D full by (auto simp: Size_def)
  then have "last ?ks \<in> set ?ks" by simp
  then obtain w where w: "FindElem c (last ?ks) = Some w"
    using D(3) by (metis FindElem_None not_None_eq)
  obtain c1 where e: "Erase_elem LRU_ops c (last ?ks, w) = Some c1" "lru_ok c1"
    "FindElem c1 = (FindElem c)(last ?ks := None)"
    using lru.Erase_elem_ok [OF ok w] by (auto simp: Let_def)
  have v: "lru_view c1 = butlast (lru_view c)"
    using lru_erase_view [OF ok w e(1)] filter_not_last [OF lru_distinct [OF D(1)] ks]
    by (simp add: lru_view_def spec_drop_view map_butlast)
  have "c' = Insert LRU_ops c1 k v"
    using put f full ks e(1) w
    by (simp add: Put_def Size_def Erase_def LRU_ReplCandidate_keys)
  then show ?thesis using lru_insert_view [OF e(2), of k v] f e(3) v by simp
qed

lemma lru_put_view:
  assumes ok: "lru_ok c"
  shows "\<exists>c'. Put LRU_ops c k v = Some c' \<and> lru_ok c' \<and>
    lru_view c' = spec_put (max_cache_size c) k v (lru_view c) \<and>
    max_cache_size c' = max_cache_size c"
proof -
  obtain c' where c': "Put LRU_ops c k v = Some c'" "lru_ok c'"
    using lru.Put_never_undefined [OF ok] by blast
  have len: "length (lru_view c) \<le> max_cache_size c" "1 \<le> max_cache_size c"
    using lru_view_length [OF ok] cache_okD(4,5) [OF ok] by (simp_all add: Size_def)
  have "lru_view c' = spec_put (max_cache_size c) k v (lru_view c)"
  proof (cases "FindElem c k")
    case None
    note d = spec_drop_absent [of "lru_view c" k, unfolded lru_view_lookup [OF ok], OF None]
    show ?thesis
    proof (cases "Size c < max_cache_size c")
      case True
      then have "c' = Insert LRU_ops c k v" using c'(1) None by (simp add: Put_def Size_def)
      then show ?thesis
        using lru_insert_view [OF ok None] True lru_view_length [OF ok] d
        by (simp add: spec_put_def)
    next
      case False
      then have full: "Size c = max_cache_size c" using cache_okD(4) [OF ok] by (simp add: Size_def)
      then show ?thesis
        using lru_put_full_view [OF ok None full c'(1)] d len lru_view_length [OF ok]
        by (simp add: spec_put_def take_Cons' butlast_conv_take)
    qed
  next
    case (Some w)
    then have "Update LRU_ops c k v = Some c'" using c'(1) by (simp add: Put_def)
    moreover have "length (spec_drop k (lru_view c)) < max_cache_size c"
      using spec_drop_length [of "lru_view c" k] Some lru_view_lookup [OF ok] len(1) by fastforce
    ultimately show ?thesis using lru_update_view [OF ok Some] by (simp add: spec_put_def)
  qed
  moreover have "max_cache_size c' = max_cache_size c" using c'(1)
    by (auto simp: Put_def Update_def Insert_def Erase_def Erase_elem_def split: option.splits if_splits)
  ultimately show ?thesis using c' by blast
qed

lemma lru_get_view:
  assumes ok: "lru_ok c"
  shows "\<exists>c' x b. TryGet LRU_ops d c k = Some (c', x, b) \<and> lru_ok c' \<and>
    (b \<longleftrightarrow> FindElem c k \<noteq> None) \<and> x = (case FindElem c k of None \<Rightarrow> d | Some v \<Rightarrow> v) \<and>
    lru_view c' = spec_touch k (lru_view c) \<and> max_cache_size c' = max_cache_size c \<and>
    FindElem c' = FindElem c"
proof (cases "FindElem c k")
  case None
  then show ?thesis using ok lru.TryGet_miss [OF None] lru_view_lookup [OF ok]
    by (auto simp: spec_touch_def)
next
  case (Some v)
  obtain p' where p': "LRU_Touch (cache_policy_obj c) k = Some p'"
    "lru_keys p' = k # filter (\<lambda>x. x \<noteq> k) (lru_keys (cache_policy_obj c))"
    using lru_touch_view [OF ok Some] by blast
  obtain c' where c': "TryGet LRU_ops d c k = Some (c', v, True)" "lru_ok c'"
    using lru.TryGet_hit [OF ok Some] by blast
  then have e: "c' = c\<lparr>cache_policy_obj := p'\<rparr>"
    using p'(1) Some by (simp add: TryGet_def GetInternal_def)
  have "lru_view c' = (k, v) # spec_drop k (lru_view c)"
    using p'(2) Some by (simp add: e lru_view_def spec_drop_view FindElem_eq)
  then show ?thesis using c' e Some lru_view_lookup [OF ok]
    by (auto simp: spec_touch_def FindElem_eq)
qed

lemma lru_pop_view:
  assumes ok: "lru_ok c"
  shows "\<exists>c' x b. Pop LRU_ops d c k = Some (c', x, b) \<and> lru_ok c' \<and>
    lru_view c' = spec_drop k (lru_view c) \<and> max_cache_size c' = max_cache_size c"
proof (cases "FindElem c k")
  case None
  then show ?thesis using ok lru.Pop_miss [OF None] spec_drop_absent lru_view_lookup [OF ok]
    by (metis (no_types))
next
  case (Some v)
  obtain c1 p' where e: "LRU_Erase (cache_policy_obj c) k = Some p'"
    "Erase_elem LRU_ops c (k, v) = Some c1"
    "c1 = c\<lparr>cache_policy_obj := p', erase_log := erase_log c @ [(k, v)],
       cache_items_map := dm_erase k (cache_items_map c)\<rparr>"
    using lru.Erase_elem_ok [OF ok Some] by (auto simp: Let_def)
  obtain c' where c': "Pop LRU_ops d c k = Some (c', v, True)" "lru_ok c'"
    using lru.Pop_hit [OF ok Some] by blast
  then have "c' = c\<lparr>cache_policy_obj := p', cache_items_map := dm_erase k (cache_items_map c)\<rparr>"
    using e(1) Some by (simp add: Pop_def)
  then have "lru_view c' = lru_view c1" "max_cache_size c' = max_cache_size c"
    by (simp_all add: e(3) lru_view_def FindElem_eq)
  then show ?thesis using c' lru_erase_view [OF ok Some e(2)] by auto
qed

lemma lru_remove_view:
  assumes ok: "lru_ok c"
  shows "\<exists>c' b. Remove LRU_ops c k = Some (c', b) \<and> lru_ok c' \<and>
    lru_view c' = spec_drop k (lru_view c) \<and> max_cache_size c' = max_cache_size c"
proof (cases "FindElem c k")
  case None
  then show ?thesis using ok lru.Remove_miss [OF None] spec_drop_absent lru_view_lookup [OF ok]
    by (metis (no_types))
next
  case (Some v)
  then obtain c1 where "Erase_elem LRU_ops c (k, v) = Some c1" "lru_ok c1"
    "max_cache_size c1 = max_cache_size c"
    using lru.Erase_elem_ok [OF ok Some] by (auto simp: Let_def)
  then show ?thesis using lru_erase_view [OF ok Some] Some by (auto simp: Remove_def)
qed

lemma ClearWithCallback_size: "ClearWithCallback ops c = Some c' \<Longrightarrow>
   max_cache_size c' = max_cache_size c"
proof (induction ops c rule: ClearWithCallback.induct)
  case (1 ops c)
  then show ?case
    by (auto simp: ClearWithCallback.simps [of ops c] Erase_elem_def
        split: list.splits option.splits)
qed

lemma lru_view_empty: "cache_items_map c = [] \<Longrightarrow> lru_ok c \<Longrightarrow> lru_view c = []"
  using lru_view_length [of c] by (simp add: Size_def)

section \<open>Sequences of operations\<close>

datatype ('k, 'v) cache_cmd = CPut 'k 'v | CGet 'k | CPop 'k | CRemove 'k | CClear

fun cache_step :: "('k, 'p) policy_ops \<Rightarrow> 'v \<Rightarrow> ('k, 'v, 'p) cache \<Rightarrow> ('k, 'v) cache_cmd \<Rightarrow>
    ('k, 'v, 'p) cache option" where
  "cache_step ops d c (CPut k v) = Put ops c k v"
| "cache_step ops d c (CGet k) = map_option fst (TryGet ops d c k)"
| "cache_step ops d c (CPop k) = map_option fst (Pop ops d c k)"
| "cache_step ops d c (CRemove k) = map_option fst (Remove ops c k)"
| "cache_step ops d c CClear = ClearWithCallback ops c"

fun cache_run :: "('k, 'p) policy_ops \<Rightarrow> 'v \<Rightarrow> ('k, 'v, 'p) cache \<Rightarrow> ('k, 'v) cache_cmd list \<Rightarrow>
    ('k, 'v, 'p) cache option" where
  "cache_run ops d c [] = Some c"
| "cache_run ops d c (x # xs) = (case cache_step ops d c x of None \<Rightarrow> None
     | Some c' \<Rightarrow> cache_run ops d c' xs)"

fun spec_step :: "nat \<Rightarrow> ('k \<times> 'v) list \<Rightarrow> ('k, 'v) cache_cmd \<Rightarrow> ('k \<times> 'v) list" where
  "spec_step cap xs (CPut k v) = spec_put cap k v xs"
| "spec_step cap xs (CGet k) = spec_touch k xs"
| "spec_step cap xs (CPop k) = spec_drop k xs"
| "spec_step cap xs (CRemove k) = spec_drop k xs"
| "spec_step cap xs CClear = []"

lemma lru_step_refines:
  assumes "lru_ok c"
  shows "\<exists>c'. cache_step LRU_ops d c x = Some c' \<and> lru_ok c' \<and>
    lru_view c' = spec_step (max_cache_size c) (lru_view c) x \<and>
    max_cache_size c' = max_cache_size c"
proof (cases x)
  case (CPut k v)
  then show ?thesis using lru_put_view [OF assms] by simp
next
  case (CGet k)
  then show ?thesis using lru_get_view [OF assms, of d k] by auto
next
  case (CPop k)
  then show ?thesis using lru_pop_view [OF assms, of d k] by auto
next
  case (CRemove k)
  then show ?thesis using lru_remove_view [OF assms, of k] by auto
next
  case CClear
  then show ?thesis
    using lru.ClearWithCallback_ok [OF assms] lru_view_empty ClearWithCallback_size by fastforce
qed

lemma lru_run_refines:
  "lru_ok c \<Longrightarrow> \<exists>c'. cache_run LRU_ops d c xs = Some c' \<and> lru_ok c' \<and>
    lru_view c' = foldl (spec_step (max_cache_size c)) (lru_view c) xs \<and>
    max_cache_size c' = max_cache_size c"
proof (induction xs arbitrary: c)
  case (Cons x xs)
  obtain c1 where c1: "cache_step LRU_ops d c x = Some c1" "lru_ok c1"
    "lru_view c1 = spec_step (max_cache_size c) (lru_view c) x"
    "max_cache_size c1 = max_cache_size c"
    using lru_step_refines [OF Cons.prems] by blast
  then show ?case using Cons.IH [OF c1(2)] by simp
qed simp

text \<open>C19: The LRU cache refines its specification. Whatever sequence of Put, TryGet, Pop, Remove
  and ClearWithCallback is run on a fresh cache, no step meets an iterator or a list end that does
  not exist, and the contents, in order of use, are those of the plain list on which a Put moves the
  pair to the front and cuts the list to the capacity, a hit of TryGet moves the pair to the front,
  and Pop and Remove drop the pair; a capacity of 0 counts as 1.\<close>

theorem lru_cache_refines_spec:
  "\<exists>c. cache_run LRU_ops d (lru_cache_new n) xs = Some c \<and>
     lru_view c = foldl (spec_step (max n 1)) [] xs \<and> Size c \<le> max n 1"
proof -
  have m: "max_cache_size (lru_cache_new n) = max n 1"
    by (simp add: lru_cache_new_def cache_new_def max_def)
  obtain c where c: "cache_run LRU_ops d (lru_cache_new n) xs = Some c" "lru_ok c"
    "lru_view c = foldl (spec_step (max n 1)) [] xs" "max_cache_size c = max n 1"
    using lru_run_refines [OF lru_cache_new_ok(1), of d n xs] by (auto simp: m)
  then show ?thesis using cache_okD(4) [OF c(2)] by (auto simp: Size_def)
qed

section \<open>FIFO and LFU caches\<close>

abbreviation fifo_ok :: "('k, 'v, 'k FIFOCachePolicy) cache \<Rightarrow> bool" where
  "fifo_ok \<equiv> cache_ok fifo_inv fifo_keys"

abbreviation lfu_ok :: "('k, 'v, 'k LFUCachePolicy) cache \<Rightarrow> bool" where
  "lfu_ok \<equiv> cache_ok lfu_inv lfu_keys"

lemma FIFO_ops_simps [simp]: "Insert_op FIFO_ops = FIFO_Insert" "Touch_op FIFO_ops = FIFO_Touch"
  "Erase_op FIFO_ops = FIFO_Erase" "ReplCandidate_op FIFO_ops = FIFO_ReplCandidate"
  by (simp_all add: FIFO_ops_def)

lemma fifo_put_full_keys:
  assumes ok: "fifo_ok c" and f: "FindElem c k = None" and full: "Size c = max_cache_size c"
    and put: "Put FIFO_ops c k v = Some c'"
  shows "fifo_keys (cache_policy_obj c') = k # butlast (fifo_keys (cache_policy_obj c))"
proof -
  note D = cache_okD [OF ok]
  let ?ks = "fifo_keys (cache_policy_obj c)"
  have ks: "?ks \<noteq> []" using D full by (auto simp: Size_def)
  have last: "last ?ks \<in> set ?ks" using ks by simp
  then obtain w where w: "FindElem c (last ?ks) = Some w"
    using D(3) by (metis FindElem_None not_None_eq)
  obtain p' where p': "FIFO_Erase (cache_policy_obj c) (last ?ks) = Some p'"
    "fifo_keys p' = filter (\<lambda>x. x \<noteq> last ?ks) ?ks"
    using FIFO_Erase_keys [OF D(1) last] by blast
  then have "fifo_keys p' = butlast ?ks" using filter_not_last [OF fifo.distinct_keys [OF D(1)] ks]
    by simp
  then show ?thesis using put f full ks w p'(1)
    by (auto simp: Put_def Size_def Erase_def Erase_elem_def FIFO_ReplCandidate_keys Insert_def
        FIFO_Insert_keys)
qed

text \<open>FIFO order. A Put always succeeds and leaves the value readable; for a key that the
  cache holds it leaves the order of the keys as it was, and for a new key it makes the key the
  newest and, in a full cache, displaces exactly the oldest.\<close>

theorem fifo_evicts_oldest:
  assumes ok: "fifo_ok c"
  shows "\<exists>c'. Put FIFO_ops c k v = Some c' \<and> fifo_ok c' \<and> FindElem c' k = Some v \<and>
    fifo_keys (cache_policy_obj c') =
      (if FindElem c k \<noteq> None then fifo_keys (cache_policy_obj c)
       else if Size c < max_cache_size c then k # fifo_keys (cache_policy_obj c)
       else k # butlast (fifo_keys (cache_policy_obj c)))"
proof -
  obtain c' where c': "Put FIFO_ops c k v = Some c'" "fifo_ok c'" "FindElem c' k = Some v"
    using fifo.Put_never_undefined [OF ok] by blast
  consider (hit) w where "FindElem c k = Some w"
    | (room) "FindElem c k = None" "Size c < max_cache_size c"
    | (full) "FindElem c k = None" "Size c = max_cache_size c"
    using cache_okD(4) [OF ok] by (cases "FindElem c k") (auto simp: Size_def le_less)
  then have "fifo_keys (cache_policy_obj c') =
      (if FindElem c k \<noteq> None then fifo_keys (cache_policy_obj c)
       else if Size c < max_cache_size c then k # fifo_keys (cache_policy_obj c)
       else k # butlast (fifo_keys (cache_policy_obj c)))"
  proof cases
    case hit
    then show ?thesis using c'(1) by (auto simp: Put_def Update_def FIFO_Touch_def)
  next
    case room
    then show ?thesis using c'(1) by (auto simp: Put_def Size_def Insert_def FIFO_Insert_keys)
  next
    case full
    then show ?thesis using fifo_put_full_keys [OF ok full c'(1)] by simp
  qed
  then show ?thesis using c' by blast
qed

theorem fifo_evicts_oldest_witness:
  "\<exists>c'. Put FIFO_ops (cache_new 2 FIFOCachePolicy_new :: (nat, nat, nat FIFOCachePolicy) cache) 5 7
     = Some c' \<and> fifo_keys (cache_policy_obj c') = [5]"
proof -
  have "fifo_ok (cache_new 2 FIFOCachePolicy_new :: (nat, nat, nat FIFOCachePolicy) cache)"
    by (simp add: cache_ok_def cache_new_def)
  from fifo_evicts_oldest [OF this, of 5 7] show ?thesis
    by (auto simp: FindElem_def cache_new_def Size_def)
qed

text \<open>Frequencies under the operations of the LFU policy.\<close>

lemma map_of_insert_upper:
  "a \<notin> fst ` set q \<Longrightarrow> map_of (insert_upper (a, x) q) = (map_of q)(a \<mapsto> x)"
  by (induction q) (auto simp: fun_eq_iff)

lemma map_of_filter_fst: "map_of (filter (\<lambda>nd. fst nd \<noteq> a) q) = (map_of q)(a := None)"
  by (induction q) (auto simp: fun_eq_iff)

lemma lfu_freq_eq:
  assumes "lfu_inv p"
  shows "lfu_freq p k = Some f \<longleftrightarrow> (\<exists>a. (a, f, k) \<in> set (frequency_storage p))"
proof -
  have ok: "node_list_ok (lfu_nodes p) (lfu_storage p) (lfu_fresh p)"
    using assms by (simp add: lfu_inv_def)
  then have d: "distinct (map fst (frequency_storage p))"
    by (simp add: node_list_ok_def lfu_nodes_def o_def)
  have st: "lfu_storage p k = Some a \<longleftrightarrow> (\<exists>g. (a, g, k) \<in> set (frequency_storage p))" for a
  proof -
    have "(a, k) \<in> set (lfu_nodes p) \<longleftrightarrow> (\<exists>g. (a, g, k) \<in> set (frequency_storage p))"
      by (auto simp: lfu_nodes_def intro: rev_image_eqI)
    then show ?thesis using ok by (simp add: node_list_ok_def)
  qed
  have "lfu_freq p k = Some f \<longleftrightarrow> (\<exists>a g. lfu_storage p k = Some a \<and>
      map_of (frequency_storage p) a = Some (f, g))"
    by (cases "lfu_storage p k") (auto simp: lfu_freq_def)
  also have "\<dots> \<longleftrightarrow> (\<exists>a. (a, f, k) \<in> set (frequency_storage p))"
  proof
    assume "\<exists>a g. lfu_storage p k = Some a \<and> map_of (frequency_storage p) a = Some (f, g)"
    then obtain a g g' where "(a, f, g) \<in> set (frequency_storage p)"
      "(a, g', k) \<in> set (frequency_storage p)" using st map_of_SomeD by fast
    with eq_key_imp_eq_value [OF d this] show "\<exists>a. (a, f, k) \<in> set (frequency_storage p)" by blast
  next
    assume "\<exists>a. (a, f, k) \<in> set (frequency_storage p)"
    then obtain a where a: "(a, f, k) \<in> set (frequency_storage p)" by blast
    then have "lfu_storage p k = Some a" using st by blast
    with map_of_is_SomeI [OF d a]
    show "\<exists>a g. lfu_storage p k = Some a \<and> map_of (frequency_storage p) a = Some (f, g)" by blast
  qed
  finally show ?thesis .
qed

lemma lfu_candidate_minimal:
  assumes "lfu_inv p" and "LFU_ReplCandidate p = Some k0" and "lfu_freq p k = Some f"
  shows "\<exists>f0. lfu_freq p k0 = Some f0 \<and> f0 \<le> f"
proof -
  obtain a f0 rest where q: "frequency_storage p = (a, f0, k0) # rest"
    using assms(2) by (auto simp: LFU_ReplCandidate_def split: list.splits)
  then have "lfu_freq p k0 = Some f0" using lfu_freq_eq [OF assms(1)] by auto
  moreover have "f0 \<le> f"
    using assms(1,3) lfu_freq_eq [OF assms(1), of k f] q by (fastforce simp: lfu_inv_def)
  ultimately show ?thesis by blast
qed

lemma LFU_ops_simps [simp]: "Insert_op LFU_ops = LFU_Insert" "Touch_op LFU_ops = LFU_Touch"
  "Erase_op LFU_ops = LFU_Erase" "ReplCandidate_op LFU_ops = LFU_ReplCandidate"
  by (simp_all add: LFU_ops_def)

lemma lfu_touch_freq:
  assumes inv: "lfu_inv p" and k: "lfu_freq p k = Some f"
  shows "\<exists>p'. LFU_Touch p k = Some p' \<and> lfu_inv p' \<and> lfu_freq p' = (lfu_freq p)(k \<mapsto> f + 1)"
proof -
  have kin: "k \<in> set (lfu_keys p)" using k lfu_freq_eq [OF inv] by (force simp: lfu_keys_def)
  obtain p' where p': "LFU_Touch p k = Some p'" "lfu_inv p'" using LFU_Touch_keys [OF inv kin] by blast
  have ok: "node_list_ok (lfu_nodes p) (lfu_storage p) (lfu_fresh p)"
    using inv by (simp add: lfu_inv_def)
  obtain a g where a: "lfu_storage p k = Some a" "map_of (frequency_storage p) a = Some (g, k)"
    "(a, k) \<in> set (lfu_nodes p)" using lfuE [OF inv kin] .
  have g: "g = f" using k a by (simp add: lfu_freq_def)
  have s: "set (frequency_storage p') =
      insert (lfu_fresh p, f + 1, k) {nd \<in> set (frequency_storage p). fst nd \<noteq> a}"
    using p'(1) a g by (auto simp: LFU_Touch_def)
  have u: "b = a \<longleftrightarrow> x = k" if "(b, h, x) \<in> set (frequency_storage p)" for b h x
    using node_unique [OF ok a(3), of b x] that by (force simp: lfu_nodes_def)
  have "lfu_freq p' x = Some h \<longleftrightarrow> ((lfu_freq p)(k \<mapsto> f + 1)) x = Some h" for x h
    using u by (cases "x = k") (auto simp: lfu_freq_eq [OF p'(2)] lfu_freq_eq [OF inv] s)
  then have "lfu_freq p' = (lfu_freq p)(k \<mapsto> f + 1)" by (metis not_Some_eq ext)
  with p' show ?thesis by blast
qed

text \<open>LFU order. A hit adds one to the use count of its key and of no other, and a Put of a new
  key into a full LFU cache succeeds and displaces one key, whose use count is not above that of any
  other key.\<close>

theorem lfu_evicts_least_used:
  assumes ok: "lfu_ok c" and k: "FindElem c k = None" and full: "Size c = max_cache_size c"
  shows "(\<forall>j f. lfu_freq (cache_policy_obj c) j = Some f \<longrightarrow> (\<exists>c' v. TryGet LFU_ops d c j = Some (c', v, True) \<and>
       lfu_freq (cache_policy_obj c') = (lfu_freq (cache_policy_obj c))(j \<mapsto> f + 1))) \<and>
    (\<exists>c' k0 v0. Put LFU_ops c k v = Some c' \<and> FindElem c k0 = Some v0 \<and>
      FindElem c' = (FindElem c)(k0 := None, k \<mapsto> v) \<and>
      (\<forall>j f. lfu_freq (cache_policy_obj c) j = Some f \<longrightarrow>
        (\<exists>f0. lfu_freq (cache_policy_obj c) k0 = Some f0 \<and> f0 \<le> f)))"
proof (intro conjI allI impI)
  note D = cache_okD [OF ok]
  fix j f
  assume j: "lfu_freq (cache_policy_obj c) j = Some f"
  obtain p' where p': "LFU_Touch (cache_policy_obj c) j = Some p'"
    "lfu_freq p' = (lfu_freq (cache_policy_obj c))(j \<mapsto> f + 1)"
    using lfu_touch_freq [OF D(1) j] by blast
  have "j \<in> set (lfu_keys (cache_policy_obj c))"
    using j lfu_freq_eq [OF D(1)] by (force simp: lfu_keys_def)
  then obtain v where "FindElem c j = Some v" using D(3) by (metis FindElem_None not_None_eq)
  then show "\<exists>c' v. TryGet LFU_ops d c j = Some (c', v, True) \<and>
       lfu_freq (cache_policy_obj c') = (lfu_freq (cache_policy_obj c))(j \<mapsto> f + 1)"
    using p' by (simp add: TryGet_def GetInternal_def)
next
  have "length (cache_items_map c) = max_cache_size c" using full by (simp add: Size_def)
  from lfu.Put_full [OF ok k this, of v] show "\<exists>c' k0 v0. Put LFU_ops c k v = Some c' \<and>
      FindElem c k0 = Some v0 \<and> FindElem c' = (FindElem c)(k0 := None, k \<mapsto> v) \<and>
      (\<forall>j f. lfu_freq (cache_policy_obj c) j = Some f \<longrightarrow>
        (\<exists>f0. lfu_freq (cache_policy_obj c) k0 = Some f0 \<and> f0 \<le> f))"
    using lfu_candidate_minimal [OF cache_okD(1) [OF ok]] by (metis LFU_ops_simps(4))
qed

theorem lfu_evicts_least_used_witness:
  "\<exists>c' k0 v0. Put LFU_ops (the (Put LFU_ops
     (cache_new 1 LFUCachePolicy_new :: (nat, nat, nat LFUCachePolicy) cache) 3 4)) 5 6 = Some c' \<and>
     FindElem c' 5 = Some 6"
proof -
  let ?c0 = "cache_new 1 LFUCachePolicy_new :: (nat, nat, nat LFUCachePolicy) cache"
  have ok0: "lfu_ok ?c0" by (simp add: cache_ok_def cache_new_def)
  obtain c where c: "Put LFU_ops ?c0 3 4 = Some c" "lfu_ok c"
    using lfu.Put_never_undefined [OF ok0] by blast
  then have "FindElem c 5 = None" "Size c = max_cache_size c"
    by (auto simp: Put_def cache_new_def FindElem_def Insert_def dm_emplace_def Size_def)
  from lfu_evicts_least_used [OF c(2) this, of 0 6] show ?thesis using c(1) by auto
qed

text \<open>Clearing with the callback ends, empties the cache and calls the callback exactly once for
  every pair it held and for no other; afterwards the cache can be used again.\<close>

theorem clear_calls_back_once:
  assumes "lru_ok c"
  shows "\<exists>c'. ClearWithCallback LRU_ops c = Some c' \<and> Size c' = 0 \<and> lru_ok c' \<and>
    mset (erase_log c') = mset (erase_log c) + mset (cache_items_map c)"
  using lru.ClearWithCallback_ok [OF assms] by (auto simp: Size_def)

theorem clear_calls_back_once_witness:
  "\<exists>c c'. Put LRU_ops (lru_cache_new 4 :: (nat, nat) lru_cache) 1 2 = Some c \<and>
     ClearWithCallback LRU_ops c = Some c' \<and> mset (erase_log c') = {#(1, 2)#}"
proof -
  let ?c0 = "lru_cache_new 4 :: (nat, nat) lru_cache"
  have ok0: "lru_ok ?c0" by simp
  obtain c where c: "Put LRU_ops ?c0 1 2 = Some c" "lru_ok c"
    using lru.Put_never_undefined [OF ok0] by blast
  then have "cache_items_map c = [(1, 2)]" "erase_log c = []"
    by (auto simp: Put_def lru_cache_new_def cache_new_def FindElem_def Insert_def dm_emplace_def)
  with clear_calls_back_once [OF c(2)] c(1) show ?thesis by auto
qed

end
