(* ===== verification/Memo.thy ===== *)
theory Memo
  imports Cache
begin

text \<open>
  What the database and the scene cache rely on when they keep values in a cache: a lookup tells the
  truth and changes no entry, a put makes its entry and may drop others but invents none, a remove
  drops its entry only, and none of them is ever undefined. The locale states this contract and
  proves what its clients use, that a property of all entries survives every operation; the LRU cache
  of \<open>Cache\<close> provides it.
\<close>

locale memo_cache =
  fixes lookup :: "'c \<Rightarrow> 'k \<Rightarrow> 'v option"
    and ok :: "'c \<Rightarrow> bool"
    and try_get :: "'v \<Rightarrow> 'c \<Rightarrow> 'k \<Rightarrow> ('c \<times> 'v \<times> bool) option"
    and put :: "'c \<Rightarrow> 'k \<Rightarrow> 'v \<Rightarrow> 'c option"
    and remove :: "'c \<Rightarrow> 'k \<Rightarrow> ('c \<times> bool) option"
    and pop :: "'v \<Rightarrow> 'c \<Rightarrow> 'k \<Rightarrow> ('c \<times> 'v \<times> bool) option"
  assumes try_get_law: "ok c \<Longrightarrow> \<exists>c'. ok c' \<and> lookup c' = lookup c \<and> try_get d c k =
      Some (c', case lookup c k of Some v \<Rightarrow> v | None \<Rightarrow> d, lookup c k \<noteq> None)"
    and put_law: "ok c \<Longrightarrow> \<exists>c'. put c k v = Some c' \<and> ok c' \<and> lookup c' k = Some v \<and>
      (\<forall>j w. j \<noteq> k \<longrightarrow> lookup c' j = Some w \<longrightarrow> lookup c j = Some w)"
    and remove_law: "ok c \<Longrightarrow> \<exists>c'. remove c k = Some (c', lookup c k \<noteq> None) \<and> ok c' \<and>
      lookup c' = (lookup c)(k := None)"
    and pop_law: "ok c \<Longrightarrow> \<exists>c'. ok c' \<and> lookup c' = (lookup c)(k := None) \<and> pop d c k =
      Some (c', case lookup c k of Some v \<Rightarrow> v | None \<Rightarrow> d, lookup c k \<noteq> None)"
begin

definition holds :: "('k \<Rightarrow> 'v \<Rightarrow> bool) \<Rightarrow> 'c \<Rightarrow> bool" where
  "holds P c \<longleftrightarrow> (\<forall>k v. lookup c k = Some v \<longrightarrow> P k v)"

lemma holdsD: "holds P c \<Longrightarrow> lookup c k = Some v \<Longrightarrow> P k v"
  by (simp add: holds_def)

lemma holds_mono: "holds P c \<Longrightarrow> (\<And>k v. lookup c k = Some v \<Longrightarrow> P k v \<Longrightarrow> Q k v) \<Longrightarrow> holds Q c"
  by (simp add: holds_def)

lemma try_get_hit:
  assumes "ok c" "lookup c k = Some v"
  obtains c' where "try_get d c k = Some (c', v, True)" "ok c'" "lookup c' = lookup c"
  using try_get_law [OF assms(1), where d = d and k = k] assms(2) by auto

lemma try_get_miss:
  assumes "ok c" "lookup c k = None"
  obtains c' where "try_get d c k = Some (c', d, False)" "ok c'" "lookup c' = lookup c"
  using try_get_law [OF assms(1), where d = d and k = k] assms(2) by auto

lemma put_holds:
  assumes "ok c" "holds P c" "P k v"
  obtains c' where "put c k v = Some c'" "ok c'" "lookup c' k = Some v" "holds P c'"
proof -
  obtain c' where c': "put c k v = Some c'" "ok c'" "lookup c' k = Some v"
    "\<And>j w. j \<noteq> k \<Longrightarrow> lookup c' j = Some w \<Longrightarrow> lookup c j = Some w"
    using put_law [OF assms(1), of k v] by auto
  then have "holds P c'" unfolding holds_def
    by (metis assms(2,3) holdsD option.inject)
  with c' show ?thesis using that by blast
qed

lemma remove_holds:
  assumes "ok c" "holds P c"
  obtains c' b where "remove c k = Some (c', b)" "ok c'" "lookup c' k = None" "holds P c'"
proof -
  obtain c' where c': "remove c k = Some (c', lookup c k \<noteq> None)" "ok c'" "lookup c' = (lookup c)(k := None)"
    using remove_law [OF assms(1), of k] by auto
  then have "holds P c'" using assms(2) by (auto simp: holds_def)
  with c' show ?thesis using that by auto
qed

lemma pop_holds:
  assumes "ok c" "holds P c"
  obtains c' where "pop d c k = Some (c', case lookup c k of Some v \<Rightarrow> v | None \<Rightarrow> d, lookup c k \<noteq> None)"
    "ok c'" "lookup c' k = None" "holds P c'"
proof -
  obtain c' where c': "ok c'" "lookup c' = (lookup c)(k := None)"
    "pop d c k = Some (c', case lookup c k of Some v \<Rightarrow> v | None \<Rightarrow> d, lookup c k \<noteq> None)"
    using pop_law [OF assms(1), of k d] by auto
  then have "holds P c'" using assms(2) by (auto simp: holds_def)
  with c' show ?thesis using that by auto
qed

end

lemma lru_put_lookup:
  assumes ok: "lru_ok c"
  shows "\<exists>c'. Put LRU_ops c k v = Some c' \<and> lru_ok c' \<and> FindElem c' k = Some v \<and>
    (\<forall>j w. j \<noteq> k \<longrightarrow> FindElem c' j = Some w \<longrightarrow> FindElem c j = Some w)"
proof (cases "FindElem c k")
  case None
  show ?thesis
  proof (cases "length (cache_items_map c) < max_cache_size c")
    case True
    then show ?thesis using lru.Put_room [OF ok None] by fastforce
  next
    case False
    then have "length (cache_items_map c) = max_cache_size c" using cache_okD(4) [OF ok] by simp
    from lru.Put_full [OF ok None this, of v] obtain c' k0 v0 where c': "Put LRU_ops c k v = Some c'" "lru_ok c'"
      "FindElem c' = (FindElem c)(k0 := None, k \<mapsto> v)" by blast
    then have "FindElem c j = Some w" if "j \<noteq> k" "FindElem c' j = Some w" for j w
      using that by (cases "j = k0") auto
    then show ?thesis using c' by (intro exI [of _ c']) auto
  qed
next
  case (Some w)
  then show ?thesis using lru.Put_hit [OF ok Some] by fastforce
qed

lemma lru_remove_lookup:
  assumes "lru_ok c"
  shows "\<exists>c'. Remove LRU_ops c k = Some (c', FindElem c k \<noteq> None) \<and> lru_ok c' \<and>
    FindElem c' = (FindElem c)(k := None)"
proof (cases "FindElem c k")
  case None
  moreover from None have "(FindElem c)(k := None) = FindElem c" by auto
  ultimately show ?thesis using lru.Remove_miss [OF None] assms by simp
next
  case (Some w)
  then show ?thesis using lru.Remove_hit [OF assms Some] by auto
qed

lemma lru_pop_lookup:
  assumes "lru_ok c"
  shows "\<exists>c'. lru_ok c' \<and> FindElem c' = (FindElem c)(k := None) \<and> Pop LRU_ops d c k =
    Some (c', case FindElem c k of Some v \<Rightarrow> v | None \<Rightarrow> d, FindElem c k \<noteq> None)"
proof (cases "FindElem c k")
  case None
  moreover from None have "(FindElem c)(k := None) = FindElem c" by auto
  ultimately show ?thesis using lru.Pop_miss [OF None] assms by simp
next
  case (Some w)
  then show ?thesis using lru.Pop_hit [OF assms Some, of d] by auto
qed

lemma lru_get_lookup:
  assumes "lru_ok c"
  shows "\<exists>c'. lru_ok c' \<and> FindElem c' = FindElem c \<and> TryGet LRU_ops d c k =
    Some (c', case FindElem c k of Some v \<Rightarrow> v | None \<Rightarrow> d, FindElem c k \<noteq> None)"
proof -
  obtain c' x b where "TryGet LRU_ops d c k = Some (c', x, b)" "lru_ok c'" "b \<longleftrightarrow> FindElem c k \<noteq> None"
    "x = (case FindElem c k of None \<Rightarrow> d | Some v \<Rightarrow> v)" "FindElem c' = FindElem c"
    using lru_get_view [OF assms, of d k] by blast
  then show ?thesis by (intro exI [of _ c']) simp
qed

interpretation memo: memo_cache FindElem lru_ok "TryGet LRU_ops" "Put LRU_ops" "Remove LRU_ops" "Pop LRU_ops"
  by unfold_locales (rule lru_get_lookup lru_put_lookup lru_remove_lookup lru_pop_lookup, assumption)+

end
