(* ===== verification/Uuid.thy ===== *)
theory Uuid
  imports Prelude "HOL-Library.Char_ord"
begin

text \<open>
  The identifiers of the objects, src/src/uuid.h: parsing and printing, the bits that say the
  variant and the version, the order, the hash, and the random generator the manager uses.
  A \<open>std::array<uint8_t, 16>\<close> is a list of bytes; \<open>uuid_ok\<close> says it has 16 of them. A string is a
  list of characters, as for the \<open>char\<close> instance of the templates.
\<close>

unbundle bit_operations_syntax

type_synonym byte = "8 word"
type_synonym uuid = "byte list"

definition uuid_ok :: "uuid \<Rightarrow> bool" where
  "uuid_ok u \<longleftrightarrow> length u = 16"

definition uuid_nil :: uuid where
  "uuid_nil = replicate 16 0"

section \<open>Characters\<close>

definition hex2char :: "char \<Rightarrow> byte" where
  "hex2char ch =
     (if CHR ''0'' \<le> ch \<and> ch \<le> CHR ''9'' then of_char ch - of_char CHR ''0''
      else if CHR ''a'' \<le> ch \<and> ch \<le> CHR ''f'' then 10 + of_char ch - of_char CHR ''a''
      else if CHR ''A'' \<le> ch \<and> ch \<le> CHR ''F'' then 10 + of_char ch - of_char CHR ''A''
      else 0)"

definition is_hex :: "char \<Rightarrow> bool" where
  "is_hex ch \<longleftrightarrow> (CHR ''0'' \<le> ch \<and> ch \<le> CHR ''9'') \<or> (CHR ''a'' \<le> ch \<and> ch \<le> CHR ''f'') \<or>
     (CHR ''A'' \<le> ch \<and> ch \<le> CHR ''F'')"

definition empty_guid :: string where
  "empty_guid = ''00000000-0000-0000-0000-000000000000''"

definition guid_encoder :: string where
  "guid_encoder = ''0123456789abcdef''"

section \<open>Parsing\<close>

text \<open>\<open>None\<close> is \<open>return false\<close> inside the loop, \<open>Some index\<close> the index when the loop ends.\<close>

fun is_valid_loop :: "string \<Rightarrow> bool \<Rightarrow> nat \<Rightarrow> nat option" where
  "is_valid_loop [] firstDigit index = Some index"
| "is_valid_loop (c # cs) firstDigit index =
     (if c = CHR ''-'' then is_valid_loop cs firstDigit index
      else if index \<ge> 16 \<or> \<not> is_hex c then None
      else if firstDigit then is_valid_loop cs False index
      else is_valid_loop cs True (index + 1))"

text \<open>The characters with \<open>hasBraces \<le> i < size - hasBraces\<close>.\<close>

definition inner_view :: "string \<Rightarrow> string" where
  "inner_view str = (if hd str = CHR ''{'' then butlast (tl str) else str)"

definition is_valid_uuid :: "string \<Rightarrow> bool" where
  "is_valid_uuid str =
     (if str = [] then False
      else if hd str = CHR ''{'' \<and> last str \<noteq> CHR ''}'' then False
      else (case is_valid_loop (inner_view str) True 0 of None \<Rightarrow> False
            | Some index \<Rightarrow> \<not> index < 16))"

fun from_string_loop :: "string \<Rightarrow> bool \<Rightarrow> nat \<Rightarrow> byte list \<Rightarrow> (nat \<times> byte list) option" where
  "from_string_loop [] firstDigit index bytes = Some (index, bytes)"
| "from_string_loop (c # cs) firstDigit index bytes =
     (if c = CHR ''-'' then from_string_loop cs firstDigit index bytes
      else if index \<ge> 16 \<or> \<not> is_hex c then None
      else if firstDigit
        then from_string_loop cs False index (bytes[index := push_bit 4 (hex2char c)])
      else from_string_loop cs True (index + 1) (bytes[index := (bytes ! index) OR hex2char c]))"

definition from_string :: "string \<Rightarrow> uuid option" where
  "from_string str =
     (if str = [] then None
      else if hd str = CHR ''{'' \<and> last str \<noteq> CHR ''}'' then None
      else (case from_string_loop (inner_view str) True 0 (replicate 16 0) of None \<Rightarrow> None
            | Some (index, bytes) \<Rightarrow> if index < 16 then None else Some bytes))"

section \<open>Printing\<close>

function to_string_loop :: "uuid \<Rightarrow> nat \<Rightarrow> nat \<Rightarrow> string \<Rightarrow> string" where
  "to_string_loop u i index uustr =
     (if i < 36 then
        (if i = 8 \<or> i = 13 \<or> i = 18 \<or> i = 23 then to_string_loop u (i + 1) index uustr
         else to_string_loop u (i + 2) (index + 1)
           (uustr[i := guid_encoder ! unat (drop_bit 4 (u ! index) AND 0x0f),
                  i + 1 := guid_encoder ! unat ((u ! index) AND 0x0f)]))
      else uustr)"
  by pat_completeness auto
termination
  by (relation "measure (\<lambda>(u, i, index, uustr). 36 - i)") auto

declare to_string_loop.simps [simp del]

definition to_string :: "uuid \<Rightarrow> string" where
  "to_string u = to_string_loop u 0 0 empty_guid"

section \<open>Variant, version, nil, order and hash\<close>

datatype uuid_variant = ncs | rfc | microsoft | reserved

datatype uuid_version = version_none | time_based | dce_security | name_based_md5
  | random_number_based | name_based_sha1

definition variant :: "uuid \<Rightarrow> uuid_variant" where
  "variant u = (if (u ! 8) AND 0x80 = 0x00 then ncs
     else if (u ! 8) AND 0xC0 = 0x80 then rfc
     else if (u ! 8) AND 0xE0 = 0xC0 then microsoft
     else reserved)"

definition version :: "uuid \<Rightarrow> uuid_version" where
  "version u = (if (u ! 6) AND 0xF0 = 0x10 then time_based
     else if (u ! 6) AND 0xF0 = 0x20 then dce_security
     else if (u ! 6) AND 0xF0 = 0x30 then name_based_md5
     else if (u ! 6) AND 0xF0 = 0x40 then random_number_based
     else if (u ! 6) AND 0xF0 = 0x50 then name_based_sha1
     else version_none)"

definition is_nil :: "uuid \<Rightarrow> bool" where
  "is_nil u \<longleftrightarrow> list_all (\<lambda>b. b = 0) u"

definition uuid_eq :: "uuid \<Rightarrow> uuid \<Rightarrow> bool" where
  "uuid_eq lhs rhs \<longleftrightarrow> lhs = rhs"

text \<open>\<open>std::array\<close> compares lexicographically.\<close>

fun uuid_less :: "uuid \<Rightarrow> uuid \<Rightarrow> bool" where
  "uuid_less (a # as) (b # bs) = (if a < b then True else if b < a then False else uuid_less as bs)"
| "uuid_less [] bs = (bs \<noteq> [])"
| "uuid_less as [] = False"

definition uuid_hash :: "uuid \<Rightarrow> 64 word" where
  "uuid_hash u =
     (let l = push_bit 56 (ucast (u ! 0)) OR push_bit 48 (ucast (u ! 1)) OR
              push_bit 40 (ucast (u ! 2)) OR push_bit 32 (ucast (u ! 3)) OR
              push_bit 24 (ucast (u ! 4)) OR push_bit 16 (ucast (u ! 5)) OR
              push_bit 8 (ucast (u ! 6)) OR ucast (u ! 7);
          h = push_bit 56 (ucast (u ! 8)) OR push_bit 48 (ucast (u ! 9)) OR
              push_bit 40 (ucast (u ! 10)) OR push_bit 32 (ucast (u ! 11)) OR
              push_bit 24 (ucast (u ! 12)) OR push_bit 16 (ucast (u ! 13)) OR
              push_bit 8 (ucast (u ! 14)) OR ucast (u ! 15)
      in l XOR h)"

section \<open>The random generator\<close>

text \<open>
  The four draws of the engine fill the bytes through \<open>uint32_t\<close> stores, least significant byte
  first on the program's targets. The engine is an argument: the theorems hold for all draws.
\<close>

definition le32 :: "32 word \<Rightarrow> byte list" where
  "le32 w = [ucast w, ucast (drop_bit 8 w), ucast (drop_bit 16 w), ucast (drop_bit 24 w)]"

definition uuid_random_generator :: "32 word \<Rightarrow> 32 word \<Rightarrow> 32 word \<Rightarrow> 32 word \<Rightarrow> uuid" where
  "uuid_random_generator r0 r1 r2 r3 =
     (let bytes = le32 r0 @ le32 r1 @ le32 r2 @ le32 r3;
          bytes = bytes[8 := (bytes ! 8) AND 0xBF];
          bytes = bytes[8 := (bytes ! 8) OR 0x80];
          bytes = bytes[6 := (bytes ! 6) AND 0x4F];
          bytes = bytes[6 := (bytes ! 6) OR 0x40]
      in bytes)"

section \<open>Proofs: parsing\<close>

definition digits_of :: "string \<Rightarrow> string" where
  "digits_of s = filter (\<lambda>c. c \<noteq> CHR ''-'') s"

fun pair_bytes :: "string \<Rightarrow> byte list" where
  "pair_bytes (a # b # cs) = (push_bit 4 (hex2char a) OR hex2char b) # pair_bytes cs"
| "pair_bytes cs = []"

lemma is_valid_loop_dashes: "is_valid_loop s fd i = is_valid_loop (digits_of s) fd i"
  by (induction s arbitrary: fd i) (auto simp: digits_of_def)

lemma from_string_loop_dashes: "from_string_loop s fd i d = from_string_loop (digits_of s) fd i d"
  by (induction s arbitrary: fd i d) (auto simp: digits_of_def)

lemma no_dash_digits: "CHR ''-'' \<notin> set (digits_of s)"
  by (simp add: digits_of_def)

lemma is_valid_loop_from_string_loop:
  "is_valid_loop s fd i = map_option fst (from_string_loop s fd i d)"
  by (induction s arbitrary: fd i d) auto

lemma length_pair_bytes: "length (pair_bytes ds) = length ds div 2"
  by (induction ds rule: pair_bytes.induct) auto

text \<open>What the loop does on a string of digits, two at a time.\<close>

lemma from_string_loop_digits:
  assumes "CHR ''-'' \<notin> set ds" and "length bytes = 16" and "i \<le> 16"
  shows "from_string_loop ds True i bytes = Some (16, r) \<longleftrightarrow>
    list_all is_hex ds \<and> length ds = 2 * (16 - i) \<and> r = take i bytes @ pair_bytes ds"
  using assms
proof (induction ds arbitrary: i bytes rule: pair_bytes.induct)
  case (1 a b ds)
  show ?case
  proof (cases "i < 16 \<and> is_hex a \<and> is_hex b")
    case True
    let ?bytes = "bytes[i := push_bit 4 (hex2char a) OR hex2char b]"
    have t: "take (Suc i) ?bytes = take i bytes @ [push_bit 4 (hex2char a) OR hex2char b]"
      using True "1.prems"(2) by (simp add: take_Suc_conv_app_nth)
    have e: "length (a # b # ds) = 2 * (16 - i) \<longleftrightarrow> length ds = 2 * (16 - Suc i)"
      using True by auto
    have "from_string_loop (a # b # ds) True i bytes = from_string_loop ds True (Suc i) ?bytes"
      using True "1.prems" by (auto simp: not_le)
    also have "\<dots> = Some (16, r) \<longleftrightarrow> list_all is_hex ds \<and> length ds = 2 * (16 - Suc i) \<and>
        r = take (Suc i) ?bytes @ pair_bytes ds"
      using "1.IH" [of ?bytes "Suc i"] "1.prems" True by simp
    finally show ?thesis using True t e by simp
  next
    case False
    then show ?thesis using "1.prems" by auto
  qed
qed auto

lemma from_string_loop_index:
  "from_string_loop ds fd i d = Some (j, r) \<Longrightarrow> i \<le> 16 \<Longrightarrow> j \<le> 16"
  by (induction ds arbitrary: fd i d) (auto split: if_splits)

lemma from_string_accepts:
  "from_string s = Some u \<longleftrightarrow>
     s \<noteq> [] \<and> (hd s = CHR ''{'' \<longrightarrow> last s = CHR ''}'') \<and>
     list_all is_hex (digits_of (inner_view s)) \<and> length (digits_of (inner_view s)) = 32 \<and>
     u = pair_bytes (digits_of (inner_view s))"
proof (cases "s = [] \<or> hd s = CHR ''{'' \<and> last s \<noteq> CHR ''}''")
  case True
  then show ?thesis by (auto simp: from_string_def)
next
  case False
  let ?ds = "digits_of (inner_view s)"
  have "from_string s = Some u \<longleftrightarrow> from_string_loop ?ds True 0 (replicate 16 0) = Some (16, u)"
    using False from_string_loop_index [of "inner_view s" True 0 "replicate 16 0"]
    by (auto simp: from_string_def from_string_loop_dashes [symmetric] le_antisym
        split: option.splits if_splits)
  then show ?thesis using from_string_loop_digits [OF no_dash_digits, of "replicate 16 0" 0] False
    by auto
qed



section \<open>Proofs: printing\<close>

lemma guid_encoder_nth:
  assumes "n < 16"
  shows "is_hex (guid_encoder ! n) \<and> hex2char (guid_encoder ! n) = of_nat n \<and>
    guid_encoder ! n \<noteq> CHR ''-'' \<and> guid_encoder ! n \<noteq> CHR ''{''"
proof -
  have "\<forall>n \<in> set [0..<16]. is_hex (guid_encoder ! n) \<and> hex2char (guid_encoder ! n) = of_nat n \<and>
    guid_encoder ! n \<noteq> CHR ''-'' \<and> guid_encoder ! n \<noteq> CHR ''{''"
    by code_simp
  then show ?thesis using assms by simp
qed

lemma nibble_less: "unat ((b :: byte) AND 0x0f) < 16"
proof -
  have "b AND 0x0f \<le> 0x0f" by (rule word_and_le1)
  then show ?thesis by (simp add: word_le_nat_alt)
qed

lemma nibbles: "push_bit 4 (drop_bit 4 b AND 0x0f) OR (b AND 0x0f) = (b :: byte)"
proof -
  have m: "(0x0f :: byte) = mask 4" by (simp add: mask_eq_exp_minus_1)
  show ?thesis unfolding m
    by (rule bit_word_eqI) (auto simp: bit_simps)
qed

definition enc_hi :: "byte \<Rightarrow> char" where
  "enc_hi b = guid_encoder ! unat (drop_bit 4 b AND 0x0f)"

definition enc_lo :: "byte \<Rightarrow> char" where
  "enc_lo b = guid_encoder ! unat (b AND 0x0f)"

lemma enc_props [simp]:
  "is_hex (enc_hi b)" "is_hex (enc_lo b)" "enc_hi b \<noteq> CHR ''-''" "enc_lo b \<noteq> CHR ''-''"
  "enc_hi b \<noteq> CHR ''{''"
  using guid_encoder_nth [OF nibble_less, of "drop_bit 4 b"] guid_encoder_nth [OF nibble_less, of b]
  by (simp_all add: enc_hi_def enc_lo_def)

lemma enc_byte [simp]: "push_bit 4 (hex2char (enc_hi b)) OR hex2char (enc_lo b) = b"
proof -
  have "hex2char (enc_hi b) = drop_bit 4 b AND 0x0f" "hex2char (enc_lo b) = b AND 0x0f"
    using guid_encoder_nth [OF nibble_less, of "drop_bit 4 b"] guid_encoder_nth [OF nibble_less, of b]
    by (simp_all add: enc_hi_def enc_lo_def)
  then show ?thesis by (simp only: nibbles)
qed

lemma length_16: "length u = 16 \<Longrightarrow> \<exists>a b c d e f g h i j k l m n p q. u = [a, b, c, d, e, f, g, h, i, j, k, l, m, n, p, q]"
  by (auto simp: numeral_eq_Suc length_Suc_conv)

lemma to_string_16:
  "to_string [a, b, c, d, e, f, g, h, i, j, k, l, m, n, p, q] =
   [enc_hi a, enc_lo a, enc_hi b, enc_lo b, enc_hi c, enc_lo c, enc_hi d, enc_lo d, CHR ''-'',
    enc_hi e, enc_lo e, enc_hi f, enc_lo f, CHR ''-'', enc_hi g, enc_lo g, enc_hi h, enc_lo h, CHR ''-'',
    enc_hi i, enc_lo i, enc_hi j, enc_lo j, CHR ''-'', enc_hi k, enc_lo k, enc_hi l, enc_lo l,
    enc_hi m, enc_lo m, enc_hi n, enc_lo n, enc_hi p, enc_lo p, enc_hi q, enc_lo q]"
  by (simp add: to_string_def to_string_loop.simps empty_guid_def enc_hi_def enc_lo_def)

lemma from_to_string:
  assumes "uuid_ok u"
  shows "from_string (to_string u) = Some u"
proof -
  obtain a b c d e f g h i j k l m n p q where u: "u = [a, b, c, d, e, f, g, h, i, j, k, l, m, n, p, q]"
    using assms length_16 [of u] by (auto simp: uuid_ok_def)
  show ?thesis
    by (simp add: u to_string_16 from_string_accepts inner_view_def digits_of_def)
qed

text \<open>C20: Printing and parsing. Every identifier is read back from its printed form, which is the
  form the program stores in scene files and file names.\<close>

theorem uuid_roundtrip:
  assumes "uuid_ok u"
  shows "from_string (to_string u) = Some u"
  by (rule from_to_string [OF assms])

theorem uuid_roundtrip_witness:
  "from_string (to_string [1, 2, 3, 4, 5, 6, 7, 8, 9, 10, 11, 12, 13, 14, 15, 255]) =
     Some [1, 2, 3, 4, 5, 6, 7, 8, 9, 10, 11, 12, 13, 14, 15, 255]"
  by (rule uuid_roundtrip) (simp add: uuid_ok_def)

section \<open>Proofs: generation and order\<close>

lemma masked_bits:
  fixes b :: byte
  assumes "m AND z AND v = m AND z" and "v AND z = v"
  shows "((b AND m) OR v) AND z = v"
proof -
  have "((b AND m) OR v) AND z = (b AND (m AND z)) OR (v AND z)"
    by (simp add: and.assoc bit.conj_disj_distrib2)
  also have "\<dots> = (b AND (m AND z AND v)) OR v" by (simp add: assms)
  also have "\<dots> = v" by (rule bit_word_eqI) (auto simp: bit_simps)
  finally show ?thesis .
qed

text \<open>Generated identifiers. Whatever the random engine draws, the generator returns 16 bytes
  with the variant of RFC 4122 and the version for random numbers; in particular it never returns the
  nil identifier, which the manager reads as "no identifier yet" and "no parent".\<close>

theorem random_uuid_is_v4:
  "uuid_ok (uuid_random_generator r0 r1 r2 r3) \<and> variant (uuid_random_generator r0 r1 r2 r3) = rfc \<and>
   version (uuid_random_generator r0 r1 r2 r3) = random_number_based \<and>
   \<not> is_nil (uuid_random_generator r0 r1 r2 r3)"
proof -
  let ?u = "uuid_random_generator r0 r1 r2 r3"
  have u8: "?u ! 8 = (ucast r2 AND 0xBF) OR 0x80" and u6: "?u ! 6 = (ucast (drop_bit 16 r1) AND 0x4F) OR 0x40"
    and len: "length ?u = 16"
    by (simp_all add: uuid_random_generator_def le32_def Let_def)
  have "(?u ! 8) AND 0xC0 = 0x80" "(?u ! 8) AND 0x80 = 0x80" "(?u ! 6) AND 0xF0 = 0x40"
    unfolding u8 u6 by (rule masked_bits; simp)+
  moreover have "\<not> is_nil ?u"
  proof
    assume "is_nil ?u"
    then have "?u ! 8 = 0" using len by (simp add: is_nil_def list_all_length)
    with \<open>(?u ! 8) AND 0x80 = 0x80\<close> show False by simp
  qed
  ultimately show ?thesis using len by (simp add: variant_def version_def uuid_ok_def)
qed

text \<open>The order is a strict total order.\<close>

lemma uuid_less_irrefl: "\<not> uuid_less u u"
  by (induction u) auto

lemma uuid_less_trans: "uuid_less u v \<Longrightarrow> uuid_less v w \<Longrightarrow> uuid_less u w"
proof (induction u v arbitrary: w rule: uuid_less.induct)
  case (1 a as b bs)
  then show ?case by (cases w) (auto split: if_splits)
next
  case (2 bs)
  then show ?case by (cases w; cases bs) auto
qed auto

lemma uuid_less_total: "length u = length v \<Longrightarrow> uuid_less u v \<or> u = v \<or> uuid_less v u"
  by (induction u v rule: list_induct2) auto

text \<open>Validation agrees with parsing, and the comparison is a strict total order on identifiers.\<close>

theorem uuid_valid_and_order:
  "(is_valid_uuid s \<longleftrightarrow> from_string s \<noteq> None) \<and>
   \<not> uuid_less u u \<and> (uuid_less u v \<and> uuid_less v w \<longrightarrow> uuid_less u w) \<and>
   (uuid_ok u \<and> uuid_ok v \<longrightarrow> uuid_less u v \<or> uuid_eq u v \<or> uuid_less v u)"
proof -
  have "is_valid_uuid s \<longleftrightarrow> from_string s \<noteq> None"
    using is_valid_loop_from_string_loop [of "inner_view s" True 0 "replicate 16 0"]
    by (auto simp: is_valid_uuid_def from_string_def split: option.splits)
  then show ?thesis
    using uuid_less_irrefl uuid_less_trans uuid_less_total [of u v]
    by (auto simp: uuid_ok_def uuid_eq_def)
qed

theorem uuid_valid_and_order_witness:
  "is_valid_uuid ''{00112233445566778899aabbccddeeff}'' \<and>
   (uuid_less (replicate 16 0) (replicate 16 1) \<or> uuid_eq (replicate 16 0) (replicate 16 1)
    \<or> uuid_less (replicate 16 1) (replicate 16 0))"
proof -
  have "from_string ''{00112233445566778899aabbccddeeff}'' \<noteq> None" by code_simp
  then show ?thesis
    using uuid_valid_and_order [of "''{00112233445566778899aabbccddeeff}''" "replicate 16 0" "replicate 16 1"]
    by (simp add: uuid_ok_def)
qed

end
