(* ===== verification/Sha1.thy ===== *)
theory Sha1
  imports Uuid
begin

text \<open>
  The SHA-1 hasher and the name-based generator of src/src/uuid.h. The hasher is a state machine
  fed one byte at a time; the proofs relate it to the usual description: pad the message, cut it in
  blocks of 64 bytes, fold the compression function over them.
\<close>

section \<open>The hasher\<close>

record sha1 =
  m_digest :: "32 word list"
  m_block :: "byte list"
  m_blockByteIndex :: nat
  m_byteCount :: "64 word"

definition left_rotate :: "32 word \<Rightarrow> nat \<Rightarrow> 32 word" where
  "left_rotate value cnt = push_bit cnt value XOR drop_bit (32 - cnt) value"

definition sha1_init :: "32 word list" where
  "sha1_init = [0x67452301, 0xEFCDAB89, 0x98BADCFE, 0x10325476, 0xC3D2E1F0]"

definition sha1_reset :: "sha1 \<Rightarrow> sha1" where
  "sha1_reset s = s\<lparr>m_digest := sha1_init, m_blockByteIndex := 0, m_byteCount := 0\<rparr>"

text \<open>The message schedule \<open>w\<close>, the 80 rounds and the addition, as in \<open>process_block()\<close>.\<close>

definition sha1_schedule :: "byte list \<Rightarrow> 32 word list" where
  "sha1_schedule block =
     foldl (\<lambda>w i. w[i := left_rotate (w ! (i - 3) XOR w ! (i - 8) XOR w ! (i - 14) XOR w ! (i - 16)) 1])
       (map (\<lambda>i. push_bit 24 (ucast (block ! (i * 4 + 0))) OR push_bit 16 (ucast (block ! (i * 4 + 1)))
                 OR push_bit 8 (ucast (block ! (i * 4 + 2))) OR ucast (block ! (i * 4 + 3))) [0..<16]
        @ replicate 64 0)
       [16..<80]"

fun sha1_round :: "32 word list \<Rightarrow> 32 word \<times> 32 word \<times> 32 word \<times> 32 word \<times> 32 word \<Rightarrow> nat \<Rightarrow>
    32 word \<times> 32 word \<times> 32 word \<times> 32 word \<times> 32 word" where
  "sha1_round w (a, b, c, d, e) i =
     (let (f, k) = (if i < 20 then ((b AND c) OR (NOT b AND d), 0x5A827999)
                    else if i < 40 then (b XOR c XOR d, 0x6ED9EBA1)
                    else if i < 60 then ((b AND c) OR (b AND d) OR (c AND d), 0x8F1BBCDC)
                    else (b XOR c XOR d, 0xCA62C1D6));
          temp = left_rotate a 5 + f + e + k + w ! i
      in (temp, a, left_rotate b 30, c, d))"

definition sha1_compress :: "32 word list \<Rightarrow> byte list \<Rightarrow> 32 word list" where
  "sha1_compress dg block =
     (let w = sha1_schedule block;
          (a, b, c, d, e) = foldl (sha1_round w) (dg ! 0, dg ! 1, dg ! 2, dg ! 3, dg ! 4) [0..<80]
      in [dg ! 0 + a, dg ! 1 + b, dg ! 2 + c, dg ! 3 + d, dg ! 4 + e])"

definition process_block :: "sha1 \<Rightarrow> sha1" where
  "process_block s = s\<lparr>m_digest := sha1_compress (m_digest s) (m_block s)\<rparr>"

definition process_byte :: "sha1 \<Rightarrow> byte \<Rightarrow> sha1" where
  "process_byte s octet =
     (let s1 = s\<lparr>m_block := (m_block s)[m_blockByteIndex s := octet],
                 m_blockByteIndex := m_blockByteIndex s + 1, m_byteCount := m_byteCount s + 1\<rparr>
      in if m_blockByteIndex s1 = 64 then process_block (s1\<lparr>m_blockByteIndex := 0\<rparr>) else s1)"

definition process_bytes :: "sha1 \<Rightarrow> byte list \<Rightarrow> sha1" where
  "process_bytes s bytes = foldl process_byte s bytes"

text \<open>The padding loops: \<open>while (c) process_byte(0)\<close>. The fuel is the most bytes a loop can take, 64;
  \<open>None\<close> would be a loop that goes on.\<close>

fun pad_while :: "nat \<Rightarrow> (sha1 \<Rightarrow> bool) \<Rightarrow> sha1 \<Rightarrow> sha1 option" where
  "pad_while n c s = (if c s then (case n of 0 \<Rightarrow> None | Suc m \<Rightarrow> pad_while m c (process_byte s 0))
                      else Some s)"

declare pad_while.simps [simp del]

definition get_digest :: "sha1 \<Rightarrow> (sha1 \<times> 32 word list) option" where
  "get_digest s =
     (let bitCount = m_byteCount s * 8;
          s1 = process_byte s 0x80
      in case (if m_blockByteIndex s1 > 56
               then (case pad_while 64 (\<lambda>s. m_blockByteIndex s \<noteq> 0) s1 of None \<Rightarrow> None
                     | Some s2 \<Rightarrow> pad_while 64 (\<lambda>s. m_blockByteIndex s < 56) s2)
               else pad_while 64 (\<lambda>s. m_blockByteIndex s < 56) s1) of
           None \<Rightarrow> None
         | Some s3 \<Rightarrow>
             (let s4 = process_bytes s3 [0, 0, 0, 0,
                    ucast (drop_bit 24 bitCount AND 0xFF), ucast (drop_bit 16 bitCount AND 0xFF),
                    ucast (drop_bit 8 bitCount AND 0xFF), ucast (bitCount AND 0xFF)]
              in Some (s4, m_digest s4)))"

text \<open>Big-endian bytes of the five words.\<close>

definition be32 :: "32 word \<Rightarrow> byte list" where
  "be32 w = [ucast (drop_bit 24 w), ucast (drop_bit 16 w), ucast (drop_bit 8 w), ucast (drop_bit 0 w)]"

definition get_digest_bytes :: "sha1 \<Rightarrow> (sha1 \<times> byte list) option" where
  "get_digest_bytes s = (case get_digest s of None \<Rightarrow> None
     | Some (s', d32) \<Rightarrow> Some (s', be32 (d32 ! 0) @ be32 (d32 ! 1) @ be32 (d32 ! 2) @
         be32 (d32 ! 3) @ be32 (d32 ! 4)))"

section \<open>Name-based identifiers\<close>

text \<open>The generator on a \<open>char\<close> string; \<open>hasher\<close> is the state the previous call left.\<close>

definition name_generator_reset :: "uuid \<Rightarrow> sha1 \<Rightarrow> sha1" where
  "name_generator_reset nsuuid hasher = process_bytes (sha1_reset hasher) nsuuid"

definition process_characters :: "sha1 \<Rightarrow> string \<Rightarrow> sha1" where
  "process_characters hasher str = foldl (\<lambda>h c. process_byte h (of_char c)) hasher str"

definition make_uuid :: "sha1 \<Rightarrow> (sha1 \<times> uuid) option" where
  "make_uuid hasher = (case get_digest_bytes hasher of None \<Rightarrow> None
     | Some (h, digest) \<Rightarrow>
         (let digest = digest[8 := (digest ! 8) AND 0xBF];
              digest = digest[8 := (digest ! 8) OR 0x80];
              digest = digest[6 := (digest ! 6) AND 0x5F];
              digest = digest[6 := (digest ! 6) OR 0x50]
          in Some (h, take 16 digest)))"

definition uuid_name_generator :: "uuid \<Rightarrow> sha1 \<Rightarrow> string \<Rightarrow> (sha1 \<times> uuid) option" where
  "uuid_name_generator nsuuid hasher name =
     make_uuid (process_characters (name_generator_reset nsuuid hasher) name)"

section \<open>The specification: pad, cut, fold\<close>

primrec be_bytes :: "nat \<Rightarrow> nat \<Rightarrow> byte list" where
  "be_bytes 0 x = []"
| "be_bytes (Suc n) x = be_bytes n (x div 256) @ [of_nat x]"

definition sha1_pad :: "byte list \<Rightarrow> byte list" where
  "sha1_pad msg = msg @ 0x80 # replicate ((119 - length msg mod 64) mod 64) 0 @ be_bytes 8 (8 * length msg)"

fun chunks64 :: "'a list \<Rightarrow> 'a list list" where
  "chunks64 xs = (if length xs < 64 then [] else take 64 xs # chunks64 (drop 64 xs))"

declare chunks64.simps [simp del]

definition sha1_spec :: "byte list \<Rightarrow> 32 word list" where
  "sha1_spec msg = foldl sha1_compress sha1_init (chunks64 (sha1_pad msg))"

text \<open>The state after some bytes have been fed since \<open>reset\<close>.\<close>

definition fed :: "sha1 \<Rightarrow> byte list \<Rightarrow> bool" where
  "fed s msg \<longleftrightarrow> length (m_block s) = 64 \<and> m_blockByteIndex s = length msg mod 64 \<and>
     take (m_blockByteIndex s) (m_block s) = drop (64 * (length msg div 64)) msg \<and>
     m_digest s = foldl sha1_compress sha1_init (chunks64 msg) \<and>
     m_byteCount s = of_nat (length msg)"

lemma chunks64_append:
  "length msg mod 64 = 0 \<Longrightarrow> chunks64 (msg @ xs) = chunks64 msg @ chunks64 xs"
proof (induction msg rule: chunks64.induct)
  case (1 msg)
  show ?case
  proof (cases "length msg < 64")
    case True
    with "1.prems" have "msg = []" by simp
    then show ?thesis by (simp add: chunks64.simps [of "[]"])
  next
    case False
    then have "length (drop 64 msg) mod 64 = 0" using "1.prems" by (simp add: mod_if)
    with "1.IH" [OF False] False show ?thesis
      by (simp add: chunks64.simps [of "msg @ xs"] chunks64.simps [of msg])
  qed
qed

lemma chunks64_short: "length xs < 64 \<Longrightarrow> chunks64 xs = []"
  by (simp add: chunks64.simps)

lemma chunks64_one: "length xs = 64 \<Longrightarrow> chunks64 xs = [xs]"
  by (simp add: chunks64.simps [of xs] chunks64_short)

lemma chunks64_split:
  "chunks64 msg = chunks64 (take (64 * (length msg div 64)) msg)"
proof -
  let ?n = "64 * (length msg div 64)"
  have n: "?n \<le> length msg" "length (drop ?n msg) < 64" by simp_all
  then have "length (take ?n msg) mod 64 = 0" by simp
  from chunks64_append [OF this, of "drop ?n msg"] show ?thesis
    using chunks64_short [OF n(2)] by simp
qed

lemma fed_reset: "length (m_block s) = 64 \<Longrightarrow> fed (sha1_reset s) []"
  by (simp add: fed_def sha1_reset_def chunks64_short)

lemma fed_byte:
  assumes "fed s msg"
  shows "fed (process_byte s b) (msg @ [b])"
proof -
  let ?i = "length msg mod 64" and ?n = "64 * (length msg div 64)"
  let ?blk = "(m_block s)[?i := b]"
  have F: "length (m_block s) = 64" "m_blockByteIndex s = ?i" "take ?i (m_block s) = drop ?n msg"
    "m_digest s = foldl sha1_compress sha1_init (chunks64 msg)" "m_byteCount s = of_nat (length msg)"
    using assms by (auto simp: fed_def)
  have t: "take (Suc ?i) ?blk = drop ?n msg @ [b]"
    using F(1,3) by (simp add: take_Suc_conv_app_nth)
  have len: "length msg = ?n + ?i" by simp
  show ?thesis
  proof (cases "Suc ?i = 64")
    case True
    then have i: "?i = 63" by simp
    have l: "Suc (length msg) = ?n + 64" using len i by linarith
    have d: "Suc (length msg) mod 64 = 0" using mod_Suc [of "length msg" 64] i by simp
    have "64 * (Suc (length msg) div 64) + Suc (length msg) mod 64 = Suc (length msg)" by simp
    then have d2: "64 * (Suc (length msg) div 64) = ?n + 64" using d l by linarith
    have blk: "?blk = drop ?n msg @ [b]" using t F(1) True by simp
    have e: "msg @ [b] = take ?n msg @ (drop ?n msg @ [b])" by (metis append_assoc append_take_drop_id)
    have "chunks64 (msg @ [b]) = chunks64 (take ?n msg) @ chunks64 (drop ?n msg @ [b])"
      by (subst e, rule chunks64_append) (simp add: min_absorb2)
    also have "\<dots> = chunks64 msg @ [?blk]"
    proof -
      have "length (drop ?n msg @ [b]) = 64" using blk F(1) by (metis length_list_update)
      then show ?thesis using chunks64_split [of msg] chunks64_one blk by metis
    qed
    finally have "chunks64 (msg @ [b]) = chunks64 msg @ [?blk]" .
    moreover have "drop (64 * (Suc (length msg) div 64)) (msg @ [b]) = []"
      unfolding d2 by (rule drop_all) (use l in simp)
    ultimately show ?thesis using F True d
      by (simp add: fed_def process_byte_def process_block_def Let_def add.commute)
  next
    case False
    then have i: "Suc (length msg) mod 64 = Suc ?i" by (simp add: mod_Suc)
    then have n: "64 * (Suc (length msg) div 64) = ?n"
      by (metis False div_Suc mod_Suc nat.distinct(1))
    have "chunks64 (msg @ [b]) = chunks64 msg"
      using chunks64_split [of "msg @ [b]"] chunks64_split [of msg] n by simp
    then show ?thesis using F False i n t
      by (simp add: fed_def process_byte_def Let_def add.commute)
  qed
qed

lemma fed_bytes: "fed s msg \<Longrightarrow> fed (process_bytes s bs) (msg @ bs)"
proof (induction bs arbitrary: s msg)
  case (Cons b bs)
  from Cons.IH [OF fed_byte [OF Cons.prems]] show ?case by (simp add: process_bytes_def)
qed (simp add: process_bytes_def)

lemma pad_while_fed:
  "fed s msg \<Longrightarrow> k \<le> n \<Longrightarrow> (\<forall>j < k. P ((length msg + j) mod 64)) \<Longrightarrow> \<not> P ((length msg + k) mod 64) \<Longrightarrow>
   \<exists>s'. pad_while n (\<lambda>s. P (m_blockByteIndex s)) s = Some s' \<and> fed s' (msg @ replicate k 0)"
proof (induction k arbitrary: s msg n)
  case 0
  then have "\<not> P (m_blockByteIndex s)" by (simp add: fed_def)
  with 0 show ?case by (simp add: pad_while.simps [of n])
next
  case (Suc k)
  then obtain m where n: "n = Suc m" "k \<le> m" by (cases n) auto
  have P: "P (m_blockByteIndex s)" using Suc.prems(1,3) by (auto simp: fed_def dest: spec [of _ 0])
  have "\<forall>j < k. P ((length (msg @ [0]) + j) mod 64)" using Suc.prems(3) by auto
  moreover have "\<not> P ((length (msg @ [0]) + k) mod 64)" using Suc.prems(4) by simp
  ultimately obtain s' where "pad_while m (\<lambda>s. P (m_blockByteIndex s)) (process_byte s 0) = Some s'"
    "fed s' ((msg @ [0]) @ replicate k 0)"
    using Suc.IH [OF fed_byte [OF Suc.prems(1)] n(2)] by blast
  then show ?case using P by (simp add: n(1) pad_while.simps [of "Suc m"])
qed

lemma byte_of_count:
  assumes "x < 2 ^ 64"
  shows "ucast (drop_bit (8 * i) (of_nat x :: 64 word) AND 0xFF) = (of_nat (x div 256 ^ i) :: byte)"
proof -
  have m: "(0xFF :: 64 word) = mask 8" by (simp add: mask_eq_exp_minus_1)
  have "unat (of_nat x :: 64 word) = x" using assms by (simp add: unat_of_nat)
  then have "unat (drop_bit (8 * i) (of_nat x :: 64 word)) = drop_bit (8 * i) x"
    by (simp only: unat_drop_bit_eq)
  then have "unat (drop_bit (8 * i) (of_nat x :: 64 word)) = x div 256 ^ i"
    by (simp only: drop_bit_eq_div power_mult) simp
  then have "unat (ucast (drop_bit (8 * i) (of_nat x :: 64 word) AND 0xFF) :: byte) =
      unat (of_nat (x div 256 ^ i) :: byte)"
    unfolding m take_bit_eq_mask [symmetric]
    by (simp add: unsigned_ucast_eq unsigned_of_nat unsigned_take_bit_eq)
  then show ?thesis by (rule unsigned_word_eqI)
qed

lemma be_bytes_upt: "be_bytes n x = map (\<lambda>i. of_nat (x div 256 ^ i)) (rev [0..<n])"
proof (induction n arbitrary: x)
  case (Suc n)
  have "[0..<Suc n] = 0 # map Suc [0..<n]" by (simp add: upt_conv_Cons map_Suc_upt del: upt_Suc)
  then have "rev [0..<Suc n] = map Suc (rev [0..<n]) @ [0]" by (simp only: rev.simps rev_map)
  then show ?case using Suc.IH [of "x div 256"] by (simp add: o_def div_mult2_eq)
qed simp

lemma length_bytes_of_count:
  assumes "length msg < 2 ^ 29"
  shows "[0, 0, 0, 0, ucast (drop_bit 24 (of_nat (length msg) * 8 :: 64 word) AND 0xFF),
     ucast (drop_bit 16 (of_nat (length msg) * 8 :: 64 word) AND 0xFF),
     ucast (drop_bit 8 (of_nat (length msg) * 8 :: 64 word) AND 0xFF),
     ucast ((of_nat (length msg) * 8 :: 64 word) AND 0xFF)] = be_bytes 8 (8 * length msg)"
proof -
  let ?x = "8 * length msg"
  have w: "(of_nat (length msg) * 8 :: 64 word) = of_nat ?x" by (simp add: mult.commute)
  have x: "?x < 2 ^ 64" "?x < 2 ^ 32" using assms by simp_all
  have z: "?x div 256 ^ 4 = 0" "?x div 256 ^ 5 = 0" "?x div 256 ^ 6 = 0" "?x div 256 ^ 7 = 0"
    using x(2) by simp_all
  have b: "be_bytes 8 ?x = map (\<lambda>i. of_nat (?x div 256 ^ i)) [7, 6, 5, 4, 3, 2, 1, 0]"
  proof -
    have "rev [0..<8] = [7, 6, 5, 4, 3, 2, 1, 0 :: nat]" by code_simp
    then show ?thesis by (simp only: be_bytes_upt)
  qed
  show ?thesis
    unfolding b w using byte_of_count [OF x(1), of 3] byte_of_count [OF x(1), of 2]
      byte_of_count [OF x(1), of 1] byte_of_count [OF x(1), of 0] z
    by (simp del: of_nat_mult)
qed

text \<open>The arithmetic of the padding: \<open>n\<close> is the length of the message.\<close>

lemma mod64_add: "n mod 64 + x < 64 \<Longrightarrow> (n + x) mod 64 = n mod 64 + (x :: nat)"
  by (metis mod_add_left_eq mod_less)

lemma mod64_wrap: "n mod 64 + x = 64 \<Longrightarrow> (n + x) mod 64 = (0 :: nat)"
  by (metis mod_add_left_eq mod_self)

lemma pad_two_loops:
  fixes n :: nat
  assumes "56 < (n + 1) mod 64"
  defines "k \<equiv> 63 - n mod 64"
  shows "k \<le> 64" "\<forall>j < k. (n + 1 + j) mod 64 \<noteq> 0" "(n + 1 + k) mod 64 = 0"
    "(119 - n mod 64) mod 64 = k + 56"
proof -
  have "n mod 64 \<noteq> 63" using assms(1) mod64_wrap [of n 1] by auto
  then have r: "n mod 64 < 63" using mod_less_divisor [of 64 n] by linarith
  then have r2: "56 \<le> n mod 64" using assms(1) mod64_add [of n 1] by linarith
  show "k \<le> 64" by (simp add: k_def)
  show "\<forall>j < k. (n + 1 + j) mod 64 \<noteq> 0"
    using mod64_add [of n "1 + _"] by (simp add: k_def less_diff_conv add.commute add.left_commute)
  show "(n + 1 + k) mod 64 = 0" using mod64_wrap [of n "1 + k"] r by (simp add: k_def)
  show "(119 - n mod 64) mod 64 = k + 56" using r r2 by (simp add: k_def)
qed

lemma pad_one_loop:
  fixes n :: nat
  assumes "\<not> 56 < (n + 1) mod 64"
  defines "k \<equiv> 56 - (n + 1) mod 64"
  shows "k \<le> 64" "\<forall>j < k. (n + 1 + j) mod 64 < 56" "\<not> (n + 1 + k) mod 64 < 56"
    "(119 - n mod 64) mod 64 = k"
proof -
  show "k \<le> 64" by (simp add: k_def)
  show "\<forall>j < k. (n + 1 + j) mod 64 < 56"
    using mod64_add [of "n + 1"] by (simp add: k_def less_diff_conv)
  show "\<not> (n + 1 + k) mod 64 < 56"
    using mod64_add [of "n + 1" k] assms(1) by (simp add: k_def)
  have "n mod 64 = 63 \<or> n mod 64 < 63" using mod_less_divisor [of 64 n] by linarith
  then show "(119 - n mod 64) mod 64 = k"
  proof
    assume "n mod 64 = 63"
    then show ?thesis using mod64_wrap [of n 1] by (simp add: k_def)
  next
    assume "n mod 64 < 63"
    then have e: "(n + 1) mod 64 = n mod 64 + 1" using mod64_add [of n 1] by simp
    then have "119 - n mod 64 = (55 - n mod 64) + 64" and k: "k = 55 - n mod 64"
      using assms(1) unfolding k_def by linarith+
    then have "(119 - n mod 64) mod 64 = (55 - n mod 64) mod 64" by (simp only: mod_add_self2)
    then show ?thesis unfolding k by (simp add: less_imp_diff_less)
  qed
qed

lemma pad_to_56:
  assumes "n mod 64 = (0 :: nat)"
  shows "\<forall>j < 56. (n + j) mod 64 < 56" "\<not> (n + 56) mod 64 < 56"
  using mod64_add [of n] assms by simp_all

lemma get_digest_fed:
  assumes f: "fed s msg" and short: "length msg < 2 ^ 29"
  shows "\<exists>s'. get_digest s = Some (s', sha1_spec msg)"
proof -
  let ?r = "length msg mod 64" and ?z = "(119 - length msg mod 64) mod 64"
  let ?s1 = "process_byte s 0x80"
  have f1: "fed ?s1 (msg @ [0x80])" using fed_byte [OF f] .
  have i1: "m_blockByteIndex ?s1 = (length msg + 1) mod 64" using f1 by (simp add: fed_def)
  have "\<exists>s3. (if m_blockByteIndex ?s1 > 56
       then (case pad_while 64 (\<lambda>s. m_blockByteIndex s \<noteq> 0) ?s1 of None \<Rightarrow> None
             | Some s2 \<Rightarrow> pad_while 64 (\<lambda>s. m_blockByteIndex s < 56) s2)
       else pad_while 64 (\<lambda>s. m_blockByteIndex s < 56) ?s1) = Some s3 \<and>
     fed s3 (msg @ 0x80 # replicate ?z 0)"
  proof (cases "m_blockByteIndex ?s1 > 56")
    case True
    then have big: "56 < (length msg + 1) mod 64" using i1 by simp
    define k where "k = 63 - length msg mod 64"
    note A = pad_two_loops [OF big, folded k_def]
    have "\<exists>s2. pad_while 64 (\<lambda>s. m_blockByteIndex s \<noteq> 0) ?s1 = Some s2 \<and>
        fed s2 ((msg @ [0x80]) @ replicate k 0)"
      using A by (intro pad_while_fed [OF f1]) simp_all
    then obtain s2 where s2: "pad_while 64 (\<lambda>s. m_blockByteIndex s \<noteq> 0) ?s1 = Some s2"
      "fed s2 ((msg @ [0x80]) @ replicate k 0)" by blast
    have l2: "length ((msg @ [0x80]) @ replicate k 0) mod 64 = 0"
    proof -
      have "length ((msg @ [0x80]) @ replicate k 0) = length msg + 1 + k" by simp
      then show ?thesis using A(3) by (simp only:)
    qed
    have "\<exists>s3. pad_while 64 (\<lambda>s. m_blockByteIndex s < 56) s2 = Some s3 \<and>
        fed s3 (((msg @ [0x80]) @ replicate k 0) @ replicate 56 0)"
      using pad_to_56 [OF l2] by (intro pad_while_fed [OF s2(2)]) simp_all
    then show ?thesis using True s2(1) A(4) by (simp add: replicate_add)
  next
    case False
    then have small: "\<not> 56 < (length msg + 1) mod 64" using i1 by simp
    define k where "k = 56 - (length msg + 1) mod 64"
    note A = pad_one_loop [OF small, folded k_def]
    have "\<exists>s3. pad_while 64 (\<lambda>s. m_blockByteIndex s < 56) ?s1 = Some s3 \<and>
        fed s3 ((msg @ [0x80]) @ replicate k 0)"
      using A by (intro pad_while_fed [OF f1]) simp_all
    then show ?thesis using False A(4) by simp
  qed
  then obtain s3 where s3: "(if m_blockByteIndex ?s1 > 56
       then (case pad_while 64 (\<lambda>s. m_blockByteIndex s \<noteq> 0) ?s1 of None \<Rightarrow> None
             | Some s2 \<Rightarrow> pad_while 64 (\<lambda>s. m_blockByteIndex s < 56) s2)
       else pad_while 64 (\<lambda>s. m_blockByteIndex s < 56) ?s1) = Some s3"
    "fed s3 (msg @ 0x80 # replicate ?z 0)" by blast
  have bc: "m_byteCount s = of_nat (length msg)" using f by (simp add: fed_def)
  have "fed (process_bytes s3 (be_bytes 8 (8 * length msg))) (sha1_pad msg)"
    using fed_bytes [OF s3(2)] by (simp add: sha1_pad_def)
  then show ?thesis
    unfolding get_digest_def Let_def s3(1) option.case bc length_bytes_of_count [OF short]
    by (simp add: fed_def sha1_spec_def)
qed

lemma sha1_compress_length: "length (sha1_compress dg blk) = 5"
  by (simp add: sha1_compress_def Let_def split: prod.splits)

lemma sha1_foldl_length: "length (foldl sha1_compress sha1_init bs) = 5"
  by (cases bs rule: rev_cases) (simp_all add: sha1_compress_length sha1_init_def)

lemma process_characters_bytes: "process_characters h str = process_bytes h (map of_char str)"
  by (simp add: process_characters_def process_bytes_def foldl_map)

definition sha1_bytes :: "byte list \<Rightarrow> byte list" where
  "sha1_bytes msg = concat (map be32 (sha1_spec msg))"

lemma get_digest_bytes_fed:
  assumes "fed s msg" and "length msg < 2 ^ 29"
  shows "\<exists>s'. get_digest_bytes s = Some (s', sha1_bytes msg)"
proof -
  obtain s' where s': "get_digest s = Some (s', sha1_spec msg)" using get_digest_fed [OF assms] by blast
  have "length (sha1_spec msg) = 5" by (simp add: sha1_spec_def sha1_foldl_length)
  then obtain a b c d e where "sha1_spec msg = [a, b, c, d, e]"
    by (auto simp: numeral_eq_Suc length_Suc_conv)
  with s' show ?thesis by (simp add: get_digest_bytes_def sha1_bytes_def)
qed

lemma sha1_bytes_length: "length (sha1_bytes msg) = 20"
proof -
  have "length (sha1_spec msg) = 5" by (simp add: sha1_spec_def sha1_foldl_length)
  then obtain a b c d e where "sha1_spec msg = [a, b, c, d, e]"
    by (auto simp: numeral_eq_Suc length_Suc_conv)
  then show ?thesis by (simp add: sha1_bytes_def be32_def)
qed



text \<open>Name-based identifiers. For a namespace and a name of less than \<open>2 ^ 29\<close> bytes together,
  the generator returns the first 16 bytes of the SHA-1 of namespace and name with the variant and
  version bits stamped in, whatever it generated before: variant RFC 4122, version name-based SHA-1.\<close>

theorem name_uuid_is_stamped_sha1:
  assumes "length (m_block h) = 64" and "length ns + length name < 2 ^ 29"
  shows "\<exists>h' u. uuid_name_generator ns h name = Some (h', u) \<and> uuid_ok u \<and> variant u = rfc \<and>
    version u = name_based_sha1 \<and>
    (\<forall>i < 16. i \<noteq> 6 \<and> i \<noteq> 8 \<longrightarrow> u ! i = sha1_bytes (ns @ map of_char name) ! i)"
proof -
  let ?d = "sha1_bytes (ns @ map of_char name)"
  let ?u = "take 16 (?d[8 := ((?d ! 8) AND 0xBF) OR 0x80, 6 := ((?d ! 6) AND 0x5F) OR 0x50])"
  have "fed (process_characters (name_generator_reset ns h) name) (ns @ map of_char name)"
    using fed_bytes [OF fed_bytes [OF fed_reset [OF assms(1)]], of ns "map of_char name"]
    by (simp add: process_characters_bytes name_generator_reset_def)
  then obtain h' where "get_digest_bytes (process_characters (name_generator_reset ns h) name) =
      Some (h', ?d)" using get_digest_bytes_fed assms(2) by fastforce
  then have g: "uuid_name_generator ns h name = Some (h', ?u)"
    by (simp add: uuid_name_generator_def make_uuid_def Let_def sha1_bytes_length list_update_swap)
  have u: "?u ! 8 = ((?d ! 8) AND 0xBF) OR 0x80" "?u ! 6 = ((?d ! 6) AND 0x5F) OR 0x50"
    by (simp_all add: sha1_bytes_length)
  have "(?u ! 8) AND 0xC0 = 0x80" "(?u ! 8) AND 0x80 = 0x80" "(?u ! 6) AND 0xF0 = 0x50"
    unfolding u by (rule masked_bits; simp)+
  then have "variant ?u = rfc" "version ?u = name_based_sha1" "uuid_ok ?u"
    by (simp_all only: variant_def version_def uuid_ok_def) (simp_all add: sha1_bytes_length)
  moreover have "\<forall>i < 16. i \<noteq> 6 \<and> i \<noteq> 8 \<longrightarrow> ?u ! i = ?d ! i" by simp
  ultimately show ?thesis using g by blast
qed

theorem name_uuid_is_stamped_sha1_witness:
  "\<exists>h' u. uuid_name_generator (replicate 16 1) (\<lparr>m_digest = [], m_block = replicate 64 7,
     m_blockByteIndex = 3, m_byteCount = 9\<rparr>) ''chunk'' = Some (h', u) \<and> version u = name_based_sha1"
proof -
  let ?h = "\<lparr>m_digest = [], m_block = replicate 64 7, m_blockByteIndex = 3, m_byteCount = 9\<rparr>"
  have "length (m_block ?h) = 64" "length (replicate 16 (1 :: byte)) + length ''chunk'' < 2 ^ 29"
    by simp_all
  from name_uuid_is_stamped_sha1 [OF this] show ?thesis by blast
qed

end
