(* ===== verification/UuidGenerators.thy ===== *)
theory UuidGenerators
  imports Uuid Sha1 "HOL-Library.Monad_Syntax" "HOL-Library.Signed_Division"
begin

text \<open>
  The rest of src/src/uuid.h: the instances of the templates for wide strings, the constructor from a range,
  and the generators that ask the operating system and the clock, which the header compiles on request.
  The operating system is a record of its answers. A wide character is its 32 bit code unit; the code
  compares it with ASCII characters only, so its signedness makes no difference.
\<close>

section \<open>Wide strings\<close>

type_synonym wchar = "32 word"

definition wide :: "char \<Rightarrow> wchar" where
  "wide c = of_char c"

definition hex2char_w :: "wchar \<Rightarrow> byte" where
  "hex2char_w ch =
     (if wide CHR ''0'' \<le> ch \<and> ch \<le> wide CHR ''9'' then ucast (ch - wide CHR ''0'')
      else if wide CHR ''a'' \<le> ch \<and> ch \<le> wide CHR ''f'' then ucast (10 + ch - wide CHR ''a'')
      else if wide CHR ''A'' \<le> ch \<and> ch \<le> wide CHR ''F'' then ucast (10 + ch - wide CHR ''A'')
      else 0)"

definition is_hex_w :: "wchar \<Rightarrow> bool" where
  "is_hex_w ch \<longleftrightarrow> (wide CHR ''0'' \<le> ch \<and> ch \<le> wide CHR ''9'') \<or>
     (wide CHR ''a'' \<le> ch \<and> ch \<le> wide CHR ''f'') \<or> (wide CHR ''A'' \<le> ch \<and> ch \<le> wide CHR ''F'')"

definition empty_guid_w :: "wchar list" where
  "empty_guid_w = map wide ''00000000-0000-0000-0000-000000000000''"

definition guid_encoder_w :: "wchar list" where
  "guid_encoder_w = map wide ''0123456789abcdef''"

fun from_string_loop_w :: "wchar list \<Rightarrow> bool \<Rightarrow> nat \<Rightarrow> byte list \<Rightarrow> (nat \<times> byte list) option" where
  "from_string_loop_w [] firstDigit index bytes = Some (index, bytes)"
| "from_string_loop_w (c # cs) firstDigit index bytes =
     (if c = wide CHR ''-'' then from_string_loop_w cs firstDigit index bytes
      else if index \<ge> 16 \<or> \<not> is_hex_w c then None
      else if firstDigit
        then from_string_loop_w cs False index (bytes[index := push_bit 4 (hex2char_w c)])
      else from_string_loop_w cs True (index + 1) (bytes[index := (bytes ! index) OR hex2char_w c]))"

definition from_string_w :: "wchar list \<Rightarrow> uuid option" where
  "from_string_w str =
     (if str = [] then None
      else if hd str = wide CHR ''{'' \<and> last str \<noteq> wide CHR ''}'' then None
      else (case from_string_loop_w (if hd str = wide CHR ''{'' then butlast (tl str) else str) True 0 (replicate 16 0) of
              None \<Rightarrow> None
            | Some (index, bytes) \<Rightarrow> if index < 16 then None else Some bytes))"

function to_string_loop_w :: "uuid \<Rightarrow> nat \<Rightarrow> nat \<Rightarrow> wchar list \<Rightarrow> wchar list" where
  "to_string_loop_w u i index uustr =
     (if i < 36 then
        (if i = 8 \<or> i = 13 \<or> i = 18 \<or> i = 23 then to_string_loop_w u (i + 1) index uustr
         else to_string_loop_w u (i + 2) (index + 1)
           (uustr[i := guid_encoder_w ! unat (drop_bit 4 (u ! index) AND 0x0f),
                  i + 1 := guid_encoder_w ! unat ((u ! index) AND 0x0f)]))
      else uustr)"
  by pat_completeness auto
termination
  by (relation "measure (\<lambda>(u, i, index, uustr). 36 - i)") auto

declare to_string_loop_w.simps [simp del]

definition to_string_w :: "uuid \<Rightarrow> wchar list" where
  "to_string_w u = to_string_loop_w u 0 0 empty_guid_w"

text \<open>A name of wide characters feeds the hasher four bytes each, the least significant first.\<close>

definition process_characters_w :: "sha1 \<Rightarrow> wchar list \<Rightarrow> sha1" where
  "process_characters_w hasher str = foldl (\<lambda>h c.
     process_byte (process_byte (process_byte (process_byte h (ucast (c AND 0xFF)))
       (ucast (drop_bit 8 c AND 0xFF))) (ucast (drop_bit 16 c AND 0xFF))) (ucast (drop_bit 24 c AND 0xFF))) hasher str"

definition uuid_name_generator_w :: "uuid \<Rightarrow> sha1 \<Rightarrow> wchar list \<Rightarrow> (sha1 \<times> uuid) option" where
  "uuid_name_generator_w nsuuid hasher name =
     make_uuid (process_characters_w (name_generator_reset nsuuid hasher) name)"

section \<open>The system generator\<close>

definition uuid_of_range :: "byte list \<Rightarrow> uuid" where
  "uuid_of_range xs = (if length xs = 16 then xs else uuid_nil)"

definition uuid_swap :: "uuid \<times> uuid \<Rightarrow> uuid \<times> uuid" where
  "uuid_swap p = (snd p, fst p)"

record GUID =
  Data1 :: "32 word"
  Data2 :: "16 word"
  Data3 :: "16 word"
  Data4 :: "byte list"

datatype platform = Windows | Unix | Apple | NoPlatform

text \<open>What the system answers: a failed call is \<open>None\<close>.\<close>

record os_answers =
  CoCreateGuid :: "GUID option"
  uuid_generate :: "byte list"
  CFUUIDGetUUIDBytes :: "byte list"

definition guid_bytes :: "GUID \<Rightarrow> byte list" where
  "guid_bytes g = [ucast (drop_bit 24 (Data1 g) AND 0xFF), ucast (drop_bit 16 (Data1 g) AND 0xFF),
     ucast (drop_bit 8 (Data1 g) AND 0xFF), ucast (Data1 g AND 0xFF),
     ucast (drop_bit 8 (Data2 g) AND 0xFF), ucast (Data2 g AND 0xFF),
     ucast (drop_bit 8 (Data3 g) AND 0xFF), ucast (Data3 g AND 0xFF)] @ map (\<lambda>i. Data4 g ! i) [0..<8]"

text \<open>\<open>Inl\<close> is the thrown \<open>std::system_error\<close>.\<close>

definition uuid_system_generator :: "platform \<Rightarrow> os_answers \<Rightarrow> string + uuid" where
  "uuid_system_generator pf os = (case pf of
     Windows \<Rightarrow> (case CoCreateGuid os of None \<Rightarrow> Inl ''CoCreateGuid failed''
       | Some newId \<Rightarrow> Inr (uuid_of_range (guid_bytes newId)))
   | Unix \<Rightarrow> Inr (uuid_of_range (map (\<lambda>i. uuid_generate os ! i) [0..<16]))
   | Apple \<Rightarrow> Inr (uuid_of_range (map (\<lambda>i. CFUUIDGetUUIDBytes os ! i) [0..<16]))
   | NoPlatform \<Rightarrow> Inr uuid_nil)"

section \<open>The time generator\<close>

text \<open>Arithmetic in \<open>long long\<close>; an overflow is undefined.\<close>

definition llong :: "int \<Rightarrow> int option" where
  "llong x = (if - (2 ^ 63) \<le> x \<and> x < 2 ^ 63 then Some x else None)"

text \<open>\<open>freq\<close> ticks of \<open>std::chrono::system_clock\<close> are one second: \<open>10 ^ 9\<close>, \<open>10 ^ 7\<close> or \<open>10 ^ 6\<close> by platform; \<open>now_ticks\<close>
  are counted from 1970.\<close>

definition get_time_intervals :: "int \<Rightarrow> int \<Rightarrow> int option" where
  "get_time_intervals freq now_ticks = do {
     start \<leftarrow> llong (- 12219292800 * freq);
     diff \<leftarrow> llong (now_ticks - start);
     ns \<leftarrow> llong (diff * (10 ^ 9 div freq));
     Some (ns sdiv 100)
   }"

record time_generator =
  device_address :: "byte list option"
  clock_sequence :: "16 word"

text \<open>The address of the first network adapter, which only Windows is asked for.\<close>

definition get_mac_address :: "platform \<Rightarrow> byte list option \<Rightarrow> time_generator \<Rightarrow> bool \<times> time_generator" where
  "get_mac_address pf adapter g = (case device_address g of Some a \<Rightarrow> (True, g)
     | None \<Rightarrow> (case (if pf = Windows then adapter else None) of None \<Rightarrow> (False, g)
         | Some a \<Rightarrow> (True, g\<lparr>device_address := Some (take 6 a)\<rparr>)))"

definition get_clock_sequence :: "time_generator \<Rightarrow> 16 word \<times> time_generator" where
  "get_clock_sequence g = (clock_sequence g, g\<lparr>clock_sequence := clock_sequence g + 1\<rparr>)"

definition llong_bytes :: "int \<Rightarrow> byte list" where
  "llong_bytes tm = map (\<lambda>k. word_of_int (tm div 256 ^ k)) [0..<8]"

definition time_uuid :: "int \<Rightarrow> 16 word \<Rightarrow> byte list \<Rightarrow> uuid" where
  "time_uuid tm clock_seq mac =
     (let ptm = llong_bytes tm;
          bytes = take 4 (drop 4 ptm) @ take 2 (drop 2 ptm) @ take 2 ptm @ [ucast clock_seq, ucast (drop_bit 8 clock_seq)] @ take 6 mac;
          bytes = bytes[8 := (bytes ! 8) AND 0xBF];
          bytes = bytes[8 := (bytes ! 8) OR 0x80];
          bytes = bytes[6 := (bytes ! 6) AND 0x1F];
          bytes = bytes[6 := (bytes ! 6) OR 0x10]
      in uuid_of_range bytes)"

definition uuid_time_generator :: "platform \<Rightarrow> byte list option \<Rightarrow> int \<Rightarrow> int \<Rightarrow> time_generator \<Rightarrow> (uuid \<times> time_generator) option" where
  "uuid_time_generator pf adapter freq now_ticks g =
     (let (found, g) = get_mac_address pf adapter g in
      if found then do {
        tm \<leftarrow> get_time_intervals freq now_ticks;
        let (clock_seq, g) = get_clock_sequence g;
        Some (time_uuid tm clock_seq (the (device_address g)), g)
      } else Some (uuid_nil, g))"

section \<open>Wide strings are read and printed like narrow ones\<close>

lemma char_small: "take_bit 32 (of_char c :: nat) = of_char c"
  by (rule take_bit_nat_eq_self, rule less_le_trans [OF nat_of_char_less_256]) simp

lemma wide_nat: "wide c = of_nat (of_char c)" "(of_char c :: byte) = of_nat (of_char c)"
  by (simp_all add: wide_def of_nat_of_char)

lemma unat_wide: "unat (wide c) = of_char c"
  unfolding wide_nat unat_of_nat using char_small [of c] by (simp add: take_bit_eq_mod)

lemma wide_le [simp]: "wide c \<le> wide d \<longleftrightarrow> c \<le> d"
  by (simp add: word_le_nat_alt unat_wide less_eq_char_def)

lemma wide_eq [simp]: "wide c = wide d \<longleftrightarrow> c = d"
  by (simp add: word_unat_eq_iff unat_wide)

lemma narrow_int: "(ucast (word_of_int k :: wchar) :: byte) = word_of_int k" "(ucast x :: byte) = word_of_int (uint x)" for x :: wchar
proof -
  show k: "(ucast (word_of_int k :: wchar) :: byte) = word_of_int k" for k by (rule ucast_down_wi) (simp add: is_down)
  from k [of "uint x"] show "(ucast x :: byte) = word_of_int (uint x)" by simp
qed

lemma narrow_arith: "(ucast (x - y :: wchar) :: byte) = ucast x - ucast y" "(ucast (x + y :: wchar) :: byte) = ucast x + ucast y"
  using narrow_int(1) [of "uint x - uint y"] narrow_int(1) [of "uint x + uint y"]
  unfolding narrow_int(2) [of x] narrow_int(2) [of y] by simp_all

lemma narrow_wide [simp]: "ucast (wide c) = (of_char c :: byte)"
  unfolding wide_nat using char_small [of c] by (simp add: unsigned_of_nat)

lemma hex_wide [simp]: "is_hex_w (wide c) = is_hex c" "hex2char_w (wide c) = hex2char c"
  unfolding is_hex_w_def is_hex_def hex2char_w_def hex2char_def wide_le narrow_arith narrow_wide by simp_all

lemma from_string_loop_wide: "from_string_loop_w (map wide s) fd i bytes = from_string_loop s fd i bytes"
  by (induction s arbitrary: fd i bytes) simp_all

theorem from_string_wide: "from_string_w (map wide s) = from_string s"
proof (cases "s = []")
  case False
  then have "hd (map wide s :: wchar list) = wide (hd s)" "last (map wide s :: wchar list) = wide (last s)"
    "butlast (tl (map wide s :: wchar list)) = map wide (butlast (tl s))"
    by (simp_all add: hd_map last_map map_butlast map_tl)
  then show ?thesis using False unfolding from_string_w_def from_string_def inner_view_def
    by (simp add: from_string_loop_wide)
qed (simp add: from_string_w_def from_string_def)

text \<open>A wide string with a character beyond ASCII is no identifier.\<close>

lemma is_hex_w_char: "is_hex_w w \<Longrightarrow> \<exists>c. w = wide c"
proof -
  assume "is_hex_w w"
  then have "w \<le> wide CHR ''f''" unfolding is_hex_w_def using wide_le [of "CHR ''9''" "CHR ''f''"] wide_le [of "CHR ''F''" "CHR ''f''"]
    by (auto intro: order_trans simp: less_eq_char_def)
  then have "unat w < 256" unfolding word_le_nat_alt unat_wide by simp
  then have "of_char (char_of (unat w)) = unat w" by simp
  then have "w = wide (char_of (unat w))" by (simp add: word_unat_eq_iff unat_wide)
  then show ?thesis ..
qed

lemma from_string_loop_w_chars: "from_string_loop_w ws fd i bytes = Some r \<Longrightarrow> \<exists>s. ws = map wide s"
proof (induction ws arbitrary: fd i bytes)
  case (Cons w ws)
  have "\<exists>c. w = wide c" using Cons.prems is_hex_w_char by (auto split: if_splits)
  moreover have "\<exists>s. ws = map wide s" using Cons.prems by (auto split: if_splits intro: Cons.IH)
  ultimately obtain c s where "w = wide c" "ws = map wide s" by blast
  then have "w # ws = map wide (c # s)" by simp
  then show ?case by (intro exI)
qed simp

theorem from_string_wide_only_ascii:
  assumes "from_string_w ws = Some u"
  shows "\<exists>s. ws = map wide s \<and> from_string s = Some u"
proof -
  let ?in = "if hd ws = wide CHR ''{'' then butlast (tl ws) else ws"
  have c: "ws \<noteq> []" "hd ws = wide CHR ''{'' \<longrightarrow> last ws = wide CHR ''}''"
    using assms by (auto simp: from_string_w_def split: if_splits)
  obtain r where "from_string_loop_w ?in True 0 (replicate 16 0) = Some r"
    using assms by (auto simp: from_string_w_def split: if_splits option.splits)
  then obtain s where s: "?in = map wide s" using from_string_loop_w_chars by blast
  have "\<exists>s. ws = map wide s"
  proof (cases "hd ws = wide CHR ''{''")
    case True
    have "tl ws \<noteq> []"
    proof
      assume "tl ws = []"
      then have "last ws = hd ws" using c(1) by (cases ws) simp_all
      then show False using True c(2) by simp
    qed
    then have "ws = hd ws # butlast (tl ws) @ [last ws]" using c(1) by (metis append_butlast_last_id last_tl list.collapse)
    then have "ws = map wide (CHR ''{'' # s @ [CHR ''}''])" using True c(2) s by simp
    then show ?thesis by (intro exI)
  next
    case False
    then show ?thesis using s by auto
  qed
  then show ?thesis using assms from_string_wide by metis
qed

lemma wide_tables: "empty_guid_w = map wide empty_guid" "n < 16 \<Longrightarrow> guid_encoder_w ! n = wide (guid_encoder ! n)"
  unfolding empty_guid_w_def empty_guid_def guid_encoder_w_def guid_encoder_def by (simp, subst nth_map) simp_all

lemma to_string_loop_wide: "to_string_loop_w u i index (map wide s) = map wide (to_string_loop u i index s)"
proof (induction u i index s rule: to_string_loop.induct)
  case (1 u i index s)
  show ?case
    by (subst to_string_loop_w.simps, subst to_string_loop.simps)
      (use 1 in \<open>auto simp: wide_tables nibble_less map_update [symmetric]\<close>)
qed

theorem wide_round_trip:
  assumes "uuid_ok u"
  shows "to_string_w u = map wide (to_string u) \<and> from_string_w (to_string_w u) = Some u"
proof -
  have "to_string_w u = map wide (to_string u)" by (simp add: to_string_w_def to_string_def wide_tables to_string_loop_wide)
  then show ?thesis using from_string_wide from_to_string [OF assms] by simp
qed

section \<open>Generated identifiers\<close>

text \<open>Names of wide characters: the digest is that of the namespace and four bytes a character.\<close>

lemma process_characters_w_bytes: "process_characters_w h ws = process_bytes h (concat (map le32 ws))"
proof (induction ws arbitrary: h)
  case (Cons w ws)
  have m: "(ucast (v AND 0xFF) :: byte) = ucast v" for v :: wchar
  proof -
    have "(0xFF :: wchar) = mask 8" by (simp add: mask_eq_exp_minus_1)
    show ?thesis unfolding \<open>(0xFF :: wchar) = mask 8\<close> by (rule bit_word_eqI) (auto simp: bit_simps)
  qed
  show ?case using Cons.IH by (simp add: process_characters_w_def process_bytes_def le32_def m)
qed (simp add: process_characters_w_def process_bytes_def)

theorem wide_name_generates:
  assumes "length (m_block h) = 64" "length ns + 4 * length ws < 2 ^ 29"
  shows "\<exists>h'. uuid_name_generator_w ns h ws = make_uuid (process_bytes (sha1_reset h) (ns @ concat (map le32 ws))) \<and>
    get_digest_bytes (process_bytes (sha1_reset h) (ns @ concat (map le32 ws))) = Some (h', sha1_bytes (ns @ concat (map le32 ws)))"
proof -
  have l: "length (concat (map le32 ws)) = 4 * length ws" by (induction ws) (simp_all add: le32_def)
  have "fed (process_bytes (sha1_reset h) (ns @ concat (map le32 ws))) (ns @ concat (map le32 ws))"
    using fed_bytes [OF fed_reset [OF assms(1)]] by simp
  then obtain h' where "get_digest_bytes (process_bytes (sha1_reset h) (ns @ concat (map le32 ws))) = Some (h', sha1_bytes (ns @ concat (map le32 ws)))"
    using get_digest_bytes_fed [of _ "ns @ concat (map le32 ws)"] assms(2) l by fastforce
  then show ?thesis by (simp add: uuid_name_generator_w_def process_characters_w_bytes name_generator_reset_def process_bytes_def)
qed

text \<open>The bytes of a Windows identifier determine it.\<close>

lemma guid_bytes_inj:
  assumes "guid_bytes g = guid_bytes h" "length (Data4 g) = 8" "length (Data4 h) = 8"
  shows "Data1 g = Data1 h \<and> Data2 g = Data2 h \<and> Data3 g = Data3 h \<and> Data4 g = Data4 h"
proof -
  have e: "(ucast (drop_bit 24 (Data1 g) AND 0xFF) :: byte) = ucast (drop_bit 24 (Data1 h) AND 0xFF)"
    "(ucast (drop_bit 16 (Data1 g) AND 0xFF) :: byte) = ucast (drop_bit 16 (Data1 h) AND 0xFF)"
    "(ucast (drop_bit 8 (Data1 g) AND 0xFF) :: byte) = ucast (drop_bit 8 (Data1 h) AND 0xFF)"
    "(ucast (Data1 g AND 0xFF) :: byte) = ucast (Data1 h AND 0xFF)"
    "(ucast (drop_bit 8 (Data2 g) AND 0xFF) :: byte) = ucast (drop_bit 8 (Data2 h) AND 0xFF)"
    "(ucast (Data2 g AND 0xFF) :: byte) = ucast (Data2 h AND 0xFF)"
    "(ucast (drop_bit 8 (Data3 g) AND 0xFF) :: byte) = ucast (drop_bit 8 (Data3 h) AND 0xFF)"
    "(ucast (Data3 g AND 0xFF) :: byte) = ucast (Data3 h AND 0xFF)"
    "map (\<lambda>i. Data4 g ! i) [0..<8] = map (\<lambda>i. Data4 h ! i) [0..<8]"
    using assms(1) by (simp_all add: guid_bytes_def)
  have ff: "(0xFF :: 32 word) = mask 8" "(0xFF :: 16 word) = mask 8" by (simp_all add: mask_eq_exp_minus_1)
  have b: "bit (ucast (v AND 0xFF) :: byte) n \<longleftrightarrow> n < 8 \<and> bit v n" for v :: "32 word" and n
    unfolding ff by (auto simp: bit_simps)
  have c: "bit (ucast (v AND 0xFF) :: byte) n \<longleftrightarrow> n < 8 \<and> bit v n" for v :: "16 word" and n
    unfolding ff by (auto simp: bit_simps)
  have "Data1 g = Data1 h"
  proof (rule bit_word_eqI)
    fix n assume "n < LENGTH(32)"
    then consider "n < 8" | "8 \<le> n" "n - 8 < 8" | "16 \<le> n" "n - 16 < 8" | "24 \<le> n" "n - 24 < 8" by (simp, linarith)
    then show "bit (Data1 g) n \<longleftrightarrow> bit (Data1 h) n"
    proof cases
      case 1 then show ?thesis using arg_cong [OF e(4), of "\<lambda>w. bit w n"] unfolding b by simp
    next
      case 2 then show ?thesis using arg_cong [OF e(3), of "\<lambda>w. bit w (n - 8)"] unfolding b by (simp add: bit_simps)
    next
      case 3 then show ?thesis using arg_cong [OF e(2), of "\<lambda>w. bit w (n - 16)"] unfolding b by (simp add: bit_simps)
    next
      case 4 then show ?thesis using arg_cong [OF e(1), of "\<lambda>w. bit w (n - 24)"] unfolding b by (simp add: bit_simps)
    qed
  qed
  moreover have w: "x = y" if "(ucast (drop_bit 8 x AND 0xFF) :: byte) = ucast (drop_bit 8 y AND 0xFF)"
    "(ucast (x AND 0xFF) :: byte) = ucast (y AND 0xFF)" for x y :: "16 word"
  proof (rule bit_word_eqI)
    fix n assume "n < LENGTH(16)"
    then consider "n < 8" | "8 \<le> n" "n - 8 < 8" by (simp, linarith)
    then show "bit x n \<longleftrightarrow> bit y n"
    proof cases
      case 1 then show ?thesis using arg_cong [OF that(2), of "\<lambda>w. bit w n"] unfolding c by simp
    next
      case 2 then show ?thesis using arg_cong [OF that(1), of "\<lambda>w. bit w (n - 8)"] unfolding c by (simp add: bit_simps)
    qed
  qed
  moreover have "Data4 g = Data4 h" by (rule nth_equalityI) (use e(9) assms(2,3) in simp_all)
  ultimately show ?thesis using w [OF e(5,6)] w [OF e(7,8)] by simp
qed

theorem system_generator_total:
  assumes "case CoCreateGuid os of None \<Rightarrow> True | Some g \<Rightarrow> length (Data4 g) = 8"
  shows "(uuid_system_generator pf os = Inl ''CoCreateGuid failed'' \<longleftrightarrow> pf = Windows \<and> CoCreateGuid os = None) \<and>
    (\<forall>u. uuid_system_generator pf os = Inr u \<longrightarrow> uuid_ok u) \<and>
    (pf = Windows \<and> CoCreateGuid os = Some g \<longrightarrow> uuid_system_generator pf os = Inr (guid_bytes g))"
  by (cases pf) (auto simp: uuid_system_generator_def uuid_of_range_def guid_bytes_def uuid_ok_def uuid_nil_def split: option.splits)

text \<open>The clock since 1582 in nanoseconds does not fit into 63 bits any more, so the time generator has no defined
  result from 1970 on, whenever it has an address to use.\<close>

lemma time_overflows:
  assumes "0 < freq" "freq dvd 10 ^ 9" "0 \<le> now_ticks"
  shows "get_time_intervals freq now_ticks = None"
proof -
  obtain q where q: "10 ^ 9 = freq * q" using assms(2) by (auto simp: dvd_def)
  have "(0 :: int) < 10 ^ 9" by simp
  then have f: "10 ^ 9 div freq = q" "0 < q" unfolding q using assms(1) by (simp_all add: zero_less_mult_iff)
  have "(now_ticks + 12219292800 * freq) * q = now_ticks * q + 12219292800 * (freq * q)" by (simp add: algebra_simps)
  also have "\<dots> = now_ticks * q + 12219292800 * 10 ^ 9" by (simp only: q [symmetric])
  finally have "2 ^ 63 \<le> (now_ticks + 12219292800 * freq) * q" using assms(3) f(2) by (simp add: add_increasing)
  then have "llong ((now_ticks + 12219292800 * freq) * (10 ^ 9 div freq)) = None" unfolding f(1) by (simp add: llong_def)
  moreover have "now_ticks - - 12219292800 * freq = now_ticks + 12219292800 * freq" by simp
  ultimately show ?thesis unfolding get_time_intervals_def
    by (cases "llong (- 12219292800 * freq)"; cases "llong (now_ticks + 12219292800 * freq)")
      (auto simp: llong_def split: if_splits)
qed

theorem time_generator_undefined:
  assumes "0 < freq" "freq dvd 10 ^ 9" "0 \<le> now_ticks" "device_address g \<noteq> None \<or> pf = Windows \<and> adapter \<noteq> None"
  shows "uuid_time_generator pf adapter freq now_ticks g = None"
proof -
  obtain g' where "get_mac_address pf adapter g = (True, g')"
    using assms(4) by (cases "device_address g"; cases adapter) (auto simp: get_mac_address_def)
  then show ?thesis using time_overflows [OF assms(1-3)] by (simp add: uuid_time_generator_def)
qed

text \<open>What the layout would be: variant and version are right, but the first four octets, for which the header's
  table names the low field of the timestamp, hold its high half.\<close>

theorem time_uuid_is_v1:
  assumes "length mac = 6"
  shows "uuid_ok (time_uuid tm clock_seq mac) \<and> variant (time_uuid tm clock_seq mac) = rfc \<and>
    version (time_uuid tm clock_seq mac) = time_based \<and> take 4 (time_uuid tm clock_seq mac) = drop 4 (llong_bytes tm)"
proof -
  let ?u = "time_uuid tm clock_seq mac"
  have l: "llong_bytes tm = map (\<lambda>k. word_of_int (tm div 256 ^ k)) [0, 1, 2, 3, 4, 5, 6, 7]"
    by (simp add: llong_bytes_def upt_rec)
  have u: "?u ! 8 = (ucast clock_seq AND 0xBF) OR 0x80" "?u ! 6 = (word_of_int tm AND 0x1F) OR 0x10" "length ?u = 16"
    "take 4 ?u = drop 4 (llong_bytes tm)"
    using assms by (simp_all add: time_uuid_def l Let_def uuid_of_range_def)
  have "(?u ! 8) AND 0xC0 = 0x80" "(?u ! 8) AND 0x80 = 0x80" "(?u ! 6) AND 0xF0 = 0x10"
    unfolding u by (rule masked_bits; simp)+
  then show ?thesis using u by (simp add: variant_def version_def uuid_ok_def)
qed

end
