(* ===== verification/Geometry.thy ===== *)
theory Geometry
  imports Float32
begin

text \<open>
  Vectors and axis-aligned boxes as the program uses them: the operations of \<open>Vector3\<close>,
  \<open>Vector3i\<close>, \<open>AABB\<close> and \<open>Transform3D\<close> of src/godot-cpp that src/src/core calls, and the helper
  \<open>transform_aabb\<close> of src/src/core/stream/stream_object.cpp. Every operation of \<open>float\<close> rounds with
  \<open>fl32\<close>. The lemmas show that on boxes with integer corners of moderate size nothing is rounded:
  there \<open>merge\<close> is the least box around two boxes, and the conversion to integers and back, which
  the database makes of every box, loses nothing.
\<close>

section \<open>Vectors\<close>

datatype Vector3 = Vector3 (vx: rat) (vy: rat) (vz: rat)

datatype Vector3i = Vector3i (ix: int) (iy: int) (iz: int)

definition vadd :: "Vector3 \<Rightarrow> Vector3 \<Rightarrow> Vector3" where
  "vadd v w = Vector3 (fl32 (vx v + vx w)) (fl32 (vy v + vy w)) (fl32 (vz v + vz w))"

definition vsub :: "Vector3 \<Rightarrow> Vector3 \<Rightarrow> Vector3" where
  "vsub v w = Vector3 (fl32 (vx v - vx w)) (fl32 (vy v - vy w)) (fl32 (vz v - vz w))"

instantiation Vector3 :: "{zero, plus, minus}"
begin

definition zero_Vector3 :: Vector3 where
  "zero_Vector3 = Vector3 0 0 0"

definition plus_Vector3 :: "Vector3 \<Rightarrow> Vector3 \<Rightarrow> Vector3" where
  "plus_Vector3 = vadd"

definition minus_Vector3 :: "Vector3 \<Rightarrow> Vector3 \<Rightarrow> Vector3" where
  "minus_Vector3 = vsub"

instance ..

end

definition divide_by :: "Vector3 \<Rightarrow> rat \<Rightarrow> Vector3" where
  "divide_by v s = Vector3 (fl32 (vx v / s)) (fl32 (vy v / s)) (fl32 (vz v / s))"

definition dot :: "Vector3 \<Rightarrow> Vector3 \<Rightarrow> rat" where
  "dot v w = fl32 (fl32 (fl32 (vx v * vx w) + fl32 (vy v * vy w)) + fl32 (vz v * vz w))"

text \<open>\<open>int32_t\<close> arithmetic on 64-bit targets wraps in practice; the conversion from \<open>float\<close> cuts the
  fraction off, and gives \<open>INT_MIN\<close> out of range as the x86 instruction does (C++ leaves it open; no
  property speaks of that case).\<close>

definition to_i32 :: "int \<Rightarrow> int" where
  "to_i32 i = signed_take_bit 31 i"

definition trunc :: "rat \<Rightarrow> int" where
  "trunc q = (if 0 \<le> q then \<lfloor>q\<rfloor> else \<lceil>q\<rceil>)"

definition float_to_i32 :: "rat \<Rightarrow> int" where
  "float_to_i32 q = (if - (2 ^ 31) \<le> trunc q \<and> trunc q < 2 ^ 31 then trunc q else - (2 ^ 31))"

definition vector3i_of :: "Vector3 \<Rightarrow> Vector3i" where
  "vector3i_of v = Vector3i (float_to_i32 (vx v)) (float_to_i32 (vy v)) (float_to_i32 (vz v))"

definition vector3_of :: "Vector3i \<Rightarrow> Vector3" where
  "vector3_of v = Vector3 (fl32 (of_int (ix v))) (fl32 (of_int (iy v))) (fl32 (of_int (iz v)))"

definition visub :: "Vector3i \<Rightarrow> Vector3i \<Rightarrow> Vector3i" where
  "visub v w = Vector3i (to_i32 (ix v - ix w)) (to_i32 (iy v - iy w)) (to_i32 (iz v - iz w))"

instantiation Vector3i :: minus
begin

definition minus_Vector3i :: "Vector3i \<Rightarrow> Vector3i \<Rightarrow> Vector3i" where
  "minus_Vector3i = visub"

instance ..

end

section \<open>Boxes\<close>

datatype AABB = AABB (position: Vector3) (extent: Vector3)

definition AABB_new :: AABB where
  "AABB_new = AABB 0 0"

definition get_end :: "AABB \<Rightarrow> Vector3" where
  "get_end a = position a + extent a"

definition merge_with :: "AABB \<Rightarrow> AABB \<Rightarrow> AABB" where
  "merge_with a p_aabb =
     (let beg_1 = position a; beg_2 = position p_aabb;
          end_1 = extent a + beg_1; end_2 = extent p_aabb + beg_2;
          mn = Vector3 (if vx beg_1 < vx beg_2 then vx beg_1 else vx beg_2)
                       (if vy beg_1 < vy beg_2 then vy beg_1 else vy beg_2)
                       (if vz beg_1 < vz beg_2 then vz beg_1 else vz beg_2);
          mx = Vector3 (if vx end_1 > vx end_2 then vx end_1 else vx end_2)
                       (if vy end_1 > vy end_2 then vy end_1 else vy end_2)
                       (if vz end_1 > vz end_2 then vz end_1 else vz end_2)
      in AABB mn (mx - mn))"

definition expand_to :: "AABB \<Rightarrow> Vector3 \<Rightarrow> AABB" where
  "expand_to a p =
     (let b = position a; e = position a + extent a;
          b = Vector3 (if vx p < vx b then vx p else vx b) (if vy p < vy b then vy p else vy b)
                      (if vz p < vz b then vz p else vz b);
          e = Vector3 (if vx p > vx e then vx p else vx e) (if vy p > vy e then vy p else vy e)
                      (if vz p > vz e then vz p else vz e)
      in AABB b (e - b))"

section \<open>Transforms\<close>

record Transform3D =
  basis0 :: Vector3
  basis1 :: Vector3
  basis2 :: Vector3
  origin :: Vector3

definition xform :: "Transform3D \<Rightarrow> Vector3 \<Rightarrow> Vector3" where
  "xform t v = Vector3 (fl32 (dot (basis0 t) v + vx (origin t))) (fl32 (dot (basis1 t) v + vy (origin t)))
     (fl32 (dot (basis2 t) v + vz (origin t)))"

definition aabb_vertices :: "AABB \<Rightarrow> Vector3 list" where
  "aabb_vertices a =
     [position a,
      position a + Vector3 (vx (extent a)) 0 0,
      position a + Vector3 0 (vy (extent a)) 0,
      position a + Vector3 0 0 (vz (extent a)),
      position a + Vector3 (vx (extent a)) (vy (extent a)) 0,
      position a + Vector3 (vx (extent a)) 0 (vz (extent a)),
      position a + Vector3 0 (vy (extent a)) (vz (extent a)),
      position a + extent a]"

definition transform_aabb :: "AABB \<Rightarrow> Transform3D \<Rightarrow> AABB" where
  "transform_aabb local_aabb t =
     foldl (\<lambda>world v. expand_to world (xform t v))
       (AABB (xform t (hd (aabb_vertices local_aabb))) (Vector3 0 0 0)) (tl (aabb_vertices local_aabb))"

section \<open>Boxes with integer corners\<close>

text \<open>\<open>box_of l h\<close> is the box between the corners \<open>l\<close> and \<open>h\<close>; \<open>near l\<close> keeps the corner within
  \<open>2 ^ 22\<close> of the origin, where every operation on such boxes is exact.\<close>

definition vector_of :: "Vector3i \<Rightarrow> Vector3" where
  "vector_of p = Vector3 (of_int (ix p)) (of_int (iy p)) (of_int (iz p))"

definition box_of :: "Vector3i \<Rightarrow> Vector3i \<Rightarrow> AABB" where
  "box_of l h = AABB (vector_of l)
     (Vector3 (of_int (ix h - ix l)) (of_int (iy h - iy l)) (of_int (iz h - iz l)))"

definition near :: "Vector3i \<Rightarrow> bool" where
  "near p \<longleftrightarrow> \<bar>ix p\<bar> \<le> 2 ^ 22 \<and> \<bar>iy p\<bar> \<le> 2 ^ 22 \<and> \<bar>iz p\<bar> \<le> 2 ^ 22"

definition vmin :: "Vector3i \<Rightarrow> Vector3i \<Rightarrow> Vector3i" where
  "vmin p q = Vector3i (min (ix p) (ix q)) (min (iy p) (iy q)) (min (iz p) (iz q))"

definition vmax :: "Vector3i \<Rightarrow> Vector3i \<Rightarrow> Vector3i" where
  "vmax p q = Vector3i (max (ix p) (ix q)) (max (iy p) (iy q)) (max (iz p) (iz q))"

definition vle :: "Vector3i \<Rightarrow> Vector3i \<Rightarrow> bool" where
  "vle p q \<longleftrightarrow> ix p \<le> ix q \<and> iy p \<le> iy q \<and> iz p \<le> iz q"

lemma fl32_sum [float_exact]: "\<bar>a + b\<bar> \<le> 2 ^ 24 \<Longrightarrow> fl32 (of_int a + of_int b) = of_int (a + b)"
  using fl32_int [of "a + b"] by simp

lemma fl32_diff [float_exact]: "\<bar>a - b\<bar> \<le> 2 ^ 24 \<Longrightarrow> fl32 (of_int a - of_int b) = of_int (a - b)"
  using fl32_int [of "a - b"] by simp

lemma near_vmin [simp]: "near p \<Longrightarrow> near q \<Longrightarrow> near (vmin p q)"
  by (auto simp: near_def vmin_def)

lemma near_vmax [simp]: "near p \<Longrightarrow> near q \<Longrightarrow> near (vmax p q)"
  by (auto simp: near_def vmax_def)

lemma near_diff:
  assumes "near p" "near h"
  shows "\<bar>ix h - ix p\<bar> \<le> 2 ^ 24" "\<bar>iy h - iy p\<bar> \<le> 2 ^ 24" "\<bar>iz h - iz p\<bar> \<le> 2 ^ 24"
  using assms by (auto simp: near_def)

lemma vector_add: "near p \<Longrightarrow> near h \<Longrightarrow>
    vadd (vector_of p) (Vector3 (of_int (ix h - ix p)) (of_int (iy h - iy p)) (of_int (iz h - iz p))) = vector_of h"
  using fl32_sum [of "ix p" "ix h - ix p"] fl32_sum [of "iy p" "iy h - iy p"] fl32_sum [of "iz p" "iz h - iz p"]
  by (simp add: vadd_def vector_of_def near_def)

lemma vadd_comm: "vadd v w = vadd w v"
  by (simp add: vadd_def add.commute)

lemma vector_sub: "near p \<Longrightarrow> near h \<Longrightarrow> vsub (vector_of h) (vector_of p) =
    Vector3 (of_int (ix h - ix p)) (of_int (iy h - iy p)) (of_int (iz h - iz p))"
  using fl32_diff [OF near_diff(1)] fl32_diff [OF near_diff(2)] fl32_diff [OF near_diff(3)]
  by (simp add: vsub_def vector_of_def del: of_int_diff)

lemma get_end_box [float_exact]: "near l \<Longrightarrow> near h \<Longrightarrow> get_end (box_of l h) = vector_of h"
  by (simp add: get_end_def box_of_def plus_Vector3_def vector_add del: of_int_diff)

lemma merge_with_box [float_exact]:
  assumes "near l" "near h" "near l'" "near h'"
  shows "merge_with (box_of l h) (box_of l' h') = box_of (vmin l l') (vmax h h')"
proof -
  have e: "extent (box_of l h) + vector_of l = vector_of h"
    "extent (box_of l' h') + vector_of l' = vector_of h'"
    using assms vector_add [of l h] vector_add [of l' h']
    by (simp_all add: box_of_def plus_Vector3_def vadd_comm del: of_int_diff)
  have mn: "Vector3 (if vx (vector_of l) < vx (vector_of l') then vx (vector_of l) else vx (vector_of l'))
      (if vy (vector_of l) < vy (vector_of l') then vy (vector_of l) else vy (vector_of l'))
      (if vz (vector_of l) < vz (vector_of l') then vz (vector_of l) else vz (vector_of l')) = vector_of (vmin l l')"
    by (simp add: vector_of_def vmin_def min_def)
  have mx: "Vector3 (if vx (vector_of h) > vx (vector_of h') then vx (vector_of h) else vx (vector_of h'))
      (if vy (vector_of h) > vy (vector_of h') then vy (vector_of h) else vy (vector_of h'))
      (if vz (vector_of h) > vz (vector_of h') then vz (vector_of h) else vz (vector_of h')) = vector_of (vmax h h')"
    by (auto simp: vector_of_def vmax_def max_def)
  have p: "position (box_of l h) = vector_of l" "position (box_of l' h') = vector_of l'" by (simp_all add: box_of_def)
  show ?thesis unfolding merge_with_def Let_def p e mn mx minus_Vector3_def
    using assms by (simp add: vector_sub box_of_def del: of_int_diff)
qed

lemma expand_to_box [float_exact]:
  assumes "near l" "near h" "near p"
  shows "expand_to (box_of l h) (vector_of p) = box_of (vmin l p) (vmax h p)"
proof -
  have e: "vector_of l + extent (box_of l h) = vector_of h"
    using assms by (simp add: box_of_def plus_Vector3_def vector_add del: of_int_diff)
  have mn: "Vector3 (if vx (vector_of p) < vx (vector_of l) then vx (vector_of p) else vx (vector_of l))
      (if vy (vector_of p) < vy (vector_of l) then vy (vector_of p) else vy (vector_of l))
      (if vz (vector_of p) < vz (vector_of l) then vz (vector_of p) else vz (vector_of l)) = vector_of (vmin l p)"
    by (auto simp: vector_of_def vmin_def min_def)
  have mx: "Vector3 (if vx (vector_of p) > vx (vector_of h) then vx (vector_of p) else vx (vector_of h))
      (if vy (vector_of p) > vy (vector_of h) then vy (vector_of p) else vy (vector_of h))
      (if vz (vector_of p) > vz (vector_of h) then vz (vector_of p) else vz (vector_of h)) = vector_of (vmax h p)"
    by (auto simp: vector_of_def vmax_def max_def)
  have q: "position (box_of l h) = vector_of l" by (simp add: box_of_def)
  show ?thesis unfolding expand_to_def Let_def q e mn mx minus_Vector3_def
    using assms by (simp add: vector_sub box_of_def del: of_int_diff)
qed

lemma trunc_int [simp]: "trunc (of_int z) = z"
  by (simp add: trunc_def)

lemma vector3i_of_vector [float_exact]: "near p \<Longrightarrow> vector3i_of (vector_of p) = p"
  by (cases p) (auto simp: vector3i_of_def vector_of_def near_def float_to_i32_def)

lemma to_i32_id [simp]: "- (2 ^ 31) \<le> i \<Longrightarrow> i < 2 ^ 31 \<Longrightarrow> to_i32 i = i"
  by (simp add: to_i32_def signed_take_bit_int_eq_self)

lemma box_of_corners [float_exact]:
  assumes "near l" "near h"
  shows "AABB (vector3_of l) (vector3_of (h - l)) = box_of l h"
proof -
  have "fl32 (of_int (ix h - ix l)) = of_int (ix h - ix l)" "fl32 (of_int (iy h - iy l)) = of_int (iy h - iy l)"
    "fl32 (of_int (iz h - iz l)) = of_int (iz h - iz l)"
    using near_diff [OF assms] by (simp_all only: fl32_int)
  moreover have "to_i32 (ix h - ix l) = ix h - ix l" "to_i32 (iy h - iy l) = iy h - iy l"
    "to_i32 (iz h - iz l) = iz h - iz l"
    using near_diff [OF assms] by (auto intro: to_i32_id)
  moreover have "fl32 (of_int (ix l)) = of_int (ix l)" "fl32 (of_int (iy l)) = of_int (iy l)"
    "fl32 (of_int (iz l)) = of_int (iz l)"
    using assms by (auto intro!: fl32_int simp: near_def)
  ultimately show ?thesis
    by (simp add: vector3_of_def box_of_def vector_of_def minus_Vector3i_def visub_def del: of_int_diff)
qed

end
