(* ===== verification/Chunk.thy ===== *)
theory Chunk
  imports Geometry
begin

text \<open>
  src/src/core/components/chunk.h: the tile that indexes a box. The level is the first one whose tile
  edge \<open>4 ^ level\<close> covers the longest side of the box, the tile is the one of the grid of that level
  that holds the position of the box. \<open>std::log2\<close> on \<open>float\<close> is a parameter: the standard fixes
  neither its error nor its rounding. The theorems need of it that it is monotone and exact on the
  powers of 4, which the C libraries of the target platforms have.
\<close>

unbundle bit_operations_syntax

record Chunk =
  chunk_x :: int
  chunk_y :: int
  chunk_z :: int
  level :: "8 word"

text \<open>\<open>m\<close>, the longest side; \<open>std::max\<close> over four values.\<close>

definition longest_side :: "AABB \<Rightarrow> rat" where
  "longest_side a = max (max (max (vx (extent a)) (vy (extent a))) (vz (extent a))) 0"

text \<open>\<open>static_cast<int>(ceil(..))\<close> is stored in a \<open>uint8_t\<close>; \<open>level >= 0\<close> always holds there.\<close>

definition chunk_level :: "(rat \<Rightarrow> rat) \<Rightarrow> rat \<Rightarrow> 8 word" where
  "chunk_level log2f m =
     (let lv = (if m \<le> 1 then 0
        else (let l = word_of_int \<lceil>log2f m / 2\<rceil> :: 8 word
              in if l < 32 \<and> (push_bit (2 * unat l) 1 :: 64 word) < word_of_int (trunc m) then l + 1 else l))
      in if lv > 31 then 0 else lv)"

definition tile_mask :: "8 word \<Rightarrow> 32 word" where
  "tile_mask lv = (if 2 * unat lv < 32 then NOT (push_bit (2 * unat lv) 1 - 1) else 0)"

definition tile_coord :: "32 word \<Rightarrow> rat \<Rightarrow> int" where
  "tile_coord msk q = sint (word_of_int (float_to_i32 q) AND msk)"

definition compute_chunk :: "(rat \<Rightarrow> rat) \<Rightarrow> AABB \<Rightarrow> Chunk" where
  "compute_chunk log2f a =
     (let lv = chunk_level log2f (longest_side a); msk = tile_mask lv
      in \<lparr>chunk_x = tile_coord msk (vx (position a)), chunk_y = tile_coord msk (vy (position a)),
          chunk_z = tile_coord msk (vz (position a)), level = lv\<rparr>)"

definition chunk_eq :: "Chunk \<Rightarrow> Chunk \<Rightarrow> bool" where
  "chunk_eq c other \<longleftrightarrow> chunk_x c = chunk_x other \<and> chunk_y c = chunk_y other \<and>
     chunk_z c = chunk_z other \<and> level c = level other"

text \<open>\<open>std::hash\<close> of an integer is its conversion to \<open>size_t\<close>.\<close>

definition hash_combine :: "64 word \<Rightarrow> 64 word \<Rightarrow> 64 word" where
  "hash_combine seed h = seed XOR (h + 0x9e3779b9 + push_bit 6 seed + drop_bit 2 seed)"

definition chunk_hash :: "Chunk \<Rightarrow> 64 word" where
  "chunk_hash c = hash_combine (hash_combine (hash_combine (word_of_int (chunk_x c))
     (word_of_int (chunk_y c))) (word_of_int (chunk_z c))) (ucast (level c))"

section \<open>The level\<close>

definition log2_ok :: "(rat \<Rightarrow> rat) \<Rightarrow> bool" where
  "log2_ok f \<longleftrightarrow> (\<forall>x y. 0 < x \<and> x \<le> y \<longrightarrow> f x \<le> f y) \<and> (\<forall>k. f (4 ^ k) = 2 * of_nat k)"

lemma trunc_nonneg: "0 \<le> q \<Longrightarrow> trunc q = \<lfloor>q\<rfloor>"
  by (simp add: trunc_def)

lemma level_candidates:
  assumes "log2_ok f" "4 ^ k < m" "m \<le> 4 ^ Suc k"
  shows "\<lceil>f m / 2\<rceil> = int k \<or> \<lceil>f m / 2\<rceil> = int (Suc k)"
proof -
  have "(0::rat) < 4 ^ k" by simp
  then have "f (4 ^ k) \<le> f m" "f m \<le> f (4 ^ Suc k)"
    using assms unfolding log2_ok_def by (meson less_imp_le less_trans)+
  then have "of_nat k \<le> f m / 2" "f m / 2 \<le> of_nat (Suc k)"
    using assms(1) unfolding log2_ok_def by (simp_all del: power_Suc)
  then have "int k \<le> \<lceil>f m / 2\<rceil>" "\<lceil>f m / 2\<rceil> \<le> int (Suc k)"
    by (simp_all add: ceiling_le_iff le_ceiling_iff)
  then show ?thesis by linarith
qed

lemma pow4_between:
  assumes "1 < m" "m \<le> 4 ^ n"
  obtains k where "k < n" "4 ^ k < m" "m \<le> (4::rat) ^ Suc k"
proof -
  define j where "j = (LEAST j. m \<le> 4 ^ j)"
  have j: "m \<le> 4 ^ j" "j \<le> n" unfolding j_def using assms(2) by (auto intro: LeastI Least_le)
  then obtain k where k: "j = Suc k" using assms(1) by (cases j) auto
  then have "\<not> m \<le> 4 ^ k" unfolding j_def using not_less_Least [of k "\<lambda>j. m \<le> 4 ^ j"] by auto
  then show ?thesis using that [of k] j k by auto
qed

lemma push_bit_level:
  assumes "l \<le> 31" shows "uint (push_bit (2 * l) 1 :: 64 word) = 4 ^ l"
proof -
  have "(push_bit (2 * l) 1 :: 64 word) = word_of_int (4 ^ l)" by (simp add: push_bit_eq_mult power_mult)
  moreover have "(4::int) ^ l < 2 ^ 64"
    using power_strict_increasing [of l 32 "4::int"] assms by simp
  ultimately show ?thesis by (simp only: uint_word_of_int_eq) (simp add: take_bit_int_eq_self)
qed

lemma less_level_iff:
  assumes "l \<le> 31" "0 \<le> t" "t < 2 ^ 64"
  shows "(push_bit (2 * l) 1 :: 64 word) < word_of_int t \<longleftrightarrow> 4 ^ l < t"
  unfolding word_less_def push_bit_level [OF assms(1)]
  using assms by (simp add: uint_word_of_int_eq take_bit_int_eq_self)

lemma chunk_level_between:
  assumes f: "log2_ok f" and m: "4 ^ k < m" "m \<le> 4 ^ Suc k" and k: "k \<le> 31" "m < 4 ^ 32"
  shows "chunk_level f m = (if \<lceil>f m / 2\<rceil> = int k \<and> \<lfloor>m\<rfloor> = 4 ^ k then of_nat k
     else if k = 31 then 0 else of_nat (Suc k))"
proof -
  have pos: "(1::rat) \<le> 4 ^ k" by simp
  then have m1: "\<not> m \<le> 1" "0 \<le> m" using m(1) by linarith+
  have fl: "4 ^ k \<le> \<lfloor>m\<rfloor>" "\<lfloor>m\<rfloor> \<le> 4 ^ Suc k"
    using m by (simp_all add: le_floor_iff floor_le_iff del: power_Suc)
  have t: "0 \<le> \<lfloor>m\<rfloor>" "\<lfloor>m\<rfloor> < 2 ^ 64" using m1 k(2) by (simp_all add: floor_less_iff)
  note L = less_level_iff [OF _ t]
  have u: "unat (of_nat j :: 8 word) = j" if "j \<le> 32" for j
    using that by (simp add: unat_of_nat take_bit_nat_eq_self)
  have u1: "unat (of_nat k + 1 :: 8 word) = Suc k" using u [of "Suc k"] k by (simp add: add.commute)
  from level_candidates [OF f m] show ?thesis
  proof
    assume c: "\<lceil>f m / 2\<rceil> = int k"
    have "(of_nat k :: 8 word) < 32" using u [of k] k by (simp add: word_less_nat_alt)
    then show ?thesis using c m1 L [of k] k fl u [of k] u1
      by (auto simp: chunk_level_def Let_def trunc_nonneg word_less_nat_alt add.commute [of 1])
  next
    assume c: "\<lceil>f m / 2\<rceil> = int (Suc k)"
    show ?thesis
    proof (cases "k = 31")
      case True
      then show ?thesis using c m1 by (simp add: chunk_level_def Let_def)
    next
      case False
      then have "\<not> 4 ^ Suc k < \<lfloor>m\<rfloor>" "Suc k \<le> 31" using fl k by auto
      then show ?thesis using c m1 L [of "Suc k"] False u [of "Suc k"]
        by (auto simp: chunk_level_def Let_def trunc_nonneg word_less_nat_alt)
    qed
  qed
qed

section \<open>The tile\<close>

lemma and_not_mask_int: "i AND NOT (mask n) = (i :: int) - i mod 2 ^ n"
proof -
  have "i AND NOT (mask n) = push_bit n (drop_bit n i)"
    by (rule bit_eqI) (auto simp: bit_simps)
  also have "\<dots> = i div 2 ^ n * 2 ^ n" by (simp add: push_bit_eq_mult drop_bit_eq_div)
  also have "\<dots> = i - i mod 2 ^ n" by (simp add: minus_mod_eq_div_mult)
  finally show ?thesis .
qed

lemma word_of_int_and: "(word_of_int i :: 'a::len word) AND word_of_int j = word_of_int (i AND j)"
  by (rule bit_word_eqI) (simp add: bit_simps)

lemma word_of_int_not: "NOT (word_of_int i :: 'a::len word) = word_of_int (NOT i)"
  by (rule bit_word_eqI) (simp add: bit_simps)

lemma tile_mask_eq: "unat lv < 16 \<Longrightarrow> tile_mask lv = word_of_int (NOT (mask (2 * unat lv)))"
  by (simp add: tile_mask_def mask_eq_exp_minus_1 push_bit_eq_mult flip: word_of_int_not)

lemma aligned_range:
  assumes "n \<le> 31" "- (2 ^ 31) \<le> i" "i < (2::int) ^ 31"
  shows "- (2 ^ 31) \<le> i - i mod 2 ^ n \<and> i - i mod 2 ^ n \<le> i"
proof -
  have "(2::int) ^ 31 = 2 ^ (31 - n) * 2 ^ n" using assms(1) by (simp flip: power_add)
  then have "- (2 ^ (31 - n)) * 2 ^ n \<le> i" using assms(2) by simp
  then have "- (2 ^ (31 - n)) * 2 ^ n div 2 ^ n \<le> i div 2 ^ n" by (rule zdiv_mono1) simp
  then have "- (2 ^ (31 - n)) \<le> i div 2 ^ n" by (subst (asm) nonzero_mult_div_cancel_right) simp_all
  then have "- (2 ^ (31 - n)) * 2 ^ n \<le> i div 2 ^ n * 2 ^ n" by (rule mult_right_mono) simp
  moreover have "0 \<le> i mod 2 ^ n" by simp
  ultimately show ?thesis using \<open>2 ^ 31 = _\<close> by (simp flip: minus_mod_eq_div_mult)
qed

lemma tile_coord_eq:
  assumes "unat lv < 16"
  shows "tile_coord (tile_mask lv) q = float_to_i32 q - float_to_i32 q mod 4 ^ unat lv"
proof -
  let ?i = "float_to_i32 q" and ?n = "2 * unat lv"
  have r: "- (2 ^ 31) \<le> ?i" "?i < 2 ^ 31" by (auto simp: float_to_i32_def)
  have "?n \<le> 31" using assms by linarith
  note A = aligned_range [OF this r]
  have "word_of_int ?i AND tile_mask lv = word_of_int (?i - ?i mod 2 ^ ?n)"
    unfolding tile_mask_eq [OF assms] by (simp only: word_of_int_and and_not_mask_int)
  then have "tile_coord (tile_mask lv) q = signed_take_bit 31 (?i - ?i mod 2 ^ ?n)"
    unfolding tile_coord_def by (simp only: signed_of_int) simp
  also have "\<dots> = ?i - ?i mod 2 ^ ?n"
    using A r by (intro signed_take_bit_int_eq_self) linarith+
  finally show ?thesis by (simp add: power_mult)
qed

lemma tile_coord_coarse: "16 \<le> unat lv \<Longrightarrow> tile_coord (tile_mask lv) q = 0"
  by (simp add: tile_coord_def tile_mask_def)


section \<open>Properties\<close>

text \<open>\<open>tile_edge\<close> is the side of the tile; the box of the tile in the spatial index spans
  \<open>[x, x + tile_edge]\<close>.\<close>

definition tile_edge :: "Chunk \<Rightarrow> int" where
  "tile_edge c = 4 ^ unat (level c)"

lemma chunk_level_fits:
  assumes f: "log2_ok f" and m: "m \<le> 4 ^ 31"
  shows "\<lfloor>m\<rfloor> \<le> 4 ^ unat (chunk_level f m) \<and>
    (0 < unat (chunk_level f m) \<longrightarrow> 4 ^ (unat (chunk_level f m) - 1) < m) \<and> unat (chunk_level f m) \<le> 31"
proof (cases "m \<le> 1")
  case True
  then have "chunk_level f m = 0" "\<lfloor>m\<rfloor> \<le> 1" by (simp_all add: chunk_level_def floor_le_iff)
  then show ?thesis by simp
next
  case False
  then obtain k where k: "k < 31" "4 ^ k < m" "m \<le> 4 ^ Suc k" using pow4_between [of m 31] m by auto
  have l: "chunk_level f m = (if \<lceil>f m / 2\<rceil> = int k \<and> \<lfloor>m\<rfloor> = 4 ^ k then of_nat k else of_nat (Suc k))"
    using chunk_level_between [OF f k(2,3)] k(1) m by simp
  have u: "unat (of_nat k :: 8 word) = k" "unat (of_nat (Suc k) :: 8 word) = Suc k"
    using k(1) by (simp_all only: unat_of_nat) (simp_all add: take_bit_nat_eq_self)
  have "\<lfloor>m\<rfloor> \<le> 4 ^ Suc k" using k(3) by (simp add: floor_le_iff del: power_Suc)
  moreover have "0 < k \<Longrightarrow> (4::rat) ^ (k - 1) < m"
    by (rule le_less_trans [OF power_increasing k(2)]) auto
  ultimately show ?thesis using k unfolding l by (simp add: u del: of_nat_Suc power_Suc split: if_split)
qed

lemma log2_okD: "log2_ok f \<Longrightarrow> f (4 ^ k) = 2 * of_nat k"
  by (simp add: log2_ok_def)

text \<open>The greatest integer below the logarithm is one function with the two laws.\<close>

definition log2_floor :: "rat \<Rightarrow> rat" where
  "log2_floor x = of_int (ilog2 x)"

lemma log2_floor_ok [simp]: "log2_ok log2_floor"
proof -
  have "ilog2 (4 ^ k) = int (2 * k)" for k
  proof -
    have "(2::rat) powi ilog2 (4 ^ k) \<le> 2 powi int (2 * k)" "(2::rat) powi int (2 * k) < 2 powi (ilog2 (4 ^ k) + 1)"
      using ilog2_bounds [of "4 ^ k"] by (simp_all only: power_int_of_nat power_mult) simp_all
    then show ?thesis unfolding powi_le powi_less by linarith
  qed
  then show ?thesis using ilog2_mono by (simp add: log2_ok_def log2_floor_def)
qed

text \<open>C23: The level of a box. For a box whose longest side is at most \<open>4 ^ 31\<close> the tile edge covers the
  longest side, up to a fraction of one unit, and no smaller tile of the grid would: unless the level
  is 0, the edge is less than four times the side.\<close>

theorem chunk_level_is_least:
  assumes "log2_ok log2f" "longest_side a \<le> 4 ^ 31"
  shows "\<lfloor>longest_side a\<rfloor> \<le> tile_edge (compute_chunk log2f a) \<and>
    (level (compute_chunk log2f a) = 0 \<or> of_int (tile_edge (compute_chunk log2f a)) < 4 * longest_side a)"
proof -
  let ?l = "unat (chunk_level log2f (longest_side a))"
  have "level (compute_chunk log2f a) = chunk_level log2f (longest_side a)"
    by (simp add: compute_chunk_def Let_def)
  moreover have "(of_int (4 ^ ?l) :: rat) < 4 * longest_side a" if "0 < ?l"
    using chunk_level_fits [OF assms] that power_Suc [of "4::rat" "?l - 1"] by simp
  moreover have "0 < ?l" if "chunk_level log2f (longest_side a) \<noteq> 0"
    using that by (simp add: unat_eq_0 neq0_conv [symmetric] del: neq0_conv)
  ultimately show ?thesis using chunk_level_fits [OF assms] unfolding tile_edge_def by metis
qed

theorem chunk_level_is_least_witness:
  "compute_chunk log2_floor (AABB (Vector3 0 0 0) (Vector3 17 3 (1/2))) =
     \<lparr>chunk_x = 0, chunk_y = 0, chunk_z = 0, level = 3\<rparr> \<and>
   \<lfloor>longest_side (AABB (Vector3 0 0 0) (Vector3 17 3 (1/2)))\<rfloor> \<le> (64 :: int)"
proof -
  have c: "compute_chunk log2_floor (AABB (Vector3 0 0 0) (Vector3 17 3 (1/2))) =
     \<lparr>chunk_x = 0, chunk_y = 0, chunk_z = 0, level = 3\<rparr>" by code_simp
  have "longest_side (AABB (Vector3 0 0 0) (Vector3 17 3 (1/2))) \<le> 4 ^ 31" by code_simp
  from chunk_level_is_least [OF log2_floor_ok this] c show ?thesis by (simp add: tile_edge_def)
qed

lemma tile_holds_position:
  assumes "unat (level (compute_chunk log2f a)) < 16"
  shows "let c = compute_chunk log2f a; p = vector3i_of (position a); e = tile_edge c in
    e dvd chunk_x c \<and> chunk_x c \<le> ix p \<and> ix p < chunk_x c + e \<and>
    e dvd chunk_y c \<and> chunk_y c \<le> iy p \<and> iy p < chunk_y c + e \<and>
    e dvd chunk_z c \<and> chunk_z c \<le> iz p \<and> iz p < chunk_z c + e"
proof -
  have t: "(e::int) dvd i - i mod e \<and> i - i mod e \<le> i \<and> i < i - i mod e + e" if "0 < e" for i e
    using that pos_mod_bound [of e i] by (simp add: dvd_minus_mod)
  show ?thesis using assms t [of "tile_edge (compute_chunk log2f a)"]
    by (simp add: compute_chunk_def Let_def tile_coord_eq tile_edge_def vector3i_of_def)
qed

text \<open>The tile of a box. Below level 16 the tile lies on the grid of its level and holds the
  position of the box, cut to integers, on each axis.\<close>

theorem chunk_tile_holds_position:
  assumes "unat (level (compute_chunk log2f a)) < 16"
  shows "let c = compute_chunk log2f a; p = vector3i_of (position a); e = tile_edge c in
    e dvd chunk_x c \<and> chunk_x c \<le> ix p \<and> ix p < chunk_x c + e \<and>
    e dvd chunk_y c \<and> chunk_y c \<le> iy p \<and> iy p < chunk_y c + e \<and>
    e dvd chunk_z c \<and> chunk_z c \<le> iz p \<and> iz p < chunk_z c + e"
  by (rule tile_holds_position [OF assms])

theorem chunk_tile_holds_position_witness:
  "let a = AABB (Vector3 (- 5) 9 70) (Vector3 3 3 3); c = compute_chunk log2_floor a in
     c = \<lparr>chunk_x = - 8, chunk_y = 8, chunk_z = 68, level = 1\<rparr> \<and> chunk_x c \<le> - 5 \<and> 70 < chunk_z c + 4"
proof -
  let ?a = "AABB (Vector3 (- 5) 9 70) (Vector3 3 3 3)"
  have c: "compute_chunk log2_floor ?a = \<lparr>chunk_x = - 8, chunk_y = 8, chunk_z = 68, level = 1\<rparr>" by code_simp
  have "vector3i_of (position ?a) = Vector3i (- 5) 9 70" by code_simp
  with chunk_tile_holds_position [of log2_floor ?a] c show ?thesis by (simp add: Let_def tile_edge_def)
qed

lemma longest_side_box:
  "vle l h \<Longrightarrow> longest_side (box_of l h) = of_int (max (max (ix h - ix l) (iy h - iy l)) (iz h - iz l))"
  by (simp add: longest_side_def box_of_def vle_def of_int_max max.absorb1 le_max_iff_disj del: of_int_diff)

text \<open>A tile does not cover the box it indexes: a box that starts inside the tile may end beyond it.
  The next theorem bounds the overshoot; \<open>StreamDb\<close> shows what it does to queries.\<close>

text \<open>The reach of a tile. A box with integer corners near the origin lies inside the block of two
  tiles per axis that starts at its tile.\<close>

theorem chunk_reach:
  assumes "log2_ok log2f" "near l" "near h" "vle l h"
  shows "let c = compute_chunk log2f (box_of l h); e = tile_edge c in
    chunk_x c \<le> ix l \<and> ix h < chunk_x c + 2 * e \<and> chunk_y c \<le> iy l \<and> iy h < chunk_y c + 2 * e \<and>
    chunk_z c \<le> iz l \<and> iz h < chunk_z c + 2 * e"
proof -
  let ?c = "compute_chunk log2f (box_of l h)" and ?m = "max (max (ix h - ix l) (iy h - iy l)) (iz h - iz l)"
  have m: "?m \<le> 2 ^ 23" using assms(2,3) by (auto simp: near_def)
  have ls: "longest_side (box_of l h) = of_int ?m" by (rule longest_side_box [OF assms(4)])
  have "(of_int ?m :: rat) \<le> of_int (4 ^ 31)" using m by (simp only: of_int_le_iff) simp
  then have "longest_side (box_of l h) \<le> 4 ^ 31" unfolding ls by simp
  note F = chunk_level_fits [OF assms(1) this]
  have lv: "level ?c = chunk_level log2f (longest_side (box_of l h))" by (simp add: compute_chunk_def Let_def)
  have e: "?m \<le> tile_edge ?c" using F unfolding ls by (simp add: tile_edge_def lv ls)
  have small: "unat (level ?c) < 16"
  proof (rule ccontr)
    assume "\<not> unat (level ?c) < 16"
    then have u: "15 \<le> unat (level ?c) - 1" "0 < unat (level ?c)" by linarith+
    have "(4::rat) ^ 15 \<le> 4 ^ (unat (level ?c) - 1)" by (rule power_increasing [OF u(1)]) simp
    also have "(4::rat) ^ (unat (level ?c) - 1) < of_int ?m" using F u(2) unfolding lv ls by blast
    finally have "(of_int (4 ^ 15) :: rat) < of_int ?m" by (simp only: of_int_power of_int_numeral)
    then have "4 ^ 15 < ?m" by (simp only: of_int_less_iff)
    then have "(4::int) ^ 15 < 2 ^ 23" using m by (rule less_le_trans)
    then show False by simp
  qed
  have "vector3i_of (position (box_of l h)) = l" using assms(2) by (simp add: box_of_def float_exact)
  then show ?thesis using tile_holds_position [OF small] e by (simp add: Let_def)
qed

theorem chunk_reach_witness:
  "let c = compute_chunk log2_floor (box_of (Vector3i 3 0 0) (Vector3i 7 1 1)) in
     c = \<lparr>chunk_x = 0, chunk_y = 0, chunk_z = 0, level = 1\<rparr> \<and> 7 < chunk_x c + 2 * tile_edge c"
proof -
  have c: "compute_chunk log2_floor (box_of (Vector3i 3 0 0) (Vector3i 7 1 1)) =
    \<lparr>chunk_x = 0, chunk_y = 0, chunk_z = 0, level = 1\<rparr>" by code_simp
  have "near (Vector3i 3 0 0)" "near (Vector3i 7 1 1)" "vle (Vector3i 3 0 0) (Vector3i 7 1 1)"
    by (simp_all add: near_def vle_def)
  from chunk_reach [OF log2_floor_ok this] c show ?thesis by (simp add: Let_def)
qed

end
