(* ===== verification/SqliteDb.thy ===== *)
theory SqliteDb
  imports Uuid Geometry
begin

text \<open>
  src/src/core/components/sqlite_db.{h,cpp}: the connection and the prepared statement. A statement
  that SQLite compiled is a function from the database and the bound parameters to the new database
  and the rows it returns, \<open>None\<close> when it ends with an error and changes nothing; what each SQL text
  of the program compiles to is said in \<open>StreamDb\<close>. This theory models the life of a statement
  around it: binding, stepping through the rows, resetting, and the null handle that a failed
  \<open>sqlite3_open_v2\<close> or \<open>sqlite3_prepare_v2\<close> leaves, which every method checks for. The lemmas reduce
  a whole use of a statement (bind, step, read, reset, clear) to one run of its function, and show
  that afterwards the statement is as freshly prepared, so that no parameter of one use reaches the
  next. The statements of the streaming database use the integer and blob accessors only; the others are
  modelled up to the conversions of SQLite. The connection itself is in \<open>SqliteApi\<close>.
\<close>

section \<open>Values and statements\<close>

text \<open>A double is the 64 bits that represent it; the code only passes doubles on. A text is the list of its
  UTF-8 bytes.\<close>

type_synonym double = "64 word"

datatype sql_value = SqlNull | SqlInt int | SqlFloat double | SqlText string | SqlBlob "byte list"

type_synonym bindings = "nat \<Rightarrow> sql_value"
type_synonym row = "sql_value list"
type_synonym 'db statement = "'db \<Rightarrow> bindings \<Rightarrow> ('db \<times> row list) option"

text \<open>\<open>handle\<close> is the member \<open>stmt_\<close>, null when the text was not compiled. \<open>cursor\<close> is \<open>None\<close> for a statement that
  is ready to run, \<open>Some (r # rs)\<close> when the last step returned the row \<open>r\<close> and \<open>rs\<close> are to come, and
  \<open>Some []\<close> when the last step ended the run.\<close>

record 'db Stmt =
  handle :: "'db statement option"
  bound :: bindings
  cursor :: "row list option"

definition Stmt_prepare :: "'db statement option \<Rightarrow> 'db Stmt" where
  "Stmt_prepare compiled = \<lparr>handle = compiled, bound = (\<lambda>_. SqlNull), cursor = None\<rparr>"

text \<open>A parameter can be bound only while the statement is ready; otherwise SQLite reports misuse and
  leaves the parameters as they are.\<close>

definition Stmt_bind :: "nat \<Rightarrow> sql_value \<Rightarrow> 'db Stmt \<Rightarrow> 'db Stmt" where
  "Stmt_bind idx v st = (if handle st = None then st
     else if cursor st = None then st\<lparr>bound := (bound st)(idx := v)\<rparr> else st)"

definition Stmt_bind_int :: "nat \<Rightarrow> int \<Rightarrow> 'db Stmt \<Rightarrow> 'db Stmt" where
  "Stmt_bind_int idx v = Stmt_bind idx (SqlInt v)"

definition Stmt_bind_blob :: "nat \<Rightarrow> byte list \<Rightarrow> 'db Stmt \<Rightarrow> 'db Stmt" where
  "Stmt_bind_blob idx v = Stmt_bind idx (SqlBlob v)"

definition Stmt_bind_text :: "nat \<Rightarrow> string \<Rightarrow> 'db Stmt \<Rightarrow> 'db Stmt" where
  "Stmt_bind_text idx v = Stmt_bind idx (SqlText v)"

definition Stmt_bind_double :: "nat \<Rightarrow> double \<Rightarrow> 'db Stmt \<Rightarrow> 'db Stmt" where
  "Stmt_bind_double idx v = Stmt_bind idx (SqlFloat v)"

definition Stmt_bind_null :: "nat \<Rightarrow> 'db Stmt \<Rightarrow> 'db Stmt" where
  "Stmt_bind_null idx = Stmt_bind idx SqlNull"

text \<open>\<open>step\<close> answers whether there is a row. A statement that ended is reset by the step that follows.\<close>

definition Stmt_step :: "'db Stmt \<Rightarrow> 'db \<Rightarrow> bool \<times> 'db Stmt \<times> 'db" where
  "Stmt_step st db = (case handle st of None \<Rightarrow> (False, st, db)
     | Some code \<Rightarrow>
       (case cursor st of
          Some (r # rs) \<Rightarrow> (rs \<noteq> [], st\<lparr>cursor := Some rs\<rparr>, db)
        | _ \<Rightarrow> (case code db (bound st) of
              None \<Rightarrow> (False, st\<lparr>cursor := Some []\<rparr>, db)
            | Some (db', rows) \<Rightarrow> (rows \<noteq> [], st\<lparr>cursor := Some rows\<rparr>, db'))))"

definition Stmt_reset :: "'db Stmt \<Rightarrow> 'db Stmt" where
  "Stmt_reset st = (if handle st = None then st else st\<lparr>cursor := None\<rparr>)"

definition Stmt_clear_bindings :: "'db Stmt \<Rightarrow> 'db Stmt" where
  "Stmt_clear_bindings st = (if handle st = None then st else st\<lparr>bound := (\<lambda>_. SqlNull)\<rparr>)"

section \<open>Columns\<close>

definition column :: "'db Stmt \<Rightarrow> nat \<Rightarrow> sql_value" where
  "column st col = (case cursor st of Some (r # rs) \<Rightarrow> if col < length r then r ! col else SqlNull
     | _ \<Rightarrow> SqlNull)"

text \<open>\<open>sqlite3_column_int\<close> keeps the low 32 bits. No integer column of the program holds a blob.\<close>

definition Stmt_get_int :: "'db Stmt \<Rightarrow> nat \<Rightarrow> int" where
  "Stmt_get_int st col = (if handle st = None then 0
     else case column st col of SqlInt i \<Rightarrow> to_i32 i | _ \<Rightarrow> 0)"

definition Stmt_get_boolean :: "'db Stmt \<Rightarrow> nat \<Rightarrow> bool" where
  "Stmt_get_boolean st col = (if handle st = None then False else Stmt_get_int st col \<noteq> 0)"

text \<open>The other accessors convert: \<open>text_of\<close>, \<open>double_of\<close>, \<open>int64_of\<close> and \<open>size_of\<close> are the conversions of
  \<open>sqlite3_column_text\<close>, \<open>_double\<close>, \<open>_int64\<close> and \<open>_bytes\<close>. The text of a null is a null pointer, from which
  \<open>get_text\<close> constructs a \<open>std::string\<close>: that has no result.\<close>

definition Stmt_get_text :: "(sql_value \<Rightarrow> string option) \<Rightarrow> 'db Stmt \<Rightarrow> nat \<Rightarrow> string option" where
  "Stmt_get_text text_of st col = (if handle st = None then Some '''' else text_of (column st col))"

definition Stmt_get_double :: "(sql_value \<Rightarrow> double) \<Rightarrow> 'db Stmt \<Rightarrow> nat \<Rightarrow> double" where
  "Stmt_get_double double_of st col = (if handle st = None then 0 else double_of (column st col))"

definition Stmt_get_int64 :: "(sql_value \<Rightarrow> int) \<Rightarrow> 'db Stmt \<Rightarrow> nat \<Rightarrow> int" where
  "Stmt_get_int64 int64_of st col = (if handle st = None then 0 else int64_of (column st col))"

definition Stmt_column_bytes :: "(sql_value \<Rightarrow> int) \<Rightarrow> 'db Stmt \<Rightarrow> nat \<Rightarrow> int" where
  "Stmt_column_bytes size_of st col = (if handle st = None then 0 else size_of (column st col))"

text \<open>\<open>names\<close> are the names of the columns of the compiled statement, \<open>None\<close> a null pointer.\<close>

definition Stmt_column_count :: "nat \<Rightarrow> 'db Stmt \<Rightarrow> nat" where
  "Stmt_column_count n st = (if handle st = None then 0 else n)"

definition Stmt_column_name :: "(nat \<Rightarrow> string option) \<Rightarrow> 'db Stmt \<Rightarrow> nat \<Rightarrow> string" where
  "Stmt_column_name names st col = (if handle st = None then '''' else
     case names col of None \<Rightarrow> '''' | Some s \<Rightarrow> s)"

text \<open>\<open>None\<close> is the null pointer.\<close>

definition Stmt_get_blob :: "'db Stmt \<Rightarrow> nat \<Rightarrow> byte list option" where
  "Stmt_get_blob st col = (if handle st = None then None
     else case column st col of SqlBlob b \<Rightarrow> if b = [] then None else Some b | _ \<Rightarrow> None)"

definition Stmt_is_null :: "'db Stmt \<Rightarrow> nat \<Rightarrow> bool" where
  "Stmt_is_null st col = (if handle st = None then True else column st col = SqlNull)"

section \<open>Whole uses of a statement\<close>

definition stmt_finish :: "'db Stmt \<Rightarrow> 'db Stmt" where
  "stmt_finish st = Stmt_clear_bindings (Stmt_reset st)"

definition bind_all :: "(nat \<times> sql_value) list \<Rightarrow> 'db Stmt \<Rightarrow> 'db Stmt" where
  "bind_all bs st = foldl (\<lambda>st (i, v). Stmt_bind i v st) st bs"

definition rows_left :: "'db Stmt \<Rightarrow> 'db \<Rightarrow> nat" where
  "rows_left st db = (case handle st of None \<Rightarrow> 0 | Some code \<Rightarrow>
     (case cursor st of Some (r # rs) \<Rightarrow> length (r # rs)
      | _ \<Rightarrow> (case code db (bound st) of None \<Rightarrow> 0 | Some (db', rows) \<Rightarrow> Suc (length rows))))"

text \<open>\<open>while (stmt.step()) { f(stmt) }\<close>; the result lists what \<open>f\<close> read from each row.\<close>

function step_rows :: "('db Stmt \<Rightarrow> 'a) \<Rightarrow> 'db Stmt \<Rightarrow> 'db \<Rightarrow> 'a list \<times> 'db Stmt \<times> 'db" where
  "step_rows f st db = (case Stmt_step st db of
       (False, st', db') \<Rightarrow> ([], st', db')
     | (True, st', db') \<Rightarrow> (let (xs, st'', db'') = step_rows f st' db' in (f st' # xs, st'', db'')))"
  by pat_completeness auto

termination
  by (relation "measure (\<lambda>(f, st, db). rows_left st db)")
    (auto simp: rows_left_def Stmt_step_def split: option.splits list.splits prod.splits if_splits)

declare step_rows.simps [simp del]

text \<open>What \<open>f\<close> reads when it reads the current row only.\<close>

definition reads_row :: "('db Stmt \<Rightarrow> 'a) \<Rightarrow> (row \<Rightarrow> 'a) \<Rightarrow> bool" where
  "reads_row f g \<longleftrightarrow> (\<forall>st r rs. handle st \<noteq> None \<and> cursor st = Some (r # rs) \<longrightarrow> f st = g r)"

lemma step_rows_cursor:
  assumes "reads_row f g"
  shows "handle st = Some code \<Longrightarrow> cursor st = Some (r # rs) \<Longrightarrow>
    step_rows f st db = (map g rs, st\<lparr>cursor := Some []\<rparr>, db)"
proof (induction rs arbitrary: st r)
  case Nil
  then show ?case by (subst step_rows.simps) (simp add: Stmt_step_def)
next
  case (Cons r' rs)
  let ?st = "st\<lparr>cursor := Some (r' # rs)\<rparr>"
  have "f ?st = g r'" using assms Cons.prems by (simp add: reads_row_def)
  moreover have "step_rows f ?st db = (map g rs, ?st\<lparr>cursor := Some []\<rparr>, db)"
    by (rule Cons.IH) (use Cons.prems in simp_all)
  ultimately show ?case using Cons.prems by (subst step_rows.simps) (simp add: Stmt_step_def)
qed

lemma step_rows_ready:
  assumes "reads_row f g" "handle st = Some code" "cursor st = None"
  shows "step_rows f st db = (case code db (bound st) of None \<Rightarrow> ([], st\<lparr>cursor := Some []\<rparr>, db)
    | Some (db', rows) \<Rightarrow> (map g rows, st\<lparr>cursor := Some []\<rparr>, db'))"
proof (cases "code db (bound st)")
  case None
  then show ?thesis using assms by (subst step_rows.simps) (simp add: Stmt_step_def)
next
  case (Some res)
  then obtain db' rows where r: "code db (bound st) = Some (db', rows)" by (cases res) auto
  show ?thesis
  proof (cases rows)
    case Nil
    then show ?thesis using assms r by (subst step_rows.simps) (simp add: Stmt_step_def)
  next
    case (Cons r0 rs)
    let ?st = "st\<lparr>cursor := Some (r0 # rs)\<rparr>"
    have "f ?st = g r0" using assms by (simp add: reads_row_def)
    moreover have "step_rows f ?st db' = (map g rs, ?st\<lparr>cursor := Some []\<rparr>, db')"
      by (rule step_rows_cursor [OF assms(1)]) (use assms in simp_all)
    ultimately show ?thesis using assms r Cons by (subst step_rows.simps) (simp add: Stmt_step_def)
  qed
qed

definition put_param :: "bindings \<Rightarrow> nat \<times> sql_value \<Rightarrow> bindings" where
  "put_param b p = b(fst p := snd p)"

definition params :: "(nat \<times> sql_value) list \<Rightarrow> bindings" where
  "params bs = foldl put_param (\<lambda>_. SqlNull) bs"

lemma bind_all_ready:
  "handle st = Some code \<Longrightarrow> cursor st = None \<Longrightarrow>
   bind_all bs st = st\<lparr>bound := foldl put_param (bound st) bs\<rparr>"
proof (induction bs arbitrary: st)
  case (Cons p bs)
  have "bind_all bs (st\<lparr>bound := put_param (bound st) p\<rparr>) =
      st\<lparr>bound := put_param (bound st) p\<rparr>\<lparr>bound := foldl put_param (put_param (bound st) p) bs\<rparr>"
    using Cons.IH [of "st\<lparr>bound := put_param (bound st) p\<rparr>"] Cons.prems by simp
  moreover have "Stmt_bind (fst p) (snd p) st = st\<lparr>bound := put_param (bound st) p\<rparr>"
    using Cons.prems by (simp add: Stmt_bind_def put_param_def)
  ultimately show ?case by (simp add: bind_all_def split_beta)
qed (simp add: bind_all_def)

lemma bind_all_prepared:
  "bind_all bs (Stmt_prepare (Some code)) = \<lparr>handle = Some code, bound = params bs, cursor = None\<rparr>"
  by (subst bind_all_ready [of _ code]) (simp_all add: Stmt_prepare_def params_def)

text \<open>A use of a statement: bind, loop over the rows, finish; and the form that steps once and reads
  the row, if there is one.\<close>

definition query_rows :: "('db Stmt \<Rightarrow> 'a) \<Rightarrow> (nat \<times> sql_value) list \<Rightarrow> 'db Stmt \<Rightarrow> 'db \<Rightarrow>
    'a list \<times> 'db Stmt \<times> 'db" where
  "query_rows f bs st db = (let (xs, st', db') = step_rows f (bind_all bs st) db
     in (xs, stmt_finish st', db'))"

definition query_first :: "('db Stmt \<Rightarrow> 'a) \<Rightarrow> (nat \<times> sql_value) list \<Rightarrow> 'db Stmt \<Rightarrow> 'db \<Rightarrow>
    'a option \<times> 'db Stmt \<times> 'db" where
  "query_first f bs st db = (let (b, st', db') = Stmt_step (bind_all bs st) db
     in (if b then Some (f st') else None, stmt_finish st', db'))"

text \<open>The result of running a compiled statement, by itself.\<close>

definition run :: "'db statement \<Rightarrow> (nat \<times> sql_value) list \<Rightarrow> 'db \<Rightarrow> row list \<times> 'db" where
  "run code bs db = (case code db (params bs) of None \<Rightarrow> ([], db) | Some (db', rows) \<Rightarrow> (rows, db'))"

lemma query_rows_run:
  assumes "reads_row f g"
  shows "query_rows f bs (Stmt_prepare (Some code)) db =
    (map g (fst (run code bs db)), Stmt_prepare (Some code), snd (run code bs db))"
proof -
  let ?st = "\<lparr>handle = Some code, bound = params bs, cursor = None\<rparr>"
  have "step_rows f ?st db = (map g (fst (run code bs db)), ?st\<lparr>cursor := Some []\<rparr>, snd (run code bs db))"
    using step_rows_ready [OF assms, of ?st code db] by (simp add: run_def split: option.splits prod.splits)
  then show ?thesis unfolding query_rows_def bind_all_prepared
    by (simp add: stmt_finish_def Stmt_reset_def Stmt_clear_bindings_def Stmt_prepare_def)
qed

lemma query_first_run:
  assumes "reads_row f g"
  shows "query_first f bs (Stmt_prepare (Some code)) db =
    (case fst (run code bs db) of [] \<Rightarrow> None | r # rs \<Rightarrow> Some (g r), Stmt_prepare (Some code), snd (run code bs db))"
proof -
  have f: "f \<lparr>handle = Some code, bound = params bs, cursor = Some (r # rs)\<rparr> = g r" for r rs
    using assms by (simp add: reads_row_def)
  show ?thesis unfolding query_first_def bind_all_prepared
    by (auto simp: Stmt_step_def run_def f stmt_finish_def Stmt_reset_def
        Stmt_clear_bindings_def Stmt_prepare_def split: option.splits list.splits)
qed

lemma bind_all_null: "bind_all bs (Stmt_prepare None) = Stmt_prepare None"
  by (induction bs) (auto simp: bind_all_def Stmt_bind_def Stmt_prepare_def)

lemma query_null:
  "query_rows f bs (Stmt_prepare None) db = ([], Stmt_prepare None, db)"
  "query_first f bs (Stmt_prepare None) db = (None, Stmt_prepare None, db)"
  unfolding query_rows_def query_first_def bind_all_null
  by (subst step_rows.simps,
      simp_all add: Stmt_step_def Stmt_prepare_def stmt_finish_def Stmt_reset_def Stmt_clear_bindings_def)

section \<open>Properties\<close>

text \<open>C25: Uses of a prepared statement are independent. A use of a statement (bind, step until there
  is no row, reset, clear) reads exactly the rows that one run of the statement on its own parameters
  returns, and a second use of the same statement, with other parameters, behaves as if the statement
  had just been prepared: no binding and no row of the first use is seen by the second.\<close>

theorem statement_uses_are_independent:
  assumes "reads_row f g"
  shows "let (xs, st1, db1) = query_rows f bs (Stmt_prepare (Some code)) db;
      (ys, st2, db2) = query_rows f cs st1 db1 in
    xs = map g (fst (run code bs db)) \<and> db1 = snd (run code bs db) \<and>
    ys = map g (fst (run code cs db1)) \<and> db2 = snd (run code cs db1) \<and> st2 = Stmt_prepare (Some code)"
  by (simp add: query_rows_run [OF assms])

definition demo_statement :: "nat statement" where
  "demo_statement n b = Some (n + 1, [[b 1], [b 2]])"

theorem statement_uses_are_independent_witness:
  "let f = (\<lambda>st. Stmt_get_int st 0);
       (xs, st1, n1) = query_rows f [(1, SqlInt 7), (2, SqlInt 9)] (Stmt_prepare (Some demo_statement)) 0;
       (ys, st2, n2) = query_rows f [(1, SqlInt 3)] st1 n1 in
     xs = [7, 9] \<and> ys = [3, 0] \<and> n2 = 2"
proof -
  define g :: "row \<Rightarrow> int" where "g = (\<lambda>r. if r = [] then 0 else case hd r of SqlInt i \<Rightarrow> to_i32 i | _ \<Rightarrow> 0)"
  define f :: "nat Stmt \<Rightarrow> int" where "f = (\<lambda>st. Stmt_get_int st 0)"
  have rd: "reads_row f g"
    by (auto simp: f_def reads_row_def Stmt_get_int_def column_def g_def hd_conv_nth split: sql_value.splits)
  obtain xs st1 n1 where q1: "query_rows f [(1, SqlInt 7), (2, SqlInt 9)] (Stmt_prepare (Some demo_statement)) 0 = (xs, st1, n1)"
    by (cases "query_rows f [(1, SqlInt 7), (2, SqlInt 9)] (Stmt_prepare (Some demo_statement)) 0")
  obtain ys st2 n2 where q2: "query_rows f [(1, SqlInt 3)] st1 n1 = (ys, st2, n2)"
    by (cases "query_rows f [(1, SqlInt 3)] st1 n1")
  have r: "run demo_statement [(1, SqlInt 7), (2, SqlInt 9)] 0 = ([[SqlInt 7], [SqlInt 9]], 1)"
    "run demo_statement [(1, SqlInt 3)] 1 = ([[SqlInt 3], [SqlNull]], 2)"
    by (simp_all add: run_def demo_statement_def params_def put_param_def)
  have "xs = [7, 9] \<and> ys = [3, 0] \<and> n2 = 2"
    using statement_uses_are_independent [OF rd, of "[(1, SqlInt 7), (2, SqlInt 9)]" demo_statement 0 "[(1, SqlInt 3)]"]
    unfolding q1 Let_def prod.case q2 r by (auto simp: r g_def simp del: One_nat_def)
  then show ?thesis unfolding Let_def f_def [symmetric] q1 prod.case q2 by simp
qed

end
