(* ===== verification/StreamDb.thy ===== *)
theory StreamDb
  imports SqliteDb Chunk Cache "HOL-Library.Monad_Syntax"
begin

text \<open>
  src/src/core/components/stream_sqlite_db.{h,cpp} and object_data.h: the database of the world. Its
  tables are lists of rows; each prepared statement of the constructor is a function on them, written
  from its SQL text together with the constraints and triggers of the table definitions that SQLite
  applies when it runs: the uniqueness of \<open>uuid\<close> and of (level, tile), the immediate foreign keys, the
  cascade of a delete to the children, and the trigger that indexes a new tile in the R*Tree. The
  methods of the class run those statements and keep two LRU caches. A method whose cache would meet
  a missing iterator is \<open>None\<close>. SELECT without ORDER BY returns rows in no promised order; here it is
  the order of the table, and no property depends on it.
\<close>

section \<open>Tables\<close>

record ObjectData =
  parent_uuid :: uuid
  node_root :: nat

definition ObjectData_new :: ObjectData where
  "ObjectData_new = \<lparr>parent_uuid = uuid_nil, node_root = 0\<rparr>"

record object_row =
  row_uuid :: uuid
  row_chunk :: "int option"
  row_parent :: "uuid option"
  row_minX :: "int option"
  row_maxX :: "int option"
  row_minY :: "int option"
  row_maxY :: "int option"
  row_minZ :: "int option"
  row_maxZ :: "int option"

record chunk_row =
  c_id :: int
  c_level :: int
  c_x :: int
  c_y :: int
  c_z :: int

record rtree_row =
  r_id :: int
  r_minX :: int
  r_maxX :: int
  r_minY :: int
  r_maxY :: int
  r_minZ :: int
  r_maxZ :: int

record database =
  db_info :: "(string \<times> string) list"
  object_uuid :: "object_row list"
  chunk_metadata :: "chunk_row list"
  chunk_rtree :: "rtree_row list"

text \<open>\<open>clear_and_create_table\<close> and \<open>update_info\<close>, run when the file holds no table \<open>db_info\<close> yet.\<close>

definition clear_and_create_table :: database where
  "clear_and_create_table = \<lparr>db_info = [], object_uuid = [], chunk_metadata = [], chunk_rtree = []\<rparr>"

definition update_info :: "string \<Rightarrow> database \<Rightarrow> database" where
  "update_info ver db = db\<lparr>db_info := dm_put ''version'' ver (db_info db)\<rparr>"

section \<open>Statements\<close>

definition sql_opt_int :: "int option \<Rightarrow> sql_value" where
  "sql_opt_int v = (case v of None \<Rightarrow> SqlNull | Some i \<Rightarrow> SqlInt i)"

definition sql_opt_blob :: "byte list option \<Rightarrow> sql_value" where
  "sql_opt_blob v = (case v of None \<Rightarrow> SqlNull | Some b \<Rightarrow> SqlBlob b)"

text \<open>\<open>SELECT *\<close> lists the columns in the order of the table definition.\<close>

definition row_columns :: "object_row \<Rightarrow> row" where
  "row_columns ob = [SqlBlob (row_uuid ob), sql_opt_int (row_chunk ob), sql_opt_blob (row_parent ob),
     sql_opt_int (row_minX ob), sql_opt_int (row_maxX ob), sql_opt_int (row_minY ob),
     sql_opt_int (row_maxY ob), sql_opt_int (row_minZ ob), sql_opt_int (row_maxZ ob)]"

definition box_columns :: "object_row \<Rightarrow> row" where
  "box_columns ob = [sql_opt_int (row_minX ob), sql_opt_int (row_maxX ob), sql_opt_int (row_minY ob),
     sql_opt_int (row_maxY ob), sql_opt_int (row_minZ ob), sql_opt_int (row_maxZ ob)]"

definition uuids_of :: "object_row list \<Rightarrow> uuid set" where
  "uuids_of os = row_uuid ` set os"

text \<open>Foreign keys are checked when the statement ends: the parent of the written row must be a row, the
  written row itself included.\<close>

definition sql_upsert_object_uuids :: "database statement" where
  "sql_upsert_object_uuids db b = (case b 1 of
     SqlBlob u \<Rightarrow>
       (let p = (case b 2 of SqlBlob v \<Rightarrow> Some v | _ \<Rightarrow> None);
            os = (if u \<in> uuids_of (object_uuid db)
                  then map (\<lambda>ob. if row_uuid ob = u then ob\<lparr>row_parent := p\<rparr> else ob) (object_uuid db)
                  else object_uuid db @ [\<lparr>row_uuid = u, row_chunk = None, row_parent = p, row_minX = None,
                    row_maxX = None, row_minY = None, row_maxY = None, row_minZ = None, row_maxZ = None\<rparr>])
        in case p of None \<Rightarrow> Some (db\<lparr>object_uuid := os\<rparr>, [])
           | Some v \<Rightarrow> if v \<in> uuids_of os then Some (db\<lparr>object_uuid := os\<rparr>, []) else None)
   | _ \<Rightarrow> None)"

text \<open>The coordinates of an \<open>rtree_i32\<close> are the low 32 bits of the values; a row with a minimum above its
  maximum violates the constraint of the R*Tree and is ignored, as is a row with an id already there.\<close>

definition rtree_insert_or_ignore :: "rtree_row \<Rightarrow> rtree_row list \<Rightarrow> rtree_row list" where
  "rtree_insert_or_ignore r rs =
     (if r_maxX r < r_minX r \<or> r_maxY r < r_minY r \<or> r_maxZ r < r_minZ r then rs
      else if r_id r \<in> r_id ` set rs then rs
      else rs @ [r])"

text \<open>\<open>1 << n\<close> of SQL, on 64-bit integers.\<close>

definition sql_shift_left_1 :: "int \<Rightarrow> int" where
  "sql_shift_left_1 n = (if n < 0 then 0 else signed_take_bit 63 (if n < 64 then 2 ^ nat n else 0))"

definition after_insert_chunk_metadata :: "chunk_row \<Rightarrow> rtree_row list \<Rightarrow> rtree_row list" where
  "after_insert_chunk_metadata new rs =
     (let e = sql_shift_left_1 (2 * c_level new)
      in rtree_insert_or_ignore
        \<lparr>r_id = c_id new, r_minX = to_i32 (c_x new), r_maxX = to_i32 (c_x new + e),
         r_minY = to_i32 (c_y new), r_maxY = to_i32 (c_y new + e),
         r_minZ = to_i32 (c_z new), r_maxZ = to_i32 (c_z new + e)\<rparr> rs)"

text \<open>The key of a new row of a table with an \<open>INTEGER PRIMARY KEY\<close>.\<close>

definition new_rowid :: "int list \<Rightarrow> int" where
  "new_rowid ids = (if ids = [] then 1 else Max (set ids) + 1)"

definition same_tile :: "int \<Rightarrow> int \<Rightarrow> int \<Rightarrow> int \<Rightarrow> chunk_row \<Rightarrow> bool" where
  "same_tile l x y z c \<longleftrightarrow> c_level c = l \<and> c_x c = x \<and> c_y c = y \<and> c_z c = z"

definition sql_upsert_chunk :: "database statement" where
  "sql_upsert_chunk db b = (case (b 1, b 2, b 3, b 4) of
     (SqlInt l, SqlInt x, SqlInt y, SqlInt z) \<Rightarrow>
       if \<exists>c \<in> set (chunk_metadata db). same_tile l x y z c then Some (db, [])
       else (let new = \<lparr>c_id = new_rowid (map c_id (chunk_metadata db)), c_level = l, c_x = x, c_y = y, c_z = z\<rparr>
             in Some (db\<lparr>chunk_metadata := chunk_metadata db @ [new],
                         chunk_rtree := after_insert_chunk_metadata new (chunk_rtree db)\<rparr>, [[SqlInt (c_id new)]]))
   | _ \<Rightarrow> None)"

definition sql_query_chunk :: "database statement" where
  "sql_query_chunk db b = Some (db, map (\<lambda>c. [SqlInt (c_id c)]) (filter (\<lambda>c.
     b 1 = SqlInt (c_level c) \<and> b 2 = SqlInt (c_x c) \<and> b 3 = SqlInt (c_y c) \<and> b 4 = SqlInt (c_z c))
     (chunk_metadata db)))"

definition sql_query_object :: "database statement" where
  "sql_query_object db b = Some (db, map row_columns (filter (\<lambda>ob. b 1 = SqlBlob (row_uuid ob)) (object_uuid db)))"

text \<open>The join of an object with its tile and the entry of the tile in the index; \<open>hit\<close> is the
  WHERE clause on the entry.\<close>

definition join_rtree :: "(rtree_row \<Rightarrow> bool) \<Rightarrow> database \<Rightarrow> object_row list" where
  "join_rtree hit db = [ob. ob \<leftarrow> object_uuid db, c \<leftarrow> chunk_metadata db, row_chunk ob = Some (c_id c),
     r \<leftarrow> chunk_rtree db, c_id c = r_id r, hit r]"

definition sql_le :: "int \<Rightarrow> sql_value \<Rightarrow> bool" where
  "sql_le i v = (case v of SqlInt j \<Rightarrow> i \<le> j | _ \<Rightarrow> False)"

definition sql_ge :: "int \<Rightarrow> sql_value \<Rightarrow> bool" where
  "sql_ge i v = (case v of SqlInt j \<Rightarrow> i \<ge> j | _ \<Rightarrow> False)"

definition sql_query_uuid_of_aabb :: "database statement" where
  "sql_query_uuid_of_aabb db b = Some (db, map row_columns (join_rtree (\<lambda>r.
     sql_le (r_minX r) (b 1) \<and> sql_ge (r_maxX r) (b 2) \<and>
     sql_le (r_minY r) (b 3) \<and> sql_ge (r_maxY r) (b 4) \<and>
     sql_le (r_minZ r) (b 5) \<and> sql_ge (r_maxZ r) (b 6)) db))"

text \<open>The text that \<open>query_objects\<close> assembles for \<open>n\<close> boxes.\<close>

definition sql_query_boxes :: "nat \<Rightarrow> database statement" where
  "sql_query_boxes n db b = Some (db, map (\<lambda>ob. [SqlBlob (row_uuid ob), sql_opt_blob (row_parent ob)])
     (join_rtree (\<lambda>r. \<exists>i \<in> set [0..<n].
        sql_ge (r_maxX r) (b (6 * i + 1)) \<and> sql_le (r_minX r) (b (6 * i + 2)) \<and>
        sql_ge (r_maxY r) (b (6 * i + 3)) \<and> sql_le (r_minY r) (b (6 * i + 4)) \<and>
        sql_ge (r_maxZ r) (b (6 * i + 5)) \<and> sql_le (r_minZ r) (b (6 * i + 6))) db))"

text \<open>\<open>ON DELETE CASCADE\<close>: deleting a row deletes the rows whose parent it is, and so on.\<close>

definition children_of :: "uuid \<Rightarrow> object_row list \<Rightarrow> uuid list" where
  "children_of u os = map row_uuid (filter (\<lambda>ob. row_parent ob = Some u) os)"

lemma length_filter_less: "u \<in> uuids_of os \<Longrightarrow> length (filter (\<lambda>ob. row_uuid ob \<noteq> u) os) < length os"
  by (induction os) (auto simp: uuids_of_def less_Suc_eq_le)

function delete_cascade :: "uuid list \<Rightarrow> object_row list \<Rightarrow> object_row list" where
  "delete_cascade [] os = os"
| "delete_cascade (u # us) os =
     (if u \<in> uuids_of os
      then (let os' = filter (\<lambda>ob. row_uuid ob \<noteq> u) os in delete_cascade (children_of u os' @ us) os')
      else delete_cascade us os)"
  by pat_completeness auto

termination
  by (relation "inv_image (less_than <*lex*> less_than) (\<lambda>(us, os). (length os, length us))")
    (auto simp: length_filter_less)

definition sql_remove_object :: "database statement" where
  "sql_remove_object db b = (case b 1 of
     SqlBlob u \<Rightarrow> Some (db\<lparr>object_uuid := delete_cascade [u] (object_uuid db)\<rparr>, [])
   | _ \<Rightarrow> Some (db, []))"

text \<open>The tile of the written row must be a row of \<open>chunk_metadata\<close>.\<close>

definition sql_set_object_chunk :: "database statement" where
  "sql_set_object_chunk db b = (case (b 1, b 2) of
     (SqlBlob u, SqlInt k) \<Rightarrow>
       if u \<notin> uuids_of (object_uuid db) then Some (db, [])
       else if k \<in> c_id ` set (chunk_metadata db)
       then Some (db\<lparr>object_uuid := map (\<lambda>ob. if row_uuid ob = u then ob\<lparr>row_chunk := Some k\<rparr> else ob)
              (object_uuid db)\<rparr>, [])
       else None
   | _ \<Rightarrow> None)"

definition sql_int :: "sql_value \<Rightarrow> int option" where
  "sql_int v = (case v of SqlInt i \<Rightarrow> Some i | _ \<Rightarrow> None)"

definition sql_set_object_aabb :: "database statement" where
  "sql_set_object_aabb db b = Some (db\<lparr>object_uuid := map (\<lambda>ob. if b 7 = SqlBlob (row_uuid ob)
     then ob\<lparr>row_minX := sql_int (b 1), row_maxX := sql_int (b 2), row_minY := sql_int (b 3),
            row_maxY := sql_int (b 4), row_minZ := sql_int (b 5), row_maxZ := sql_int (b 6)\<rparr>
     else ob) (object_uuid db)\<rparr>, [])"

definition sql_get_object_aabb :: "database statement" where
  "sql_get_object_aabb db b = Some (db, map box_columns (filter (\<lambda>ob. b 1 = SqlBlob (row_uuid ob)) (object_uuid db)))"

definition sql_query_children_aabb :: "database statement" where
  "sql_query_children_aabb db b = Some (db, map (\<lambda>ob. SqlBlob (row_uuid ob) # box_columns ob)
     (filter (\<lambda>ob. row_parent ob \<noteq> None \<and> b 1 = sql_opt_blob (row_parent ob)) (object_uuid db)))"

section \<open>The class\<close>

text \<open>\<open>connected\<close> tells whether \<open>sqlite3_open_v2\<close> succeeded; otherwise every statement is null. A read-only
  connection fails every statement that writes. The transaction commands are left out: no error of
  the program rolls back, and the connection sees its own writes at once.\<close>

record StreamSqliteDB =
  db :: database
  connected :: bool
  read_only :: bool
  chunk_cache :: "(Chunk, int) lru_cache"
  aabb_cache :: "(uuid, AABB) lru_cache"

definition StreamSqliteDB_new :: "bool \<Rightarrow> bool \<Rightarrow> database option \<Rightarrow> StreamSqliteDB" where
  "StreamSqliteDB_new conn ro file =
     \<lparr>db = (case file of Some d \<Rightarrow> d | None \<Rightarrow> update_info ''1'' clear_and_create_table),
      connected = conn, read_only = ro, chunk_cache = lru_cache_new 500, aabb_cache = lru_cache_new 1000\<rparr>"

definition select_stmt :: "StreamSqliteDB \<Rightarrow> database statement \<Rightarrow> database Stmt" where
  "select_stmt s code = Stmt_prepare (if connected s then Some code else None)"

definition write_stmt :: "StreamSqliteDB \<Rightarrow> database statement \<Rightarrow> database Stmt" where
  "write_stmt s code = Stmt_prepare (if connected s
     then Some (if read_only s then (\<lambda>_ _. None) else code) else None)"

definition bind_chunk :: "Chunk \<Rightarrow> (nat \<times> sql_value) list" where
  "bind_chunk c = [(1, SqlInt (uint (level c))), (2, SqlInt (chunk_x c)), (3, SqlInt (chunk_y c)),
     (4, SqlInt (chunk_z c))]"

definition bind_aabb :: "AABB \<Rightarrow> nat \<Rightarrow> (nat \<times> sql_value) list" where
  "bind_aabb a start_idx =
     (let min_pos = vector3i_of (position a); max_pos = vector3i_of (get_end a)
      in [(start_idx, SqlInt (ix min_pos)), (start_idx + 1, SqlInt (ix max_pos)),
          (start_idx + 2, SqlInt (iy min_pos)), (start_idx + 3, SqlInt (iy max_pos)),
          (start_idx + 4, SqlInt (iz min_pos)), (start_idx + 5, SqlInt (iz max_pos))])"

definition read_nullable_uuid :: "'db Stmt \<Rightarrow> nat \<Rightarrow> uuid" where
  "read_nullable_uuid st col = (if Stmt_is_null st col then uuid_nil
     else case Stmt_get_blob st col of Some b \<Rightarrow> b | None \<Rightarrow> uuid_nil)"

definition read_aabb_from_stmt :: "'db Stmt \<Rightarrow> nat \<Rightarrow> AABB" where
  "read_aabb_from_stmt st col_start =
     (let min_pos = Vector3i (Stmt_get_int st col_start) (Stmt_get_int st (col_start + 2))
            (Stmt_get_int st (col_start + 4));
          max_pos = Vector3i (Stmt_get_int st (col_start + 1)) (Stmt_get_int st (col_start + 3))
            (Stmt_get_int st (col_start + 5))
      in AABB (vector3_of min_pos) (vector3_of (max_pos - min_pos)))"

text \<open>The body of the loops of \<open>query_objects\<close>: \<open>None\<close> is \<open>continue\<close>.\<close>

definition read_object :: "nat \<Rightarrow> 'db Stmt \<Rightarrow> (uuid \<times> ObjectData) option" where
  "read_object parent_col st = (case Stmt_get_blob st 0 of None \<Rightarrow> None
     | Some uuid_key \<Rightarrow> Some (uuid_key, \<lparr>parent_uuid = read_nullable_uuid st parent_col, node_root = 0\<rparr>))"

definition collect_objects :: "(uuid \<times> ObjectData) option list \<Rightarrow> (uuid, ObjectData) a_hashmap" where
  "collect_objects rs = foldl (\<lambda>result r. case r of None \<Rightarrow> result | Some (k, d) \<Rightarrow> dm_put k d result) [] rs"

definition query_objects :: "AABB list \<Rightarrow> StreamSqliteDB \<Rightarrow> (uuid, ObjectData) a_hashmap" where
  "query_objects aabbs s = (if aabbs = [] then []
     else (let (rs, st, d) = query_rows (read_object 1)
             (concat (map (\<lambda>i. bind_aabb (aabbs ! i) (6 * i + 1)) [0..<length aabbs]))
             (select_stmt s (sql_query_boxes (length aabbs))) (db s)
           in collect_objects rs))"

definition query_objects_of_aabb :: "AABB \<Rightarrow> StreamSqliteDB \<Rightarrow> (uuid, ObjectData) a_hashmap" where
  "query_objects_of_aabb a s =
     (let min_pos = vector3i_of (position a); max_pos = vector3i_of (get_end a);
          (rs, st, d) = query_rows (read_object 2)
             [(1, SqlInt (ix max_pos)), (2, SqlInt (ix min_pos)), (3, SqlInt (iy max_pos)),
              (4, SqlInt (iy min_pos)), (5, SqlInt (iz max_pos)), (6, SqlInt (iz min_pos))]
             (select_stmt s sql_query_uuid_of_aabb) (db s)
      in collect_objects rs)"

definition query_chunk :: "Chunk \<Rightarrow> StreamSqliteDB \<Rightarrow> (int \<times> StreamSqliteDB) option" where
  "query_chunk chunk s = do {
     (cc, hit, found) \<leftarrow> TryGet LRU_ops 0 (chunk_cache s) chunk;
     let s = s\<lparr>chunk_cache := cc\<rparr>;
     if found then Some (hit, s)
     else do {
       let (r, _, d) = query_first (\<lambda>st. Stmt_get_int st 0) (bind_chunk chunk)
             (select_stmt s sql_query_chunk) (db s);
       let (cid, d) = (case r of Some cid \<Rightarrow> (cid, d)
           | None \<Rightarrow> if \<not> read_only s
               then (let (r, _, d) = query_first (\<lambda>st. Stmt_get_int st 0) (bind_chunk chunk)
                       (write_stmt s sql_upsert_chunk) d
                     in case r of Some cid \<Rightarrow> (cid, d) | None \<Rightarrow> (- 1, d))
               else (- 1, d));
       cc \<leftarrow> Put LRU_ops cc chunk cid;
       Some (cid, s\<lparr>db := d, chunk_cache := cc\<rparr>)
     }
   }"

definition query_object :: "uuid \<Rightarrow> StreamSqliteDB \<Rightarrow> ObjectData" where
  "query_object u s =
     (let (r, _, d) = query_first (\<lambda>st. read_nullable_uuid st 2) [(1, SqlBlob u)]
            (select_stmt s sql_query_object) (db s)
      in case r of Some p \<Rightarrow> ObjectData_new\<lparr>parent_uuid := p\<rparr> | None \<Rightarrow> ObjectData_new)"

text \<open>A step whose row is not read.\<close>

definition execute :: "(nat \<times> sql_value) list \<Rightarrow> database statement \<Rightarrow> StreamSqliteDB \<Rightarrow> StreamSqliteDB" where
  "execute bs code s = (let (_, _, d) = query_first (\<lambda>_. ()) bs (write_stmt s code) (db s) in s\<lparr>db := d\<rparr>)"

definition upsert_object_uuids :: "uuid \<Rightarrow> ObjectData \<Rightarrow> StreamSqliteDB \<Rightarrow> StreamSqliteDB" where
  "upsert_object_uuids u objectdata s =
     execute [(1, SqlBlob u),
              (2, if uuid_eq (parent_uuid objectdata) uuid_nil then SqlNull else SqlBlob (parent_uuid objectdata))]
       sql_upsert_object_uuids s"

definition remove_object :: "uuid \<Rightarrow> StreamSqliteDB \<Rightarrow> StreamSqliteDB option" where
  "remove_object u s = do {
     let s = execute [(1, SqlBlob u)] sql_remove_object s;
     (ac, _) \<leftarrow> Remove LRU_ops (aabb_cache s) u;
     Some (s\<lparr>aabb_cache := ac\<rparr>)
   }"

definition set_object_aabb :: "uuid \<Rightarrow> AABB \<Rightarrow> StreamSqliteDB \<Rightarrow> StreamSqliteDB option" where
  "set_object_aabb u a s = do {
     let s = execute (bind_aabb a 1 @ [(7, SqlBlob u)]) sql_set_object_aabb s;
     ac \<leftarrow> Put LRU_ops (aabb_cache s) u a;
     Some (s\<lparr>aabb_cache := ac\<rparr>)
   }"

definition get_object_aabb :: "uuid \<Rightarrow> StreamSqliteDB \<Rightarrow> (AABB \<times> StreamSqliteDB) option" where
  "get_object_aabb u s = do {
     (ac, hit, found) \<leftarrow> TryGet LRU_ops AABB_new (aabb_cache s) u;
     let s = s\<lparr>aabb_cache := ac\<rparr>;
     if found then Some (hit, s)
     else do {
       let (r, _, d) = query_first (\<lambda>st. if \<not> Stmt_is_null st 0 then Some (read_aabb_from_stmt st 0) else None)
             [(1, SqlBlob u)] (select_stmt s sql_get_object_aabb) (db s);
       let aabb = (case r of Some (Some a) \<Rightarrow> a | _ \<Rightarrow> AABB_new);
       ac \<leftarrow> Put LRU_ops ac u aabb;
       Some (aabb, s\<lparr>aabb_cache := ac\<rparr>)
     }
   }"

definition set_object_chunk :: "uuid \<Rightarrow> int \<Rightarrow> StreamSqliteDB \<Rightarrow> StreamSqliteDB" where
  "set_object_chunk u chunk_id s = execute [(1, SqlBlob u), (2, SqlInt chunk_id)] sql_set_object_chunk s"

definition query_children_aabb :: "uuid \<Rightarrow> StreamSqliteDB \<Rightarrow> (uuid \<times> AABB) list" where
  "query_children_aabb u s =
     (let (rs, _, d) = query_rows (\<lambda>st. case Stmt_get_blob st 0 of None \<Rightarrow> None
            | Some child_uuid \<Rightarrow> Some (child_uuid,
                if \<not> Stmt_is_null st 1 then read_aabb_from_stmt st 1 else AABB_new))
            [(1, SqlBlob u)] (select_stmt s sql_query_children_aabb) (db s)
      in List.map_filter (\<lambda>r. r) rs)"

section \<open>Well-formed databases\<close>

text \<open>What the constraints promise and the program's rows add: identifiers of 16 bytes, none nil, each
  once; parents and tiles that exist; each tile once; box columns set together.\<close>

definition row_ok :: "object_row \<Rightarrow> bool" where
  "row_ok ob \<longleftrightarrow> uuid_ok (row_uuid ob) \<and>
     (row_minX ob = None \<longleftrightarrow> row_maxX ob = None) \<and> (row_minX ob = None \<longleftrightarrow> row_minY ob = None) \<and>
     (row_minX ob = None \<longleftrightarrow> row_maxY ob = None) \<and> (row_minX ob = None \<longleftrightarrow> row_minZ ob = None) \<and>
     (row_minX ob = None \<longleftrightarrow> row_maxZ ob = None)"

definition tile_of :: "chunk_row \<Rightarrow> int \<times> int \<times> int \<times> int" where
  "tile_of c = (c_level c, c_x c, c_y c, c_z c)"

definition db_ok :: "database \<Rightarrow> bool" where
  "db_ok d \<longleftrightarrow>
     (\<forall>ob \<in> set (object_uuid d). row_ok ob) \<and>
     distinct (map row_uuid (object_uuid d)) \<and>
     (\<forall>ob \<in> set (object_uuid d). \<forall>p. row_parent ob = Some p \<longrightarrow> p \<in> uuids_of (object_uuid d)) \<and>
     (\<forall>ob \<in> set (object_uuid d). \<forall>k. row_chunk ob = Some k \<longrightarrow> k \<in> c_id ` set (chunk_metadata d)) \<and>
     distinct (map c_id (chunk_metadata d)) \<and> (\<forall>c \<in> set (chunk_metadata d). 0 < c_id c) \<and>
     distinct (map tile_of (chunk_metadata d)) \<and>
     distinct (map r_id (chunk_rtree d)) \<and> r_id ` set (chunk_rtree d) \<subseteq> c_id ` set (chunk_metadata d)"
end
