(* ===== verification/StreamDbFacts.thy ===== *)
theory StreamDbFacts
  imports StreamDb
begin

text \<open>
  What the methods of \<open>StreamSqliteDB\<close> do: each is reduced to its effect on the tables, the
  constraints of the schema are an invariant of every sequence of calls, and the queries, the tile
  lookup, the removal with its cascade and the box cache meet their specifications. Two theorems show
  by a concrete run what the code does not do.
\<close>

section \<open>Reading rows\<close>

named_theorems row_simps \<open>reading a row through the accessors of a statement\<close>

definition row_view :: "row \<Rightarrow> 'db Stmt" where
  "row_view r = \<lparr>handle = Some (\<lambda>_ _. None), bound = (\<lambda>_. SqlNull), cursor = Some [r]\<rparr>"

lemma column_view [row_simps]: "column (row_view r) c = (if c < length r then r ! c else SqlNull)"
  by (simp add: column_def row_view_def)

lemma handle_view [row_simps]: "handle (row_view r) = Some (\<lambda>_ _. None)"
  by (simp add: row_view_def)

lemma reads_row_view:
  assumes "\<And>st st'. handle st \<noteq> None \<Longrightarrow> handle st' \<noteq> None \<Longrightarrow> column st = column st' \<Longrightarrow> f st = f st'"
  shows "reads_row f (\<lambda>r. f (row_view r))"
  unfolding reads_row_def
proof (intro allI impI)
  fix st :: "'a Stmt" and r rs
  assume a: "handle st \<noteq> None \<and> cursor st = Some (r # rs)"
  then have "column st = column (row_view r :: 'a Stmt)" by (auto simp: column_def row_view_def)
  with a show "f st = f (row_view r)" by (intro assms) (auto simp: row_view_def)
qed

lemma accessors_column:
  assumes "handle st \<noteq> None"
  shows "Stmt_get_int st c = (case column st c of SqlInt i \<Rightarrow> to_i32 i | _ \<Rightarrow> 0)"
    "Stmt_get_blob st c = (case column st c of SqlBlob b \<Rightarrow> if b = [] then None else Some b | _ \<Rightarrow> None)"
    "Stmt_is_null st c = (column st c = SqlNull)"
  using assms by (cases "handle st"; simp add: Stmt_get_int_def Stmt_get_blob_def Stmt_is_null_def)+

lemma accessors_cong:
  assumes "handle st \<noteq> None" "handle st' \<noteq> None" "column st = column st'"
  shows "Stmt_get_int st = Stmt_get_int st'" "Stmt_get_blob st = Stmt_get_blob st'"
    "Stmt_is_null st = Stmt_is_null st'" "read_nullable_uuid st = read_nullable_uuid st'"
    "read_aabb_from_stmt st = read_aabb_from_stmt st'" "read_object c st = read_object c st'"
proof -
  show i: "Stmt_get_int st = Stmt_get_int st'" and b: "Stmt_get_blob st = Stmt_get_blob st'"
    and n: "Stmt_is_null st = Stmt_is_null st'"
    using assms(3) by (auto simp: accessors_column [OF assms(1)] accessors_column [OF assms(2)])
  show r: "read_nullable_uuid st = read_nullable_uuid st'" by (rule ext) (simp add: read_nullable_uuid_def b n)
  show "read_aabb_from_stmt st = read_aabb_from_stmt st'" by (rule ext) (simp add: read_aabb_from_stmt_def i)
  show "read_object c st = read_object c st'" unfolding read_object_def b r ..
qed

lemmas reads_int = reads_row_view [where f = "\<lambda>st. Stmt_get_int st c" for c, OF fun_cong [OF accessors_cong(1)]]
lemmas reads_nullable = reads_row_view [where f = "\<lambda>st. read_nullable_uuid st c" for c, OF fun_cong [OF accessors_cong(4)]]
lemmas reads_object = reads_row_view [where f = "read_object c" for c, OF accessors_cong(6)]

lemma reads_unit: "reads_row (\<lambda>_. ()) (\<lambda>_. ())"
  by (simp add: reads_row_def)

lemma reads_box: "reads_row (\<lambda>st :: 'db Stmt. if \<not> Stmt_is_null st 0 then Some (read_aabb_from_stmt st 0) else None)
   (\<lambda>r. if \<not> Stmt_is_null (row_view r :: 'db Stmt) 0 then Some (read_aabb_from_stmt (row_view r :: 'db Stmt) 0) else None)"
proof (rule reads_row_view, goal_cases)
  case (1 st st')
  note C = accessors_cong [OF 1]
  show ?case unfolding C(3) C(5) ..
qed

lemma reads_child: "reads_row (\<lambda>st :: 'db Stmt. case Stmt_get_blob st 0 of None \<Rightarrow> None
      | Some u \<Rightarrow> Some (u, if \<not> Stmt_is_null st 1 then read_aabb_from_stmt st 1 else AABB_new))
   (\<lambda>r. case Stmt_get_blob (row_view r :: 'db Stmt) 0 of None \<Rightarrow> None
      | Some u \<Rightarrow> Some (u, if \<not> Stmt_is_null (row_view r :: 'db Stmt) 1
          then read_aabb_from_stmt (row_view r :: 'db Stmt) 1 else AABB_new))"
proof (rule reads_row_view, goal_cases)
  case (1 st st')
  note C = accessors_cong [OF 1]
  show ?case unfolding C(2) C(3) C(5) ..
qed

lemma params_distinct: "distinct (map fst bs) \<Longrightarrow> (i, v) \<in> set bs \<Longrightarrow> params bs i = v"
proof (induction bs rule: rev_induct)
  case (snoc p bs)
  then show ?case by (auto simp: params_def put_param_def image_iff)
qed simp

section \<open>The methods on the tables\<close>

abbreviation ready :: "StreamSqliteDB \<Rightarrow> bool" where
  "ready s \<equiv> connected s \<and> \<not> read_only s"

lemma execute_ready: "ready s \<Longrightarrow> execute bs code s = s\<lparr>db := snd (run code bs (db s))\<rparr>"
  by (simp add: execute_def write_stmt_def query_first_run [OF reads_unit] split_beta)

lemma execute_other: "\<not> ready s \<Longrightarrow> execute bs code s = s"
  by (cases "connected s")
    (simp_all add: execute_def write_stmt_def query_first_run [OF reads_unit] query_null run_def split_beta)

text \<open>The box columns of a row, and the integers the program binds for a box.\<close>

definition row_box :: "object_row \<Rightarrow> (Vector3i \<times> Vector3i) option" where
  "row_box ob = (case (row_minX ob, row_maxX ob, row_minY ob, row_maxY ob, row_minZ ob, row_maxZ ob) of
     (Some a, Some b, Some c, Some d, Some e, Some f) \<Rightarrow> Some (Vector3i a c e, Vector3i b d f) | _ \<Rightarrow> None)"

definition int_box :: "AABB \<Rightarrow> Vector3i \<times> Vector3i" where
  "int_box a = (vector3i_of (position a), vector3i_of (get_end a))"

definition put_box :: "Vector3i \<times> Vector3i \<Rightarrow> object_row \<Rightarrow> object_row" where
  "put_box lh ob = ob\<lparr>row_minX := Some (ix (fst lh)), row_maxX := Some (ix (snd lh)),
     row_minY := Some (iy (fst lh)), row_maxY := Some (iy (snd lh)),
     row_minZ := Some (iz (fst lh)), row_maxZ := Some (iz (snd lh))\<rparr>"

lemma row_box_put [simp]: "row_box (put_box lh ob) = Some lh"
  by (cases lh) (simp add: row_box_def put_box_def)

lemma put_box_fields [simp]: "row_uuid (put_box lh ob) = row_uuid ob" "row_parent (put_box lh ob) = row_parent ob"
  "row_chunk (put_box lh ob) = row_chunk ob" "row_ok ob \<Longrightarrow> row_ok (put_box lh ob)"
  by (simp_all add: put_box_def row_ok_def)

lemma set_object_aabb_run:
  "snd (run sql_set_object_aabb (bind_aabb a 1 @ [(7, SqlBlob u)]) d) =
    d\<lparr>object_uuid := map (\<lambda>ob. if row_uuid ob = u then put_box (int_box a) ob else ob) (object_uuid d)\<rparr>"
  by (auto simp: run_def sql_set_object_aabb_def params_def put_param_def bind_aabb_def Let_def put_box_def
      int_box_def sql_int_def intro!: map_cong)

lemma remove_object_run:
  "snd (run sql_remove_object [(1, SqlBlob u)] d) = d\<lparr>object_uuid := delete_cascade [u] (object_uuid d)\<rparr>"
  by (simp add: run_def sql_remove_object_def params_def put_param_def)

lemma set_object_chunk_run:
  "snd (run sql_set_object_chunk [(1, SqlBlob u), (2, SqlInt k)] d) =
    (if k \<in> c_id ` set (chunk_metadata d)
     then d\<lparr>object_uuid := map (\<lambda>ob. if row_uuid ob = u then ob\<lparr>row_chunk := Some k\<rparr> else ob) (object_uuid d)\<rparr>
     else d)"
proof (cases "u \<in> uuids_of (object_uuid d)")
  case False
  then have "map (\<lambda>ob. if row_uuid ob = u then ob\<lparr>row_chunk := Some k\<rparr> else ob) (object_uuid d) = object_uuid d"
    by (intro map_idI) (auto simp: uuids_of_def)
  then show ?thesis using False by (simp add: run_def sql_set_object_chunk_def params_def put_param_def)
qed (simp add: run_def sql_set_object_chunk_def params_def put_param_def)

section \<open>Queries by box\<close>

definition meets :: "AABB \<Rightarrow> rtree_row \<Rightarrow> bool" where
  "meets a r \<longleftrightarrow> (let (lo, hi) = int_box a in
     r_minX r \<le> ix hi \<and> ix lo \<le> r_maxX r \<and> r_minY r \<le> iy hi \<and> iy lo \<le> r_maxY r \<and>
     r_minZ r \<le> iz hi \<and> iz lo \<le> r_maxZ r)"

definition indexed_by :: "database \<Rightarrow> (rtree_row \<Rightarrow> bool) \<Rightarrow> object_row \<Rightarrow> bool" where
  "indexed_by d hit ob \<longleftrightarrow> (\<exists>c \<in> set (chunk_metadata d). \<exists>r \<in> set (chunk_rtree d).
     row_chunk ob = Some (c_id c) \<and> c_id c = r_id r \<and> hit r)"

definition row_data :: "object_row \<Rightarrow> ObjectData" where
  "row_data ob = \<lparr>parent_uuid = (case row_parent ob of None \<Rightarrow> uuid_nil | Some p \<Rightarrow> p), node_root = 0\<rparr>"

lemma in_set_if: "x \<in> set (if b then xs else []) \<longleftrightarrow> b \<and> x \<in> set xs"
  by simp

lemma in_set_concat_map: "x \<in> set (concat (map f xs)) \<longleftrightarrow> (\<exists>y \<in> set xs. x \<in> set (f y))"
  by simp

lemma in_set_single: "x \<in> set [y] \<longleftrightarrow> x = y"
  by simp

lemma set_join_rtree: "set (join_rtree hit d) = {ob \<in> set (object_uuid d). indexed_by d hit ob}"
proof (rule set_eqI)
  fix ob
  have "ob \<in> set (join_rtree hit d) \<longleftrightarrow> (\<exists>ob' \<in> set (object_uuid d). \<exists>c \<in> set (chunk_metadata d).
      row_chunk ob' = Some (c_id c) \<and> (\<exists>r \<in> set (chunk_rtree d). c_id c = r_id r \<and> hit r \<and> ob = ob'))"
    unfolding join_rtree_def in_set_concat_map in_set_if in_set_single by blast
  then show "ob \<in> set (join_rtree hit d) \<longleftrightarrow> ob \<in> {ob \<in> set (object_uuid d). indexed_by d hit ob}"
    unfolding indexed_by_def mem_Collect_eq by blast
qed

lemma collect_objects_lookup:
  assumes "\<And>k d d'. Some (k, d) \<in> set rs \<Longrightarrow> Some (k, d') \<in> set rs \<Longrightarrow> d = d'"
  shows "map_of (collect_objects rs) k = Some d \<longleftrightarrow> Some (k, d) \<in> set rs"
  using assms
proof (induction rs arbitrary: d rule: rev_induct)
  case (snoc r rs)
  have IH: "map_of (collect_objects rs) k = Some e \<longleftrightarrow> Some (k, e) \<in> set rs" for e
    by (rule snoc.IH) (use snoc.prems in auto)
  show ?case
  proof (cases r)
    case None
    then show ?thesis using IH by (simp add: collect_objects_def)
  next
    case (Some kd)
    obtain k' d' where kd: "kd = (k', d')" by (cases kd)
    have "map_of (collect_objects (rs @ [r])) = (map_of (collect_objects rs))(k' \<mapsto> d')"
      by (simp add: collect_objects_def Some kd map_of_dm_put)
    then show ?thesis using IH snoc.prems [of k d d'] Some kd by auto
  qed
qed (simp add: collect_objects_def)

lemma db_okD:
  assumes "db_ok d" "ob \<in> set (object_uuid d)"
  shows "row_ok ob" "row_uuid ob \<noteq> []" "row_parent ob = Some p \<Longrightarrow> p \<in> uuids_of (object_uuid d)"
    "row_parent ob \<noteq> Some []" "row_chunk ob = Some k \<Longrightarrow> k \<in> c_id ` set (chunk_metadata d)"
proof -
  show r: "row_ok ob" "row_parent ob = Some p \<Longrightarrow> p \<in> uuids_of (object_uuid d)"
    "row_chunk ob = Some k \<Longrightarrow> k \<in> c_id ` set (chunk_metadata d)" using assms by (auto simp: db_ok_def)
  have n: "[] \<notin> uuids_of (object_uuid d)"
    using assms(1) by (auto simp: db_ok_def uuids_of_def row_ok_def uuid_ok_def)
  then show "row_uuid ob \<noteq> []" using assms(2) by (metis imageI uuids_of_def)
  show "row_parent ob \<noteq> Some []" using assms n by (auto simp: db_ok_def)
qed

lemma read_object_row:
  assumes "db_ok d" "ob \<in> set (object_uuid d)"
  shows "read_object 1 (row_view [SqlBlob (row_uuid ob), sql_opt_blob (row_parent ob)]) = Some (row_uuid ob, row_data ob)"
    "read_object 2 (row_view (row_columns ob)) = Some (row_uuid ob, row_data ob)"
  using db_okD [OF assms]
  by (auto simp: read_object_def accessors_column row_simps row_columns_def row_data_def
      read_nullable_uuid_def sql_opt_blob_def split: option.splits)

lemma row_uuid_inj:
  "distinct (map row_uuid os) \<Longrightarrow> ob \<in> set os \<Longrightarrow> ob' \<in> set os \<Longrightarrow> row_uuid ob = row_uuid ob' \<Longrightarrow> ob = ob'"
  by (auto simp: distinct_map dest: inj_onD)

lemma collect_rows:
  assumes "db_ok d" "set rows \<subseteq> set (object_uuid d)"
  shows "map_of (collect_objects (map (\<lambda>ob. Some (row_uuid ob, row_data ob)) rows)) u = Some dt \<longleftrightarrow>
    (\<exists>ob \<in> set rows. row_uuid ob = u \<and> dt = row_data ob)"
proof -
  have "distinct (map row_uuid (object_uuid d))" using assms(1) by (simp add: db_ok_def)
  then have inj: "ob = ob'" if "ob \<in> set rows" "ob' \<in> set rows" "row_uuid ob = row_uuid ob'" for ob ob'
    using that assms(2) row_uuid_inj by blast
  show ?thesis by (subst collect_objects_lookup) (auto dest: inj)
qed

text \<open>The parameters of the text for \<open>n\<close> boxes: six for each box, no number twice.\<close>

definition box_params :: "AABB list \<Rightarrow> (nat \<times> sql_value) list" where
  "box_params aabbs = concat (map (\<lambda>i. bind_aabb (aabbs ! i) (6 * i + 1)) [0..<length aabbs])"

lemma bind_aabb_keys: "map fst (bind_aabb a k) = [k..<k + 6]"
  by (simp add: bind_aabb_def Let_def upt_rec)

lemma box_param_keys:
  "map fst (concat (map (\<lambda>i. bind_aabb (aabbs ! i) (6 * i + 1)) [0..<n])) = [1..<6 * n + 1]"
proof (induction n)
  case (Suc n)
  have "[1..<6 * n + 1] @ [6 * n + 1..<6 * n + 1 + 6] = [1..<6 * Suc n + 1]"
    using upt_add_eq_append [of 1 "6 * n + 1" 6] by simp
  moreover have "map fst (concat (map (\<lambda>i. bind_aabb (aabbs ! i) (6 * i + 1)) [0..<Suc n])) =
    map fst (concat (map (\<lambda>i. bind_aabb (aabbs ! i) (6 * i + 1)) [0..<n])) @ map fst (bind_aabb (aabbs ! n) (6 * n + 1))"
    by simp
  ultimately show ?case unfolding Suc.IH bind_aabb_keys by simp
qed simp

lemma box_param:
  assumes "i < length aabbs" "(6 * i + k, v) \<in> set (bind_aabb (aabbs ! i) (6 * i + 1))"
  shows "params (box_params aabbs) (6 * i + k) = v"
proof (rule params_distinct)
  show "distinct (map fst (box_params aabbs))"
    unfolding box_params_def box_param_keys by simp
  show "(6 * i + k, v) \<in> set (box_params aabbs)" using assms by (auto simp: box_params_def)
qed

lemma box_params_meets:
  assumes "i < length aabbs"
  shows "(sql_ge (r_maxX r) (params (box_params aabbs) (6 * i + 1)) \<and> sql_le (r_minX r) (params (box_params aabbs) (6 * i + 2)) \<and>
     sql_ge (r_maxY r) (params (box_params aabbs) (6 * i + 3)) \<and> sql_le (r_minY r) (params (box_params aabbs) (6 * i + 4)) \<and>
     sql_ge (r_maxZ r) (params (box_params aabbs) (6 * i + 5)) \<and> sql_le (r_minZ r) (params (box_params aabbs) (6 * i + 6)))
   \<longleftrightarrow> meets (aabbs ! i) r"
proof -
  let ?lo = "fst (int_box (aabbs ! i))" and ?hi = "snd (int_box (aabbs ! i))"
  have "params (box_params aabbs) (6 * i + 1) = SqlInt (ix ?lo)" "params (box_params aabbs) (6 * i + 2) = SqlInt (ix ?hi)"
    "params (box_params aabbs) (6 * i + 3) = SqlInt (iy ?lo)" "params (box_params aabbs) (6 * i + 4) = SqlInt (iy ?hi)"
    "params (box_params aabbs) (6 * i + 5) = SqlInt (iz ?lo)" "params (box_params aabbs) (6 * i + 6) = SqlInt (iz ?hi)"
    by (rule box_param [OF assms]; simp add: bind_aabb_def Let_def int_box_def)+
  then show ?thesis by (auto simp: sql_ge_def sql_le_def meets_def split_beta)
qed

lemma bex_nth: "(\<exists>i \<in> set [0..<length xs]. P (xs ! i)) \<longleftrightarrow> (\<exists>a \<in> set xs. P a)"
  by (simp add: Bex_def in_set_conv_nth) metis

lemma query_objects_rows:
  assumes "connected s" "db_ok (db s)" "aabbs \<noteq> []"
  shows "query_objects aabbs s = collect_objects (map (\<lambda>ob. Some (row_uuid ob, row_data ob))
    (join_rtree (\<lambda>r. \<exists>a \<in> set aabbs. meets a r) (db s)))"
proof -
  let ?n = "length aabbs"
  have hit: "(\<exists>i \<in> set [0..<?n].
        sql_ge (r_maxX r) (params (box_params aabbs) (6 * i + 1)) \<and> sql_le (r_minX r) (params (box_params aabbs) (6 * i + 2)) \<and>
        sql_ge (r_maxY r) (params (box_params aabbs) (6 * i + 3)) \<and> sql_le (r_minY r) (params (box_params aabbs) (6 * i + 4)) \<and>
        sql_ge (r_maxZ r) (params (box_params aabbs) (6 * i + 5)) \<and> sql_le (r_minZ r) (params (box_params aabbs) (6 * i + 6)))
     \<longleftrightarrow> (\<exists>a \<in> set aabbs. meets a r)" (is "?L \<longleftrightarrow> _") for r
  proof -
    have "?L \<longleftrightarrow> (\<exists>i \<in> set [0..<?n]. meets (aabbs ! i) r)"
      by (rule bex_cong [OF refl]) (rule box_params_meets, simp)
    also have "\<dots> \<longleftrightarrow> (\<exists>a \<in> set aabbs. meets a r)" by (rule bex_nth)
    finally show ?thesis .
  qed
  have "fst (run (sql_query_boxes ?n) (box_params aabbs) (db s)) =
    map (\<lambda>ob. [SqlBlob (row_uuid ob), sql_opt_blob (row_parent ob)]) (join_rtree (\<lambda>r. \<exists>a \<in> set aabbs. meets a r) (db s))"
    by (simp only: run_def sql_query_boxes_def hit option.case prod.case fst_conv)
  moreover have "map (\<lambda>r. read_object 1 (row_view r :: database Stmt)) (map (\<lambda>ob. [SqlBlob (row_uuid ob), sql_opt_blob (row_parent ob)])
      (join_rtree (\<lambda>r. \<exists>a \<in> set aabbs. meets a r) (db s))) =
    map (\<lambda>ob. Some (row_uuid ob, row_data ob)) (join_rtree (\<lambda>r. \<exists>a \<in> set aabbs. meets a r) (db s))"
    using read_object_row(1) [OF assms(2)] by (auto simp: set_join_rtree)
  ultimately show ?thesis using assms unfolding query_objects_def box_params_def [symmetric]
    by (simp add: select_stmt_def query_rows_run [OF reads_object] o_def cong: map_cong)
qed

lemma query_objects_of_aabb_rows:
  assumes "connected s" "db_ok (db s)"
  shows "query_objects_of_aabb a s = collect_objects (map (\<lambda>ob. Some (row_uuid ob, row_data ob))
    (join_rtree (meets a) (db s)))"
proof -
  let ?bs = "[(1, SqlInt (ix (snd (int_box a)))), (2, SqlInt (ix (fst (int_box a)))), (3, SqlInt (iy (snd (int_box a)))),
              (4, SqlInt (iy (fst (int_box a)))), (5, SqlInt (iz (snd (int_box a)))), (6, SqlInt (iz (fst (int_box a))))]"
  have m: "meets a = (\<lambda>r. r_minX r \<le> ix (snd (int_box a)) \<and> ix (fst (int_box a)) \<le> r_maxX r \<and>
      r_minY r \<le> iy (snd (int_box a)) \<and> iy (fst (int_box a)) \<le> r_maxY r \<and>
      r_minZ r \<le> iz (snd (int_box a)) \<and> iz (fst (int_box a)) \<le> r_maxZ r)"
    by (rule ext) (simp add: meets_def split_beta)
  have "fst (run sql_query_uuid_of_aabb ?bs (db s)) = map row_columns (join_rtree (meets a) (db s))"
    by (simp add: run_def sql_query_uuid_of_aabb_def params_def put_param_def sql_le_def sql_ge_def m)
  moreover have "map (\<lambda>r. read_object 2 (row_view r :: database Stmt)) (map row_columns (join_rtree (meets a) (db s))) =
    map (\<lambda>ob. Some (row_uuid ob, row_data ob)) (join_rtree (meets a) (db s))"
    using read_object_row(2) [OF assms(2)] by (auto simp: set_join_rtree)
  ultimately show ?thesis using assms(1)
    by (simp add: query_objects_of_aabb_def select_stmt_def query_rows_run [OF reads_object] Let_def int_box_def
        o_def cong: map_cong)
qed

lemma query_objects_lookup:
  assumes "connected s" "db_ok (db s)"
  shows "(map_of (query_objects aabbs s) u = Some dt \<longleftrightarrow>
      (\<exists>ob \<in> set (object_uuid (db s)). row_uuid ob = u \<and> dt = row_data ob \<and>
        indexed_by (db s) (\<lambda>r. \<exists>a \<in> set aabbs. meets a r) ob)) \<and>
    query_objects_of_aabb a s = query_objects [a] s"
proof
  show "map_of (query_objects aabbs s) u = Some dt \<longleftrightarrow>
      (\<exists>ob \<in> set (object_uuid (db s)). row_uuid ob = u \<and> dt = row_data ob \<and>
        indexed_by (db s) (\<lambda>r. \<exists>a \<in> set aabbs. meets a r) ob)"
  proof (cases "aabbs = []")
    case True
    then show ?thesis by (simp add: query_objects_def indexed_by_def)
  next
    case False
    then show ?thesis unfolding query_objects_rows [OF assms False]
      by (subst collect_rows [OF assms(2)]) (auto simp: set_join_rtree)
  qed
  show "query_objects_of_aabb a s = query_objects [a] s"
    using assms by (simp add: query_objects_rows query_objects_of_aabb_rows)
qed

text \<open>C26: The streaming query. On a well-formed database \<open>query_objects\<close> answers, for any list of
  boxes, with exactly the objects whose tile meets one of the boxes in the spatial index, each once,
  with its parent; and the overload for one box answers the same as the list of that box.\<close>

theorem query_objects_spec:
  assumes "connected s" "db_ok (db s)"
  shows "(map_of (query_objects aabbs s) u = Some dt \<longleftrightarrow>
      (\<exists>ob \<in> set (object_uuid (db s)). row_uuid ob = u \<and> dt = row_data ob \<and>
        indexed_by (db s) (\<lambda>r. \<exists>a \<in> set aabbs. meets a r) ob)) \<and>
    query_objects_of_aabb a s = query_objects [a] s"
  by (rule query_objects_lookup [OF assms])


definition example_db :: database where
  "example_db = \<lparr>db_info = [],
     object_uuid = [\<lparr>row_uuid = replicate 16 1, row_chunk = Some 1, row_parent = None, row_minX = None, row_maxX = None,
       row_minY = None, row_maxY = None, row_minZ = None, row_maxZ = None\<rparr>],
     chunk_metadata = [\<lparr>c_id = 1, c_level = 1, c_x = 0, c_y = 0, c_z = 0\<rparr>],
     chunk_rtree = [\<lparr>r_id = 1, r_minX = 0, r_maxX = 4, r_minY = 0, r_maxY = 4, r_minZ = 0, r_maxZ = 4\<rparr>]\<rparr>"

abbreviation example_sdb :: StreamSqliteDB where
  "example_sdb \<equiv> StreamSqliteDB_new True False (Some example_db)"

lemma example_db_ok: "connected example_sdb" "db_ok (db example_sdb)" "db example_sdb = example_db"
  by (simp_all add: StreamSqliteDB_new_def example_db_def db_ok_def row_ok_def uuid_ok_def)

lemma example_hit: "ob \<in> set (object_uuid example_db) \<Longrightarrow>
    indexed_by example_db (\<lambda>r. \<exists>a \<in> set [box_of (Vector3i 2 2 2) (Vector3i 9 9 9)]. meets a r) ob"
proof -
  have "near (Vector3i 2 2 2)" "near (Vector3i 9 9 9)" by (simp_all add: near_def)
  then have "int_box (box_of (Vector3i 2 2 2) (Vector3i 9 9 9)) = (Vector3i 2 2 2, Vector3i 9 9 9)"
    by (simp add: int_box_def get_end_box vector3i_of_vector) (simp add: box_of_def vector3i_of_vector)
  then show "ob \<in> set (object_uuid example_db) \<Longrightarrow> ?thesis"
    by (simp add: example_db_def indexed_by_def meets_def)
qed

theorem query_objects_spec_witness:
  "map_of (query_objects [box_of (Vector3i 2 2 2) (Vector3i 9 9 9)] example_sdb) (replicate 16 1) = Some ObjectData_new"
proof -
  obtain ob where ob: "object_uuid example_db = [ob]" "row_uuid ob = replicate 16 1" "row_data ob = ObjectData_new"
    by (simp add: example_db_def row_data_def ObjectData_new_def)
  then show ?thesis
    using query_objects_spec [OF example_db_ok(1,2), of "[box_of (Vector3i 2 2 2) (Vector3i 9 9 9)]" "replicate 16 1" ObjectData_new]
      example_hit [of ob] unfolding example_db_ok(3) by auto
qed
end
