(* ===== verification/StreamDbInv.thy ===== *)
theory StreamDbInv
  imports StreamDbFacts Memo
begin

text \<open>
  The schema as an invariant: every method of \<open>StreamSqliteDB\<close> keeps the constraints of the tables
  and the agreement of the tile cache with the table of tiles, whatever the order of the calls, and
  none is undefined. With it: what an upsert, a removal and a tile lookup do to the tables.
\<close>

section \<open>The cascade\<close>

definition parent_rel :: "object_row list \<Rightarrow> (uuid \<times> uuid) set" where
  "parent_rel os = {(p, row_uuid ob) |p ob. ob \<in> set os \<and> row_parent ob = Some p}"

definition reach :: "object_row list \<Rightarrow> uuid set \<Rightarrow> uuid set" where
  "reach os S = (parent_rel os)\<^sup>* `` S"

lemma parent_rel_filter: "parent_rel (filter (\<lambda>ob. row_uuid ob \<noteq> u) os) = {(a, b) \<in> parent_rel os. b \<noteq> u}"
  by (auto simp: parent_rel_def)

lemma reach_mono: "r \<in> reach os S \<Longrightarrow> S \<subseteq> T \<Longrightarrow> r \<in> reach os T"
  by (auto simp: reach_def)

lemma children_parent_rel: "c \<in> set (children_of u os) \<longleftrightarrow> (u, c) \<in> parent_rel os"
  by (auto simp: children_of_def parent_rel_def)

lemma uuids_filter: "uuids_of (filter (\<lambda>ob. row_uuid ob \<noteq> u) os) = uuids_of os - {u}"
  by (auto simp: uuids_of_def)

lemma parent_rel_uuids: "(a, b) \<in> parent_rel os \<Longrightarrow> b \<in> uuids_of os"
  by (auto simp: parent_rel_def uuids_of_def)

lemma reach_step:
  assumes "os' = filter (\<lambda>ob. row_uuid ob \<noteq> u) os" "v \<noteq> u"
  shows "v \<in> reach os (insert u S) \<longleftrightarrow> v \<in> reach os' (set (children_of u os') \<union> (S - {u}))"
proof
  assume "v \<in> reach os (insert u S)"
  then obtain w where w: "w = u \<or> w \<in> S" "(w, v) \<in> (parent_rel os)\<^sup>*" by (auto simp: reach_def)
  from w(2) have "v = u \<or> v \<in> reach os' (set (children_of u os') \<union> (S - {u}))"
  proof (induction rule: rtrancl_induct)
    case base
    then show ?case using w(1) by (auto simp: reach_def)
  next
    case (step a b)
    show ?case
    proof (cases "b = u")
      case False
      then have e: "(a, b) \<in> parent_rel os'" using step.hyps assms(1) by (simp add: parent_rel_filter)
      from step.IH show ?thesis
      proof
        assume "a = u"
        then have "b \<in> set (children_of u os')" using e by (simp add: children_parent_rel)
        then show ?thesis by (auto simp: reach_def)
      next
        assume "a \<in> reach os' (set (children_of u os') \<union> (S - {u}))"
        then show ?thesis using e unfolding reach_def by (blast intro: rtrancl_into_rtrancl)
      qed
    qed simp
  qed
  then show "v \<in> reach os' (set (children_of u os') \<union> (S - {u}))" using assms(2) by simp
next
  assume "v \<in> reach os' (set (children_of u os') \<union> (S - {u}))"
  then obtain w where w: "w \<in> set (children_of u os') \<or> w \<in> S" "(w, v) \<in> (parent_rel os')\<^sup>*"
    by (auto simp: reach_def)
  have sub: "parent_rel os' \<subseteq> parent_rel os" using assms(1) by (auto simp: parent_rel_filter)
  then have p: "(w, v) \<in> (parent_rel os)\<^sup>*" using w(2) rtrancl_mono by blast
  from w(1) show "v \<in> reach os (insert u S)"
  proof
    assume "w \<in> set (children_of u os')"
    then have "(u, w) \<in> parent_rel os" using sub by (auto simp: children_parent_rel)
    then show ?thesis using p unfolding reach_def by (blast intro: converse_rtrancl_into_rtrancl)
  next
    assume "w \<in> S"
    then show ?thesis using p unfolding reach_def by blast
  qed
qed

lemma delete_cascade_filter:
  "delete_cascade us os = filter (\<lambda>ob. row_uuid ob \<notin> reach os (set us \<inter> uuids_of os)) os"
proof (induction us os rule: delete_cascade.induct)
  case (1 os)
  then show ?case by (simp add: reach_def)
next
  case (2 u us os)
  show ?case
  proof (cases "u \<in> uuids_of os")
    case False
    then show ?thesis using 2(2) by simp
  next
    case True
    define os' where "os' = filter (\<lambda>ob. row_uuid ob \<noteq> u) os"
    have IH: "delete_cascade (children_of u os' @ us) os' =
        filter (\<lambda>ob. row_uuid ob \<notin> reach os' (set (children_of u os' @ us) \<inter> uuids_of os')) os'"
      using 2(1) [OF True os'_def] .
    have ch: "set (children_of u os') \<subseteq> uuids_of os'" by (auto simp: children_of_def uuids_of_def)
    have S: "set (children_of u os' @ us) \<inter> uuids_of os' = set (children_of u os') \<union> (set us \<inter> uuids_of os - {u})"
      using ch uuids_filter [of u os] by (auto simp: os'_def)
    have i: "set (u # us) \<inter> uuids_of os = insert u (set us \<inter> uuids_of os)" using True by auto
    have E: "row_uuid ob \<noteq> u \<and> row_uuid ob \<notin> reach os' (set (children_of u os' @ us) \<inter> uuids_of os') \<longleftrightarrow>
        row_uuid ob \<notin> reach os (set (u # us) \<inter> uuids_of os)" for ob
    proof (cases "row_uuid ob = u")
      case True
      then show ?thesis unfolding i by (auto simp: reach_def)
    next
      case False
      then show ?thesis unfolding i S reach_step [OF os'_def False] by simp
    qed
    have "delete_cascade (u # us) os = delete_cascade (children_of u os' @ us) os'"
      using True by (simp add: os'_def Let_def)
    also have "\<dots> = filter (\<lambda>ob. row_uuid ob \<noteq> u \<and>
        row_uuid ob \<notin> reach os' (set (children_of u os' @ us) \<inter> uuids_of os')) os"
      unfolding IH by (subst (2) os'_def) simp
    finally show ?thesis unfolding E .
  qed
qed


lemma delete_cascade_one:
  assumes "db_ok d"
  shows "delete_cascade [u] (object_uuid d) =
    filter (\<lambda>ob. (u, row_uuid ob) \<notin> (parent_rel (object_uuid d))\<^sup>*) (object_uuid d)"
proof (cases "u \<in> uuids_of (object_uuid d)")
  case True
  then show ?thesis unfolding delete_cascade_filter by (simp add: reach_def)
next
  case False
  have "x = u" if "(u, x) \<in> (parent_rel (object_uuid d))\<^sup>*" for x
    using that
  proof (induction rule: rtrancl_induct)
    case (step a b)
    then obtain ob where "ob \<in> set (object_uuid d)" "row_parent ob = Some u" by (auto simp: parent_rel_def)
    then show ?case using db_okD(3) [OF assms] False by blast
  qed simp
  then have "row_uuid ob \<noteq> u \<and> (u, row_uuid ob) \<notin> (parent_rel (object_uuid d))\<^sup>*"
    if "ob \<in> set (object_uuid d)" for ob
    using that False by (metis imageI uuids_of_def)
  then have "filter (\<lambda>ob. (u, row_uuid ob) \<notin> (parent_rel (object_uuid d))\<^sup>*) (object_uuid d) = object_uuid d"
    by (simp add: filter_id_conv)
  then show ?thesis using False by simp
qed

section \<open>The schema is kept\<close>

lemma db_ok_map:
  assumes ok: "db_ok d"
    and f: "\<And>ob. row_uuid (f ob) = row_uuid ob"
      "\<And>ob. row_parent (f ob) = row_parent ob \<or> row_parent (f ob) = None \<or>
        (\<exists>p \<in> uuids_of (object_uuid d). row_parent (f ob) = Some p)"
      "\<And>ob. row_ok ob \<Longrightarrow> row_ok (f ob)"
      "\<And>ob. row_chunk (f ob) = row_chunk ob \<or> (\<exists>k. row_chunk (f ob) = Some k \<and> k \<in> c_id ` set (chunk_metadata d))"
  shows "db_ok (d\<lparr>object_uuid := map f (object_uuid d)\<rparr>)"
proof -
  have u: "uuids_of (map f (object_uuid d)) = uuids_of (object_uuid d)"
    by (simp add: uuids_of_def image_image f)
  have "row_uuid \<circ> f = row_uuid" using f(1) by auto
  moreover have "k \<in> c_id ` set (chunk_metadata d)" if "ob \<in> set (object_uuid d)" "row_chunk (f ob) = Some k" for ob k
    using f(4) [of ob] db_okD(5) [OF ok that(1)] that(2) by auto
  moreover have "p \<in> uuids_of (object_uuid d)" if "ob \<in> set (object_uuid d)" "row_parent (f ob) = Some p" for ob p
    using f(2) [of ob] db_okD(3) [OF ok that(1)] that(2) by auto
  ultimately show ?thesis using ok f(1,3) by (auto simp: db_ok_def u)
qed

lemma db_ok_set_aabb: "db_ok d \<Longrightarrow>
  db_ok (d\<lparr>object_uuid := map (\<lambda>ob. if row_uuid ob = u then put_box lh ob else ob) (object_uuid d)\<rparr>)"
  by (rule db_ok_map) auto

lemma db_ok_set_chunk: "db_ok d \<Longrightarrow> k \<in> c_id ` set (chunk_metadata d) \<Longrightarrow>
  db_ok (d\<lparr>object_uuid := map (\<lambda>ob. if row_uuid ob = u then ob\<lparr>row_chunk := Some k\<rparr> else ob) (object_uuid d)\<rparr>)"
  by (rule db_ok_map) (auto simp: row_ok_def)

lemma db_ok_filter:
  assumes ok: "db_ok d"
    and keep: "\<And>ob ob'. ob \<in> set (object_uuid d) \<Longrightarrow> ob' \<in> set (object_uuid d) \<Longrightarrow> P ob \<Longrightarrow>
      row_parent ob = Some (row_uuid ob') \<Longrightarrow> P ob'"
  shows "db_ok (d\<lparr>object_uuid := filter P (object_uuid d)\<rparr>)"
proof -
  have "p \<in> uuids_of (filter P (object_uuid d))"
    if "ob \<in> set (object_uuid d)" "P ob" "row_parent ob = Some p" for ob p
  proof -
    have "p \<in> uuids_of (object_uuid d)" using db_okD(3) [OF ok] that by blast
    then obtain ob' where "ob' \<in> set (object_uuid d)" "row_uuid ob' = p" by (auto simp: uuids_of_def)
    then show ?thesis using keep [of ob ob'] that by (auto simp: uuids_of_def)
  qed
  then show ?thesis using ok by (auto simp: db_ok_def distinct_map_filter)
qed

lemma db_ok_remove:
  assumes "db_ok d"
  shows "db_ok (d\<lparr>object_uuid := delete_cascade [u] (object_uuid d)\<rparr>)"
  unfolding delete_cascade_one [OF assms]
proof (rule db_ok_filter [OF assms])
  fix ob ob'
  assume a: "ob \<in> set (object_uuid d)" "(u, row_uuid ob) \<notin> (parent_rel (object_uuid d))\<^sup>*"
    "row_parent ob = Some (row_uuid ob')"
  then have "(row_uuid ob', row_uuid ob) \<in> parent_rel (object_uuid d)" by (auto simp: parent_rel_def)
  then show "(u, row_uuid ob') \<notin> (parent_rel (object_uuid d))\<^sup>*" using a(2) by (meson rtrancl_into_rtrancl)
qed

text \<open>The row an upsert writes, and its effect: nothing when the parent would be missing.\<close>

definition blank_row :: "uuid \<Rightarrow> object_row" where
  "blank_row u = \<lparr>row_uuid = u, row_chunk = None, row_parent = None, row_minX = None, row_maxX = None,
     row_minY = None, row_maxY = None, row_minZ = None, row_maxZ = None\<rparr>"

definition set_parent :: "uuid \<Rightarrow> uuid option \<Rightarrow> object_row \<Rightarrow> object_row" where
  "set_parent u p ob = (if row_uuid ob = u then ob\<lparr>row_parent := p\<rparr> else ob)"

lemma set_parent_fields [simp]: "row_uuid (set_parent u p ob) = row_uuid ob"
  "row_chunk (set_parent u p ob) = row_chunk ob" "row_ok (set_parent u p ob) = row_ok ob"
  "row_parent (set_parent u p ob) = (if row_uuid ob = u then p else row_parent ob)"
  by (simp_all add: set_parent_def row_ok_def)

lemma blank_row_fields [simp]: "row_uuid (blank_row u) = u" "row_chunk (blank_row u) = None"
  "row_parent (blank_row u) = None" "row_box (blank_row u) = None" "uuid_ok u \<Longrightarrow> row_ok (blank_row u)"
  by (simp_all add: blank_row_def row_box_def row_ok_def)

definition upserted :: "uuid \<Rightarrow> uuid option \<Rightarrow> object_row list \<Rightarrow> object_row list" where
  "upserted u p os = (if u \<in> uuids_of os then map (set_parent u p) os else os @ [set_parent u p (blank_row u)])"

definition parent_opt :: "uuid \<Rightarrow> uuid option" where
  "parent_opt p = (if p = uuid_nil then None else Some p)"

lemma uuids_upserted: "uuids_of (upserted u p os) = insert u (uuids_of os)"
proof (cases "u \<in> uuids_of os")
  case True
  then show ?thesis by (simp add: upserted_def uuids_of_def image_image insert_absorb)
qed (simp add: upserted_def uuids_of_def)

lemma upserted_sql:
  "(if u \<in> uuids_of os
     then map (\<lambda>ob. if row_uuid ob = u then ob\<lparr>row_parent := q\<rparr> else ob) os
     else os @ [\<lparr>row_uuid = u, row_chunk = None, row_parent = q, row_minX = None,
       row_maxX = None, row_minY = None, row_maxY = None, row_minZ = None, row_maxZ = None\<rparr>]) = upserted u q os"
  by (simp add: upserted_def set_parent_def [abs_def] blank_row_def)

lemma upsert_run:
  "snd (run sql_upsert_object_uuids [(1, SqlBlob u), (2, if uuid_eq p uuid_nil then SqlNull else SqlBlob p)] d) =
    (if p = uuid_nil \<or> p = u \<or> p \<in> uuids_of (object_uuid d)
     then d\<lparr>object_uuid := upserted u (parent_opt p) (object_uuid d)\<rparr> else d)"
proof (cases "p = uuid_nil")
  case True
  then show ?thesis
    by (simp add: run_def sql_upsert_object_uuids_def params_def put_param_def uuid_eq_def Let_def
        parent_opt_def upserted_sql)
next
  case False
  then show ?thesis
    by (simp add: run_def sql_upsert_object_uuids_def params_def put_param_def uuid_eq_def Let_def
        parent_opt_def upserted_sql uuids_upserted)
qed

lemma db_ok_upsert:
  assumes ok: "db_ok d" and u: "uuid_ok u" and p: "p = uuid_nil \<or> p = u \<or> p \<in> uuids_of (object_uuid d)"
  shows "db_ok (d\<lparr>object_uuid := upserted u (parent_opt p) (object_uuid d)\<rparr>)"
proof (cases "u \<in> uuids_of (object_uuid d)")
  case True
  then have "db_ok (d\<lparr>object_uuid := map (set_parent u (parent_opt p)) (object_uuid d)\<rparr>)"
    using p by (intro db_ok_map [OF ok]) (auto simp: parent_opt_def)
  then show ?thesis using True by (simp add: upserted_def)
next
  case False
  have un: "uuids_of (object_uuid d @ [set_parent u q (blank_row u)]) = insert u (uuids_of (object_uuid d))" for q
    by (simp add: uuids_of_def)
  show ?thesis using ok u p False db_okD(3) [OF ok]
    by (auto simp: db_ok_def upserted_def un parent_opt_def) (auto simp: uuids_of_def)
qed

section \<open>Tiles\<close>

definition tile_key :: "Chunk \<Rightarrow> int \<times> int \<times> int \<times> int" where
  "tile_key ch = (uint (level ch), chunk_x ch, chunk_y ch, chunk_z ch)"

definition chunk_agrees :: "database \<Rightarrow> Chunk \<Rightarrow> int \<Rightarrow> bool" where
  "chunk_agrees d ch k \<longleftrightarrow> (\<exists>c \<in> set (chunk_metadata d). tile_of c = tile_key ch \<and> c_id c = k)"

definition ids_dense :: "database \<Rightarrow> bool" where
  "ids_dense d \<longleftrightarrow> (\<forall>c \<in> set (chunk_metadata d). c_id c \<le> int (length (chunk_metadata d)))"

definition new_tile :: "database \<Rightarrow> Chunk \<Rightarrow> chunk_row" where
  "new_tile d ch = \<lparr>c_id = new_rowid (map c_id (chunk_metadata d)), c_level = uint (level ch),
     c_x = chunk_x ch, c_y = chunk_y ch, c_z = chunk_z ch\<rparr>"

definition add_tile :: "database \<Rightarrow> Chunk \<Rightarrow> database" where
  "add_tile d ch = d\<lparr>chunk_metadata := chunk_metadata d @ [new_tile d ch],
     chunk_rtree := after_insert_chunk_metadata (new_tile d ch) (chunk_rtree d)\<rparr>"

lemma new_rowid_props:
  assumes "\<forall>i \<in> set ids. 0 < i \<and> i \<le> n" "0 \<le> n"
  shows "0 < new_rowid ids" "new_rowid ids \<notin> set ids" "new_rowid ids \<le> n + 1"
proof -
  have "0 < new_rowid ids \<and> new_rowid ids \<notin> set ids \<and> new_rowid ids \<le> n + 1"
  proof (cases "ids = []")
    case False
    define m where "m = Max (set ids)"
    have m: "m \<in> set ids" using False unfolding m_def by (intro Max_in) auto
    moreover have "m + 1 \<notin> set ids" using Max_ge [of "set ids" "m + 1"] unfolding m_def by auto
    moreover have "new_rowid ids = m + 1" using False by (simp add: new_rowid_def m_def)
    ultimately show ?thesis using assms(1) by fastforce
  qed (use assms in \<open>simp add: new_rowid_def\<close>)
  then show "0 < new_rowid ids" "new_rowid ids \<notin> set ids" "new_rowid ids \<le> n + 1" by blast+
qed

lemma rtree_insert_ids: "r_id ` set (rtree_insert_or_ignore r rs) \<subseteq> insert (r_id r) (r_id ` set rs)"
  "distinct (map r_id rs) \<Longrightarrow> distinct (map r_id (rtree_insert_or_ignore r rs))"
  by (auto simp: rtree_insert_or_ignore_def)

lemma after_insert_ids: "r_id ` set (after_insert_chunk_metadata c rs) \<subseteq> insert (c_id c) (r_id ` set rs)"
  "distinct (map r_id rs) \<Longrightarrow> distinct (map r_id (after_insert_chunk_metadata c rs))"
  using rtree_insert_ids unfolding after_insert_chunk_metadata_def Let_def
  by (metis (no_types, lifting) rtree_row.select_convs(1))+

lemma add_tile_ok:
  assumes ok: "db_ok d" and dense: "ids_dense d"
    and new: "\<not> (\<exists>c \<in> set (chunk_metadata d). tile_of c = tile_key ch)"
  shows "db_ok (add_tile d ch)" "ids_dense (add_tile d ch)" "chunk_agrees (add_tile d ch) ch (c_id (new_tile d ch))"
    "0 < c_id (new_tile d ch)" "c_id (new_tile d ch) \<le> int (length (chunk_metadata d)) + 1"
proof -
  have ids: "\<forall>i \<in> set (map c_id (chunk_metadata d)). 0 < i \<and> i \<le> int (length (chunk_metadata d))"
    using ok dense by (auto simp: db_ok_def ids_dense_def)
  note N = new_rowid_props [OF ids, simplified]
  have t: "tile_of (new_tile d ch) = tile_key ch" by (simp add: new_tile_def tile_of_def tile_key_def)
  have c: "c_id (new_tile d ch) = new_rowid (map c_id (chunk_metadata d))" by (simp add: new_tile_def)
  show "0 < c_id (new_tile d ch)" "c_id (new_tile d ch) \<le> int (length (chunk_metadata d)) + 1"
    unfolding c using N by simp_all
  show "ids_dense (add_tile d ch)" using dense N by (auto simp: ids_dense_def add_tile_def c)
  show "chunk_agrees (add_tile d ch) ch (c_id (new_tile d ch))" using t by (simp add: chunk_agrees_def add_tile_def)
  have "tile_of (new_tile d ch) \<notin> tile_of ` set (chunk_metadata d)" using new unfolding t by auto
  moreover have "c_id (new_tile d ch) \<notin> c_id ` set (chunk_metadata d)" unfolding c using N(2) by simp
  moreover have "r_id ` set (chunk_rtree (add_tile d ch)) \<subseteq> c_id ` set (chunk_metadata (add_tile d ch))"
  proof -
    have "r_id ` set (chunk_rtree d) \<subseteq> c_id ` set (chunk_metadata d)" using ok by (simp add: db_ok_def)
    then show ?thesis using after_insert_ids(1) [of "new_tile d ch" "chunk_rtree d"]
      by (simp add: add_tile_def) blast
  qed
  moreover have "distinct (map r_id (chunk_rtree (add_tile d ch)))"
    using ok after_insert_ids(2) [of "chunk_rtree d"] by (simp add: db_ok_def add_tile_def)
  ultimately show "db_ok (add_tile d ch)"
    using ok N(1) by (simp add: db_ok_def add_tile_def c)
qed

lemma same_tile_key: "same_tile (uint (level ch)) (chunk_x ch) (chunk_y ch) (chunk_z ch) c \<longleftrightarrow> tile_of c = tile_key ch"
  by (auto simp: same_tile_def tile_of_def tile_key_def)

lemma query_chunk_run:
  "run sql_query_chunk (bind_chunk ch) d =
    (map (\<lambda>c. [SqlInt (c_id c)]) (filter (\<lambda>c. tile_of c = tile_key ch) (chunk_metadata d)), d)"
  by (simp add: run_def sql_query_chunk_def params_def put_param_def bind_chunk_def tile_of_def tile_key_def
      eq_commute [of "uint _"] eq_commute [of "chunk_x _"] eq_commute [of "chunk_y _"] eq_commute [of "chunk_z _"])

lemma upsert_chunk_run:
  assumes "\<not> (\<exists>c \<in> set (chunk_metadata d). tile_of c = tile_key ch)"
  shows "run sql_upsert_chunk (bind_chunk ch) d = ([[SqlInt (c_id (new_tile d ch))]], add_tile d ch)"
  using assms
  by (simp add: run_def sql_upsert_chunk_def params_def put_param_def bind_chunk_def same_tile_key
      new_tile_def add_tile_def Let_def)

section \<open>The invariant of the class\<close>

definition sdb_ok :: "StreamSqliteDB \<Rightarrow> bool" where
  "sdb_ok s \<longleftrightarrow> ready s \<and> db_ok (db s) \<and> ids_dense (db s) \<and> lru_ok (chunk_cache s) \<and> lru_ok (aabb_cache s) \<and>
     memo.holds (chunk_agrees (db s)) (chunk_cache s)"

lemma sdb_okD:
  assumes "sdb_ok s"
  shows "ready s" "connected s" "\<not> read_only s" "db_ok (db s)" "ids_dense (db s)" "lru_ok (chunk_cache s)"
    "lru_ok (aabb_cache s)" "memo.holds (chunk_agrees (db s)) (chunk_cache s)"
  using assms by (simp_all add: sdb_ok_def)

lemma FindElem_new: "FindElem (lru_cache_new n) k = None"
  by (simp add: FindElem_def lru_cache_new_def cache_new_def)

lemma stmt_of_update [simp]: "select_stmt (s\<lparr>chunk_cache := cc\<rparr>) = select_stmt s"
  "write_stmt (s\<lparr>chunk_cache := cc\<rparr>) = write_stmt s" "select_stmt (s\<lparr>aabb_cache := ac\<rparr>) = select_stmt s"
  "write_stmt (s\<lparr>aabb_cache := ac\<rparr>) = write_stmt s"
  by (simp_all add: select_stmt_def write_stmt_def fun_eq_iff)

lemma sdb_ok_new: "sdb_ok (StreamSqliteDB_new True False None)"
  by (simp add: sdb_ok_def StreamSqliteDB_new_def update_info_def clear_and_create_table_def db_ok_def ids_dense_def
      memo.holds_def FindElem_new)

lemma chunk_agrees_unique:
  assumes "db_ok d" "chunk_agrees d ch k" "chunk_agrees d ch k'"
  shows "k = k'"
proof -
  have "inj_on tile_of (set (chunk_metadata d))" using assms(1) by (simp add: db_ok_def distinct_map)
  then show ?thesis using assms(2,3) unfolding chunk_agrees_def by (metis inj_onD)
qed

lemma query_chunk_hit:
  assumes ok: "sdb_ok s" and f: "FindElem (chunk_cache s) ch = Some k"
  shows "\<exists>s'. query_chunk ch s = Some (k, s') \<and> sdb_ok s' \<and> chunk_agrees (db s') ch k \<and> db s' = db s \<and>
    aabb_cache s' = aabb_cache s"
proof -
  note D = sdb_okD [OF ok]
  obtain cc where cc: "TryGet LRU_ops 0 (chunk_cache s) ch = Some (cc, k, True)" "lru_ok cc"
    "FindElem cc = FindElem (chunk_cache s)" using memo.try_get_hit [OF D(6) f] by blast
  then have "memo.holds (chunk_agrees (db s)) cc" using D(8) by (simp add: memo.holds_def)
  then show ?thesis using cc D memo.holdsD [OF D(8) f]
    by (intro exI [of _ "s\<lparr>chunk_cache := cc\<rparr>"]) (simp add: query_chunk_def sdb_ok_def)
qed

lemma query_chunk_miss:
  assumes ok: "sdb_ok s" and f: "FindElem (chunk_cache s) ch = None" and small: "length (chunk_metadata (db s)) < 2 ^ 31 - 1"
  shows "\<exists>k s'. query_chunk ch s = Some (k, s') \<and> sdb_ok s' \<and> chunk_agrees (db s') ch k \<and>
    db s' = (if \<exists>c \<in> set (chunk_metadata (db s)). tile_of c = tile_key ch then db s else add_tile (db s) ch) \<and>
    aabb_cache s' = aabb_cache s"
proof -
  note D = sdb_okD [OF ok]
  obtain cc where cc: "TryGet LRU_ops 0 (chunk_cache s) ch = Some (cc, 0, False)" "lru_ok cc"
    "FindElem cc = FindElem (chunk_cache s)" using memo.try_get_miss [OF D(6) f] by blast
  have int: "Stmt_get_int (row_view [SqlInt k] :: database Stmt) 0 = to_i32 k" for k
    by (simp add: accessors_column row_simps)
  have q: "query_first (\<lambda>st. Stmt_get_int st 0) (bind_chunk ch) (select_stmt s sql_query_chunk) (db s) =
    (case filter (\<lambda>c. tile_of c = tile_key ch) (chunk_metadata (db s)) of [] \<Rightarrow> None | c # cs \<Rightarrow> Some (to_i32 (c_id c)),
     select_stmt s sql_query_chunk, db s)"
    using D(2) by (simp add: select_stmt_def query_first_run [OF reads_int] query_chunk_run int split: list.split)
  show ?thesis
  proof (cases "\<exists>c \<in> set (chunk_metadata (db s)). tile_of c = tile_key ch")
    case True
    then have "filter (\<lambda>c. tile_of c = tile_key ch) (chunk_metadata (db s)) \<noteq> []"
      by (simp add: filter_empty_conv)
    then obtain c cs where c: "filter (\<lambda>c. tile_of c = tile_key ch) (chunk_metadata (db s)) = c # cs"
      by (meson neq_Nil_conv)
    then have "c \<in> set (filter (\<lambda>c. tile_of c = tile_key ch) (chunk_metadata (db s)))" by simp
    then have m: "c \<in> set (chunk_metadata (db s))" "tile_of c = tile_key ch" by simp_all
    have "0 < c_id c" "c_id c \<le> int (length (chunk_metadata (db s)))"
      using m D(4,5) by (auto simp: db_ok_def ids_dense_def)
    then have i: "to_i32 (c_id c) = c_id c" using small by (intro to_i32_id) auto
    have ag: "chunk_agrees (db s) ch (c_id c)" using m by (auto simp: chunk_agrees_def)
    have "memo.holds (chunk_agrees (db s)) cc" using D(8) cc(3) by (simp add: memo.holds_def)
    then obtain cc' where cc': "Put LRU_ops cc ch (c_id c) = Some cc'" "lru_ok cc'" "memo.holds (chunk_agrees (db s)) cc'"
      using memo.put_holds [OF cc(2), of "chunk_agrees (db s)" ch "c_id c"] ag by blast
    have "query_chunk ch s = Some (c_id c, s\<lparr>chunk_cache := cc'\<rparr>)"
      by (simp add: query_chunk_def cc(1) cc'(1) q c i)
    moreover have "sdb_ok (s\<lparr>chunk_cache := cc'\<rparr>)" using ok cc'(2,3) by (simp add: sdb_ok_def)
    ultimately show ?thesis using True ag by auto
  next
    case False
    let ?k = "c_id (new_tile (db s) ch)" and ?d = "add_tile (db s) ch"
    note N = add_tile_ok [OF D(4,5) False]
    have i: "to_i32 ?k = ?k" using N(4,5) small by (intro to_i32_id) auto
    have u: "query_first (\<lambda>st. Stmt_get_int st 0) (bind_chunk ch) (write_stmt s sql_upsert_chunk) (db s) =
      (Some ?k, write_stmt s sql_upsert_chunk, ?d)"
      using D(2,3) by (simp add: write_stmt_def query_first_run [OF reads_int] upsert_chunk_run [OF False] int i)
    have n: "filter (\<lambda>c. tile_of c = tile_key ch) (chunk_metadata (db s)) = []" using False by (simp add: filter_empty_conv)
    have "memo.holds (chunk_agrees ?d) cc"
      using D(8) cc(3) by (auto simp: memo.holds_def chunk_agrees_def add_tile_def)
    then obtain cc' where cc': "Put LRU_ops cc ch ?k = Some cc'" "lru_ok cc'" "memo.holds (chunk_agrees ?d) cc'"
      using memo.put_holds [OF cc(2), of "chunk_agrees ?d" ch ?k] N(3) by blast
    have "query_chunk ch s = Some (?k, s\<lparr>db := ?d, chunk_cache := cc'\<rparr>)"
      using D(3) by (simp add: query_chunk_def cc(1) cc'(1) q n u)
    moreover have "sdb_ok (s\<lparr>db := ?d, chunk_cache := cc'\<rparr>)" using ok cc'(2,3) N(1,2) by (simp add: sdb_ok_def)
    ultimately show ?thesis using False N(3) by auto
  qed
qed

lemma query_chunk_ok:
  assumes ok: "sdb_ok s" and small: "length (chunk_metadata (db s)) < 2 ^ 31 - 1"
  shows "\<exists>k s'. query_chunk ch s = Some (k, s') \<and> sdb_ok s' \<and> chunk_agrees (db s') ch k \<and>
    db s' = (if \<exists>c \<in> set (chunk_metadata (db s)). tile_of c = tile_key ch then db s else add_tile (db s) ch) \<and>
    aabb_cache s' = aabb_cache s"
proof (cases "FindElem (chunk_cache s) ch")
  case None
  then show ?thesis using query_chunk_miss [OF ok None small] by blast
next
  case (Some k)
  then have "chunk_agrees (db s) ch k" using memo.holdsD [OF sdb_okD(8) [OF ok]] by blast
  then have "\<exists>c \<in> set (chunk_metadata (db s)). tile_of c = tile_key ch" by (auto simp: chunk_agrees_def)
  then show ?thesis using query_chunk_hit [OF ok Some] by auto
qed
end
