(* ===== verification/StreamDbProps.thy ===== *)
theory StreamDbProps
  imports StreamDbInv
begin

text \<open>
  Properties of \<open>StreamSqliteDB\<close> as its caller sees them: the schema under any sequence of calls, the
  tile lookup, the upsert with its refusal of unknown parents, the removal of a whole subtree, and the
  box cache; and two runs that show where the answers go wrong.
\<close>

section \<open>Sequences of calls\<close>

datatype db_cmd = DUpsert uuid uuid | DRemove uuid | DSetBox uuid AABB | DGetBox uuid
  | DSetChunk uuid int | DChunk Chunk

fun db_step :: "db_cmd \<Rightarrow> StreamSqliteDB \<Rightarrow> StreamSqliteDB option" where
  "db_step (DUpsert u p) s = Some (upsert_object_uuids u (ObjectData_new\<lparr>parent_uuid := p\<rparr>) s)"
| "db_step (DRemove u) s = remove_object u s"
| "db_step (DSetBox u a) s = set_object_aabb u a s"
| "db_step (DGetBox u) s = map_option snd (get_object_aabb u s)"
| "db_step (DSetChunk u k) s = Some (set_object_chunk u k s)"
| "db_step (DChunk ch) s = map_option snd (query_chunk ch s)"

fun db_run :: "db_cmd list \<Rightarrow> StreamSqliteDB \<Rightarrow> StreamSqliteDB option" where
  "db_run [] s = Some s"
| "db_run (c # cs) s = Option.bind (db_step c s) (db_run cs)"

text \<open>Identifiers have 16 bytes in the program, by their type.\<close>

fun cmd_ok :: "db_cmd \<Rightarrow> bool" where
  "cmd_ok (DUpsert u p) = uuid_ok u"
| "cmd_ok _ = True"

lemma sdb_ok_db:
  assumes "sdb_ok s" "db_ok d" "chunk_metadata d = chunk_metadata (db s)"
  shows "sdb_ok (s\<lparr>db := d\<rparr>)"
  using assms by (auto simp: sdb_ok_def ids_dense_def memo.holds_def chunk_agrees_def)

lemma sdb_ok_aabb_cache: "sdb_ok s \<Longrightarrow> lru_ok ac \<Longrightarrow> sdb_ok (s\<lparr>aabb_cache := ac\<rparr>)"
  by (simp add: sdb_ok_def)

lemma upsert_effect: "sdb_ok s \<Longrightarrow> upsert_object_uuids u dt s = s\<lparr>db :=
    (if parent_uuid dt = uuid_nil \<or> parent_uuid dt = u \<or> parent_uuid dt \<in> uuids_of (object_uuid (db s))
     then (db s)\<lparr>object_uuid := upserted u (parent_opt (parent_uuid dt)) (object_uuid (db s))\<rparr> else db s)\<rparr>"
  using sdb_okD(1) [of s] by (simp add: upsert_object_uuids_def execute_ready upsert_run del: One_nat_def)

lemma upsert_sdb_ok: "sdb_ok s \<Longrightarrow> uuid_ok u \<Longrightarrow> sdb_ok (upsert_object_uuids u dt s)"
  using sdb_okD(4) [of s] by (auto simp: upsert_effect intro!: sdb_ok_db db_ok_upsert)

lemma set_chunk_effect: "sdb_ok s \<Longrightarrow> set_object_chunk u k s = s\<lparr>db :=
    (if k \<in> c_id ` set (chunk_metadata (db s))
     then (db s)\<lparr>object_uuid := map (\<lambda>ob. if row_uuid ob = u then ob\<lparr>row_chunk := Some k\<rparr> else ob) (object_uuid (db s))\<rparr>
     else db s)\<rparr>"
  using sdb_okD(1) [of s] by (simp add: set_object_chunk_def execute_ready set_object_chunk_run del: One_nat_def)

lemma set_chunk_sdb_ok: "sdb_ok s \<Longrightarrow> sdb_ok (set_object_chunk u k s)"
  using sdb_okD(4) [of s] by (auto simp: set_chunk_effect intro!: sdb_ok_db db_ok_set_chunk)

lemma remove_effect:
  assumes "sdb_ok s"
  obtains ac where "remove_object u s = Some (s\<lparr>db := (db s)\<lparr>object_uuid :=
      filter (\<lambda>ob. (u, row_uuid ob) \<notin> (parent_rel (object_uuid (db s)))\<^sup>*) (object_uuid (db s))\<rparr>, aabb_cache := ac\<rparr>)"
    "lru_ok ac" "FindElem ac = (FindElem (aabb_cache s))(u := None)"
proof -
  note D = sdb_okD [OF assms]
  obtain ac where ac: "Remove LRU_ops (aabb_cache s) u = Some (ac, FindElem (aabb_cache s) u \<noteq> None)" "lru_ok ac"
    "FindElem ac = (FindElem (aabb_cache s))(u := None)" using memo.remove_law [OF D(7), of u] by blast
  then show ?thesis using that D(1) delete_cascade_one [OF D(4), of u]
    by (simp add: remove_object_def execute_ready remove_object_run del: One_nat_def delete_cascade.simps)
qed

lemma set_aabb_effect:
  assumes "sdb_ok s"
  obtains ac where "set_object_aabb u a s = Some (s\<lparr>db := (db s)\<lparr>object_uuid :=
      map (\<lambda>ob. if row_uuid ob = u then put_box (int_box a) ob else ob) (object_uuid (db s))\<rparr>, aabb_cache := ac\<rparr>)"
    "lru_ok ac" "FindElem ac u = Some a"
    "\<forall>v w. v \<noteq> u \<longrightarrow> FindElem ac v = Some w \<longrightarrow> FindElem (aabb_cache s) v = Some w"
proof -
  note D = sdb_okD [OF assms]
  obtain ac where "Put LRU_ops (aabb_cache s) u a = Some ac" "lru_ok ac" "FindElem ac u = Some a"
    "\<And>v w. v \<noteq> u \<Longrightarrow> FindElem ac v = Some w \<Longrightarrow> FindElem (aabb_cache s) v = Some w"
    using memo.put_law [OF D(7), of u a] by blast
  then show ?thesis using that D(1)
    by (simp add: set_object_aabb_def execute_ready set_object_aabb_run del: One_nat_def)
qed

text \<open>The box that the columns of a row spell.\<close>

definition int_column :: "int option \<Rightarrow> int" where
  "int_column v = (case v of None \<Rightarrow> 0 | Some i \<Rightarrow> to_i32 i)"

definition box_of_row :: "object_row \<Rightarrow> AABB" where
  "box_of_row ob = (if row_minX ob = None then AABB_new
     else (let l = Vector3i (int_column (row_minX ob)) (int_column (row_minY ob)) (int_column (row_minZ ob));
               h = Vector3i (int_column (row_maxX ob)) (int_column (row_maxY ob)) (int_column (row_maxZ ob))
           in AABB (vector3_of l) (vector3_of (h - l))))"

lemma row_box_Some: "row_box ob = Some (l, h) \<longleftrightarrow>
    row_minX ob = Some (ix l) \<and> row_maxX ob = Some (ix h) \<and> row_minY ob = Some (iy l) \<and>
    row_maxY ob = Some (iy h) \<and> row_minZ ob = Some (iz l) \<and> row_maxZ ob = Some (iz h)"
  by (cases l; cases h) (auto simp: row_box_def split: option.splits)

lemma box_of_row_near:
  assumes "row_box ob = Some (l, h)" "near l" "near h"
  shows "box_of_row ob = box_of l h"
proof -
  have n: "to_i32 i = i" if "\<bar>i\<bar> \<le> 2 ^ 22" for i using that by (intro to_i32_id) auto
  have "int_column (row_minX ob) = ix l" "int_column (row_minY ob) = iy l" "int_column (row_minZ ob) = iz l"
    "int_column (row_maxX ob) = ix h" "int_column (row_maxY ob) = iy h" "int_column (row_maxZ ob) = iz h"
    "row_minX ob \<noteq> None"
    using assms by (simp_all add: row_box_Some int_column_def near_def n)
  then show ?thesis using box_of_corners [OF assms(2,3)] by (auto simp: box_of_row_def Let_def)
qed

lemma int_column_view: "(case sql_opt_int v of SqlInt i \<Rightarrow> to_i32 i | _ \<Rightarrow> 0) = int_column v"
  by (simp add: sql_opt_int_def int_column_def split: option.split)

lemma sql_opt_int_null: "sql_opt_int v = SqlNull \<longleftrightarrow> v = None"
  by (simp add: sql_opt_int_def split: option.split)

lemma read_box_view:
  "(if \<not> Stmt_is_null (row_view (box_columns ob) :: 'db Stmt) 0
    then Some (read_aabb_from_stmt (row_view (box_columns ob) :: 'db Stmt) 0) else None) =
   (if row_minX ob = None then None else Some (box_of_row ob))"
  by (simp add: accessors_column row_simps read_aabb_from_stmt_def box_columns_def box_of_row_def
      int_column_view sql_opt_int_null)

lemma read_child_view:
  assumes "row_uuid ob \<noteq> []"
  shows "(case Stmt_get_blob (row_view (SqlBlob (row_uuid ob) # box_columns ob) :: 'db Stmt) 0 of None \<Rightarrow> None
      | Some u \<Rightarrow> Some (u, if \<not> Stmt_is_null (row_view (SqlBlob (row_uuid ob) # box_columns ob) :: 'db Stmt) 1
          then read_aabb_from_stmt (row_view (SqlBlob (row_uuid ob) # box_columns ob) :: 'db Stmt) 1 else AABB_new)) =
   Some (row_uuid ob, box_of_row ob)"
  using assms by (simp add: accessors_column row_simps read_aabb_from_stmt_def box_columns_def box_of_row_def
      int_column_view sql_opt_int_null)

lemma map_filter_Some: "List.map_filter (\<lambda>r. r) (map (\<lambda>x. Some (h x)) xs) = map h xs"
  by (simp add: List.map_filter_def o_def)

lemma query_children_effect:
  assumes ok: "sdb_ok s" and u: "u \<noteq> []"
  shows "query_children_aabb u s =
    map (\<lambda>ob. (row_uuid ob, box_of_row ob)) (filter (\<lambda>ob. row_parent ob = Some u) (object_uuid (db s)))"
proof -
  note D = sdb_okD [OF ok]
  let ?rows = "filter (\<lambda>ob. row_parent ob = Some u) (object_uuid (db s))"
  have p: "row_parent ob \<noteq> None \<and> SqlBlob u = sql_opt_blob (row_parent ob) \<longleftrightarrow> row_parent ob = Some u" for ob
    by (auto simp: sql_opt_blob_def split: option.split)
  have "run sql_query_children_aabb [(1, SqlBlob u)] (db s) = (map (\<lambda>ob. SqlBlob (row_uuid ob) # box_columns ob) ?rows, db s)"
    by (simp add: run_def sql_query_children_aabb_def params_def put_param_def p del: not_None_eq)
  then have q: "query_rows (\<lambda>st. case Stmt_get_blob st 0 of None \<Rightarrow> None
          | Some child_uuid \<Rightarrow> Some (child_uuid, if \<not> Stmt_is_null st 1 then read_aabb_from_stmt st 1 else AABB_new))
      [(1, SqlBlob u)] (select_stmt s sql_query_children_aabb) (db s) =
    (map (\<lambda>ob. Some (row_uuid ob, box_of_row ob)) ?rows, select_stmt s sql_query_children_aabb, db s)"
    using D(2) db_okD(2) [OF D(4)]
    by (simp add: select_stmt_def query_rows_run [OF reads_child] read_child_view del: One_nat_def)
  show ?thesis unfolding query_children_aabb_def q Let_def prod.case map_filter_Some ..
qed

lemma get_aabb_effect:
  assumes ok: "sdb_ok s"
  obtains ac where "get_object_aabb u s = Some (case FindElem (aabb_cache s) u of Some a \<Rightarrow> a
      | None \<Rightarrow> (case filter (\<lambda>ob. row_uuid ob = u) (object_uuid (db s)) of ob # _ \<Rightarrow> box_of_row ob | [] \<Rightarrow> AABB_new),
      s\<lparr>aabb_cache := ac\<rparr>)" "lru_ok ac"
    "\<forall>v w. FindElem ac v = Some w \<longrightarrow> FindElem (aabb_cache s) v = Some w \<or> FindElem (aabb_cache s) u = None \<and> v = u \<and>
      w = (case filter (\<lambda>ob. row_uuid ob = u) (object_uuid (db s)) of ob # _ \<Rightarrow> box_of_row ob | [] \<Rightarrow> AABB_new)"
proof -
  note D = sdb_okD [OF ok]
  show ?thesis
  proof (cases "FindElem (aabb_cache s) u")
    case (Some a)
    then obtain ac where "TryGet LRU_ops AABB_new (aabb_cache s) u = Some (ac, a, True)" "lru_ok ac"
      "FindElem ac = FindElem (aabb_cache s)"
      using memo.try_get_hit [OF D(7) Some] by blast
    then show ?thesis by (intro that [of ac]) (simp_all add: get_object_aabb_def Some)
  next
    case None
    obtain ac where ac: "TryGet LRU_ops AABB_new (aabb_cache s) u = Some (ac, AABB_new, False)" "lru_ok ac"
      "FindElem ac = FindElem (aabb_cache s)" using memo.try_get_miss [OF D(7) None] by blast
    let ?rows = "filter (\<lambda>ob. row_uuid ob = u) (object_uuid (db s))"
    let ?a = "case ?rows of ob # _ \<Rightarrow> box_of_row ob | [] \<Rightarrow> AABB_new"
    obtain ac' where ac': "Put LRU_ops ac u ?a = Some ac'" "lru_ok ac'" "FindElem ac' u = Some ?a"
      "\<And>v w. v \<noteq> u \<Longrightarrow> FindElem ac' v = Some w \<Longrightarrow> FindElem ac v = Some w" using memo.put_law [OF ac(2), of u ?a] by blast
    have "run sql_get_object_aabb [(1, SqlBlob u)] (db s) = (map box_columns ?rows, db s)"
      by (simp add: run_def sql_get_object_aabb_def params_def put_param_def eq_commute [of u])
    then have "query_first (\<lambda>st. if \<not> Stmt_is_null st 0 then Some (read_aabb_from_stmt st 0) else None)
        [(1, SqlBlob u)] (select_stmt s sql_get_object_aabb) (db s) =
      (case ?rows of ob # _ \<Rightarrow> Some (if row_minX ob = None then None else Some (box_of_row ob)) | [] \<Rightarrow> None,
       select_stmt s sql_get_object_aabb, db s)"
      using D(2) by (simp add: select_stmt_def query_first_run [OF reads_box] read_box_view del: One_nat_def split: list.split)
    moreover have "(case (case ?rows of ob # _ \<Rightarrow> Some (if row_minX ob = None then None else Some (box_of_row ob)) | [] \<Rightarrow> None)
        of Some (Some a) \<Rightarrow> a | _ \<Rightarrow> AABB_new) = ?a"
      by (auto simp: box_of_row_def split: list.split)
    ultimately have "get_object_aabb u s = Some (?a, s\<lparr>aabb_cache := ac'\<rparr>)"
      using ac(1) ac'(1) by (simp add: get_object_aabb_def Let_def del: One_nat_def)
    moreover have "FindElem (aabb_cache s) v = Some w \<or> v = u \<and> w = ?a" if "FindElem ac' v = Some w" for v w
      using that ac'(3,4) ac(3) by (cases "v = u") auto
    ultimately show ?thesis by (intro that [of ac']) (simp_all add: None ac'(2))
  qed
qed

lemma get_aabb_sdb_ok:
  assumes "sdb_ok s" obtains a s' where "get_object_aabb u s = Some (a, s')" "sdb_ok s'" "db s' = db s"
proof -
  obtain a ac where "get_object_aabb u s = Some (a, s\<lparr>aabb_cache := ac\<rparr>)" "lru_ok ac"
    by (rule get_aabb_effect [OF assms, of u])
  then show ?thesis using that sdb_ok_aabb_cache [OF assms] by simp
qed

lemma remove_sdb_ok:
  assumes "sdb_ok s"
  obtains s' where "remove_object u s = Some s'" "sdb_ok s'" "chunk_metadata (db s') = chunk_metadata (db s)"
proof -
  obtain ac where "remove_object u s = Some (s\<lparr>db := (db s)\<lparr>object_uuid :=
      filter (\<lambda>ob. (u, row_uuid ob) \<notin> (parent_rel (object_uuid (db s)))\<^sup>*) (object_uuid (db s))\<rparr>, aabb_cache := ac\<rparr>)"
    "lru_ok ac" using remove_effect [OF assms] by blast
  moreover have "sdb_ok (s\<lparr>db := (db s)\<lparr>object_uuid := filter (\<lambda>ob. (u, row_uuid ob) \<notin>
      (parent_rel (object_uuid (db s)))\<^sup>*) (object_uuid (db s))\<rparr>\<rparr>)"
    using db_ok_remove [OF sdb_okD(4) [OF assms], of u] delete_cascade_one [OF sdb_okD(4) [OF assms], of u]
    by (intro sdb_ok_db [OF assms]) (simp_all del: delete_cascade.simps)
  ultimately show ?thesis using that sdb_ok_aabb_cache by simp
qed

lemma set_aabb_sdb_ok:
  assumes "sdb_ok s"
  obtains s' where "set_object_aabb u a s = Some s'" "sdb_ok s'" "chunk_metadata (db s') = chunk_metadata (db s)"
    "map (\<lambda>ob. (row_uuid ob, row_parent ob)) (object_uuid (db s')) = map (\<lambda>ob. (row_uuid ob, row_parent ob)) (object_uuid (db s))"
proof -
  obtain ac where "set_object_aabb u a s = Some (s\<lparr>db := (db s)\<lparr>object_uuid :=
      map (\<lambda>ob. if row_uuid ob = u then put_box (int_box a) ob else ob) (object_uuid (db s))\<rparr>, aabb_cache := ac\<rparr>)"
    "lru_ok ac" using set_aabb_effect [OF assms] by blast
  moreover have "sdb_ok (s\<lparr>db := (db s)\<lparr>object_uuid :=
      map (\<lambda>ob. if row_uuid ob = u then put_box (int_box a) ob else ob) (object_uuid (db s))\<rparr>\<rparr>)"
    by (intro sdb_ok_db [OF assms] db_ok_set_aabb sdb_okD(4) [OF assms]) simp
  ultimately show ?thesis using that sdb_ok_aabb_cache by auto
qed

lemma db_step_ok:
  assumes "sdb_ok s" "cmd_ok c" "length (chunk_metadata (db s)) < 2 ^ 31 - 1"
  shows "\<exists>s'. db_step c s = Some s' \<and> sdb_ok s' \<and>
    length (chunk_metadata (db s')) \<le> Suc (length (chunk_metadata (db s)))"
proof (cases c)
  case (DUpsert u p)
  have "sdb_ok (upsert_object_uuids u (ObjectData_new\<lparr>parent_uuid := p\<rparr>) s)"
    using upsert_sdb_ok [OF assms(1)] assms(2) DUpsert by simp
  moreover have "chunk_metadata (db (upsert_object_uuids u (ObjectData_new\<lparr>parent_uuid := p\<rparr>) s)) = chunk_metadata (db s)"
    by (simp add: upsert_effect [OF assms(1)])
  ultimately show ?thesis using DUpsert by simp
next
  case (DRemove u)
  obtain s' where "remove_object u s = Some s'" "sdb_ok s'" "chunk_metadata (db s') = chunk_metadata (db s)"
    using remove_sdb_ok [OF assms(1)] .
  then show ?thesis using DRemove by simp
next
  case (DSetBox u a)
  obtain s' where "set_object_aabb u a s = Some s'" "sdb_ok s'" "chunk_metadata (db s') = chunk_metadata (db s)"
    using set_aabb_sdb_ok [OF assms(1)] by blast
  then show ?thesis using DSetBox by simp
next
  case (DGetBox u)
  obtain a s' where "get_object_aabb u s = Some (a, s')" "sdb_ok s'" "db s' = db s"
    using get_aabb_sdb_ok [OF assms(1)] .
  then show ?thesis using DGetBox by simp
next
  case (DSetChunk u k)
  have "chunk_metadata (db (set_object_chunk u k s)) = chunk_metadata (db s)"
    by (simp add: set_chunk_effect [OF assms(1)])
  then show ?thesis using DSetChunk set_chunk_sdb_ok [OF assms(1), of u k] by simp
next
  case (DChunk ch)
  obtain k s' where "query_chunk ch s = Some (k, s')" "sdb_ok s'"
    "db s' = (if \<exists>c \<in> set (chunk_metadata (db s)). tile_of c = tile_key ch then db s else add_tile (db s) ch)"
    using query_chunk_ok [OF assms(1,3)] by blast
  then show ?thesis using DChunk by (auto simp: add_tile_def)
qed

lemma db_run_ok:
  "sdb_ok s \<Longrightarrow> list_all cmd_ok cs \<Longrightarrow> length (chunk_metadata (db s)) + length cs < 2 ^ 31 \<Longrightarrow>
   \<exists>s'. db_run cs s = Some s' \<and> sdb_ok s'"
proof (induction cs arbitrary: s)
  case (Cons c cs)
  then obtain s' where "db_step c s = Some s'" "sdb_ok s'"
    "length (chunk_metadata (db s')) \<le> Suc (length (chunk_metadata (db s)))"
    using db_step_ok [of s c] by auto
  then show ?case using Cons by simp
qed simp

text \<open>C27: The database under any use. On a fresh writable database every sequence of less than
  \<open>2 ^ 31\<close> calls runs to its end without meeting a missing iterator, and leaves the schema intact:
  identifiers unique, parents and tiles present, each tile once, and the tile cache in agreement with
  the table of tiles.\<close>

theorem database_invariant:
  assumes "list_all cmd_ok cs" "length cs < 2 ^ 31"
  shows "\<exists>s. db_run cs (StreamSqliteDB_new True False None) = Some s \<and> db_ok (db s) \<and>
    (\<forall>ch k. FindElem (chunk_cache s) ch = Some k \<longrightarrow> chunk_agrees (db s) ch k)"
proof -
  have "length (chunk_metadata (db (StreamSqliteDB_new True False None))) = 0"
    by (simp add: StreamSqliteDB_new_def update_info_def clear_and_create_table_def)
  then obtain s where s: "db_run cs (StreamSqliteDB_new True False None) = Some s" "sdb_ok s"
    using db_run_ok [OF sdb_ok_new assms(1)] assms(2) by auto
  then show ?thesis using sdb_okD(4,8) [OF s(2)] by (auto dest: memo.holdsD)
qed

theorem database_invariant_witness:
  "\<exists>s. db_run [DUpsert (replicate 16 1) uuid_nil, DUpsert (replicate 16 2) (replicate 16 1),
      DSetBox (replicate 16 2) AABB_new, DRemove (replicate 16 1)] (StreamSqliteDB_new True False None) = Some s \<and> db_ok (db s)"
  using database_invariant [of "[DUpsert (replicate 16 1) uuid_nil, DUpsert (replicate 16 2) (replicate 16 1),
      DSetBox (replicate 16 2) AABB_new, DRemove (replicate 16 1)]"] by (auto simp: uuid_ok_def simp del: db_run.simps)

text \<open>Tile lookup. \<open>query_chunk\<close> returns the id of the one row of \<open>chunk_metadata\<close> with the level
  and coordinates of the tile, from the cache, from the table or by inserting it; it inserts only when
  the tile is missing, and from then on every lookup of the tile returns the same id and inserts
  nothing.\<close>

theorem tile_lookup:
  assumes "sdb_ok s" "length (chunk_metadata (db s)) < 2 ^ 31 - 2"
  shows "\<exists>k s' s''. query_chunk ch s = Some (k, s') \<and> chunk_agrees (db s') ch k \<and>
    (chunk_metadata (db s') = chunk_metadata (db s) \<or>
      (\<forall>k. \<not> chunk_agrees (db s) ch k) \<and> chunk_metadata (db s') = chunk_metadata (db s) @ [new_tile (db s) ch]) \<and>
    query_chunk ch s' = Some (k, s'') \<and> db s'' = db s' \<and> sdb_ok s''"
proof -
  have l0: "length (chunk_metadata (db s)) < 2 ^ 31 - 1" using assms(2) by simp
  obtain k s' where q: "query_chunk ch s = Some (k, s')" "sdb_ok s'" "chunk_agrees (db s') ch k"
    "db s' = (if \<exists>c \<in> set (chunk_metadata (db s)). tile_of c = tile_key ch then db s else add_tile (db s) ch)"
    using query_chunk_ok [OF assms(1), of ch] l0 by blast
  have l: "length (chunk_metadata (db s')) < 2 ^ 31 - 1" using q(4) assms(2) by (simp add: add_tile_def split: if_splits)
  obtain k' s'' where q': "query_chunk ch s' = Some (k', s'')" "sdb_ok s''" "chunk_agrees (db s'') ch k'"
    "db s'' = (if \<exists>c \<in> set (chunk_metadata (db s')). tile_of c = tile_key ch then db s' else add_tile (db s') ch)"
    using query_chunk_ok [OF q(2) l] by blast
  have "\<exists>c \<in> set (chunk_metadata (db s')). tile_of c = tile_key ch" using q(3) by (auto simp: chunk_agrees_def)
  then have d: "db s'' = db s'" using q'(4) by simp
  then have "k' = k" using chunk_agrees_unique [OF sdb_okD(4) [OF q(2)]] q(3) q'(3) by simp
  moreover have "chunk_metadata (db s') = chunk_metadata (db s) \<or>
      (\<forall>k. \<not> chunk_agrees (db s) ch k) \<and> chunk_metadata (db s') = chunk_metadata (db s) @ [new_tile (db s) ch]"
    using q(4) by (auto simp: add_tile_def chunk_agrees_def)
  ultimately show ?thesis using q q' d by blast
qed

theorem tile_lookup_witness:
  "\<exists>k s' s''. query_chunk \<lparr>chunk_x = 4, chunk_y = 0, chunk_z = 0, level = 1\<rparr> (StreamSqliteDB_new True False None) = Some (k, s') \<and>
    query_chunk \<lparr>chunk_x = 4, chunk_y = 0, chunk_z = 0, level = 1\<rparr> s' = Some (k, s'') \<and> db s'' = db s'"
proof -
  have "length (chunk_metadata (db (StreamSqliteDB_new True False None))) < 2 ^ 31 - 2"
    by (simp add: StreamSqliteDB_new_def update_info_def clear_and_create_table_def)
  from tile_lookup [OF sdb_ok_new this] show ?thesis by blast
qed

section \<open>Upsert and removal\<close>

definition rows_of :: "uuid \<Rightarrow> StreamSqliteDB \<Rightarrow> object_row list" where
  "rows_of u s = filter (\<lambda>ob. row_uuid ob = u) (object_uuid (db s))"

lemma rows_of_cases:
  assumes "sdb_ok s"
  obtains "rows_of u s = []" "u \<notin> uuids_of (object_uuid (db s))"
  | ob where "rows_of u s = [ob]" "ob \<in> set (object_uuid (db s))" "row_uuid ob = u"
proof -
  have d: "distinct (map row_uuid (object_uuid (db s)))" using sdb_okD(4) [OF assms] by (simp add: db_ok_def)
  have d': "distinct (rows_of u s)" using d by (simp add: rows_of_def distinct_map)
  show ?thesis
  proof (cases "rows_of u s")
    case Nil
    then show ?thesis using that(1) by (auto simp: rows_of_def filter_empty_conv uuids_of_def)
  next
    case (Cons ob rs)
    have m: "x \<in> set (object_uuid (db s)) \<and> row_uuid x = u" if "x \<in> set (ob # rs)" for x
      using that unfolding Cons [symmetric] by (simp add: rows_of_def)
    have "x = ob" if "x \<in> set rs" for x using m [of x] m [of ob] that row_uuid_inj [OF d, of x ob] by simp
    then have "rs = []" using d' Cons by (cases rs) auto
    then show ?thesis using that(2) [of ob] m [of ob] Cons by simp
  qed
qed

lemma query_object_effect:
  assumes ok: "sdb_ok s"
  shows "query_object u s = (case rows_of u s of [] \<Rightarrow> ObjectData_new | ob # _ \<Rightarrow> row_data ob)"
proof -
  note D = sdb_okD [OF ok]
  have r: "run sql_query_object [(1, SqlBlob u)] (db s) = (map row_columns (rows_of u s), db s)"
    by (simp add: run_def sql_query_object_def params_def put_param_def rows_of_def eq_commute [of u])
  have "query_first (\<lambda>st. read_nullable_uuid st 2) [(1, SqlBlob u)] (select_stmt s sql_query_object) (db s) =
     (case map row_columns (rows_of u s) of [] \<Rightarrow> None | rw # _ \<Rightarrow> Some (read_nullable_uuid (row_view rw :: database Stmt) 2),
      select_stmt s sql_query_object, db s)"
    using D(2) by (simp add: select_stmt_def query_first_run [OF reads_nullable] r del: One_nat_def split: list.split)
  then have q: "query_object u s = (case map row_columns (rows_of u s) of [] \<Rightarrow> ObjectData_new
      | rw # _ \<Rightarrow> ObjectData_new\<lparr>parent_uuid := read_nullable_uuid (row_view rw :: database Stmt) 2\<rparr>)"
    by (simp add: query_object_def del: One_nat_def split: list.split)
  show ?thesis
  proof (cases rule: rows_of_cases [OF ok, of u])
    case 1
    then show ?thesis using q by simp
  next
    case (2 ob)
    have "read_nullable_uuid (row_view (row_columns ob) :: database Stmt) 2 = parent_uuid (row_data ob)"
      using db_okD [OF D(4) 2(2)]
      by (auto simp: accessors_column row_simps row_columns_def row_data_def read_nullable_uuid_def sql_opt_blob_def
          split: option.splits)
    then show ?thesis using q 2(1) by (simp add: row_data_def ObjectData_new_def)
  qed
qed

lemma filter_upserted:
  "filter (\<lambda>ob. row_uuid ob \<noteq> u) (upserted u p os) = filter (\<lambda>ob. row_uuid ob \<noteq> u) os"
  "filter (\<lambda>ob. row_uuid ob = u) (upserted u p os) = map (\<lambda>ob. ob\<lparr>row_parent := p\<rparr>)
     (if u \<in> uuids_of os then filter (\<lambda>ob. row_uuid ob = u) os else [blank_row u])"
proof -
  have m: "filter (\<lambda>ob. row_uuid ob \<noteq> u) (map (set_parent u p) os) = filter (\<lambda>ob. row_uuid ob \<noteq> u) os"
    "filter (\<lambda>ob. row_uuid ob = u) (map (set_parent u p) os) =
       map (\<lambda>ob. ob\<lparr>row_parent := p\<rparr>) (filter (\<lambda>ob. row_uuid ob = u) os)" for os
    by (induction os) (simp_all add: set_parent_def)
  have n: "filter (\<lambda>ob. row_uuid ob = u) os = []" if "u \<notin> uuids_of os"
    using that by (auto simp: filter_empty_conv uuids_of_def)
  show "filter (\<lambda>ob. row_uuid ob \<noteq> u) (upserted u p os) = filter (\<lambda>ob. row_uuid ob \<noteq> u) os"
    by (simp add: upserted_def m)
  show "filter (\<lambda>ob. row_uuid ob = u) (upserted u p os) = map (\<lambda>ob. ob\<lparr>row_parent := p\<rparr>)
     (if u \<in> uuids_of os then filter (\<lambda>ob. row_uuid ob = u) os else [blank_row u])"
    using n by (simp add: upserted_def m set_parent_def)
qed

lemma upsert_rows:
  assumes "sdb_ok s" "uuid_ok u"
  shows "let s' = upsert_object_uuids u dt s; p = parent_uuid dt in
    if p = uuid_nil \<or> p = u \<or> p \<in> uuids_of (object_uuid (db s))
    then query_object u s' = ObjectData_new\<lparr>parent_uuid := p\<rparr> \<and>
      rows_of u s' = [(case rows_of u s of [] \<Rightarrow> blank_row u | ob # _ \<Rightarrow> ob)\<lparr>row_parent := parent_opt p\<rparr>] \<and>
      (\<forall>v. v \<noteq> u \<longrightarrow> rows_of v s' = rows_of v s)
    else s' = s"
proof (cases "parent_uuid dt = uuid_nil \<or> parent_uuid dt = u \<or> parent_uuid dt \<in> uuids_of (object_uuid (db s))")
  case False
  then show ?thesis by (simp add: upsert_effect [OF assms(1)] Let_def)
next
  case True
  let ?s = "upsert_object_uuids u dt s"
  have os: "object_uuid (db ?s) = upserted u (parent_opt (parent_uuid dt)) (object_uuid (db s))"
    using True by (simp add: upsert_effect [OF assms(1)])
  have r: "rows_of u ?s = [(case rows_of u s of [] \<Rightarrow> blank_row u | ob # _ \<Rightarrow> ob)\<lparr>row_parent := parent_opt (parent_uuid dt)\<rparr>]"
    unfolding rows_of_def os filter_upserted
    by (cases rule: rows_of_cases [OF assms(1), of u]) (auto simp: rows_of_def uuids_of_def)
  have q: "query_object u ?s = ObjectData_new\<lparr>parent_uuid := parent_uuid dt\<rparr>"
    by (simp add: query_object_effect [OF upsert_sdb_ok [OF assms]] r row_data_def ObjectData_new_def parent_opt_def)
  have f: "filter (\<lambda>ob. row_uuid ob = v) os = filter (\<lambda>ob. row_uuid ob = v) (filter (\<lambda>ob. row_uuid ob \<noteq> u) os)"
    if "v \<noteq> u" for v os using that by (simp cong: conj_cong) (metis (mono_tags, lifting))
  have "rows_of v ?s = rows_of v s" if "v \<noteq> u" for v
    unfolding rows_of_def os
    by (rule trans [OF f [OF that]], subst filter_upserted(1), rule f [OF that, symmetric])
  then show ?thesis unfolding Let_def if_P [OF True] using q r by blast
qed

text \<open>C29: Upsert. Writing an object whose parent is nil, itself or an object of the database makes its
  row, or changes the parent of the row it has and neither its tile nor its box; the other rows stay;
  a query of the object then returns the parent that was written. With any other parent the foreign
  key refuses the statement, and, its result being ignored, the call does nothing.\<close>

theorem upsert_then_query:
  assumes "sdb_ok s" "uuid_ok u"
  shows "let s' = upsert_object_uuids u dt s; p = parent_uuid dt in
    if p = uuid_nil \<or> p = u \<or> p \<in> uuids_of (object_uuid (db s))
    then query_object u s' = ObjectData_new\<lparr>parent_uuid := p\<rparr> \<and>
      rows_of u s' = [(case rows_of u s of [] \<Rightarrow> blank_row u | ob # _ \<Rightarrow> ob)\<lparr>row_parent := parent_opt p\<rparr>] \<and>
      (\<forall>v. v \<noteq> u \<longrightarrow> rows_of v s' = rows_of v s)
    else s' = s"
  by (rule upsert_rows [OF assms])

theorem upsert_then_query_witness:
  "query_object (replicate 16 1) (upsert_object_uuids (replicate 16 1) ObjectData_new (StreamSqliteDB_new True False None))
    = ObjectData_new"
  using upsert_then_query [OF sdb_ok_new, of "replicate 16 1" ObjectData_new]
  by (simp add: uuid_ok_def ObjectData_new_def Let_def)

lemma remove_subtree:
  assumes "sdb_ok s"
  shows "\<exists>s'. remove_object u s = Some s' \<and> sdb_ok s' \<and>
    (\<forall>v. rows_of v s' = (if (u, v) \<in> (parent_rel (object_uuid (db s)))\<^sup>* then [] else rows_of v s)) \<and>
    FindElem (aabb_cache s') = (FindElem (aabb_cache s))(u := None)"
proof -
  obtain ac where ac: "remove_object u s = Some (s\<lparr>db := (db s)\<lparr>object_uuid :=
      filter (\<lambda>ob. (u, row_uuid ob) \<notin> (parent_rel (object_uuid (db s)))\<^sup>*) (object_uuid (db s))\<rparr>, aabb_cache := ac\<rparr>)"
    "lru_ok ac" "FindElem ac = (FindElem (aabb_cache s))(u := None)" using remove_effect [OF assms] by blast
  obtain s' where s': "remove_object u s = Some s'" "sdb_ok s'"
  proof -
    have "sdb_ok (s\<lparr>db := (db s)\<lparr>object_uuid := filter (\<lambda>ob. (u, row_uuid ob) \<notin>
        (parent_rel (object_uuid (db s)))\<^sup>*) (object_uuid (db s))\<rparr>\<rparr>)"
      using db_ok_remove [OF sdb_okD(4) [OF assms], of u] delete_cascade_one [OF sdb_okD(4) [OF assms], of u]
      by (intro sdb_ok_db [OF assms]) (simp_all del: delete_cascade.simps)
    then show ?thesis using that ac(1) sdb_ok_aabb_cache [OF _ ac(2)] by simp
  qed
  have "rows_of v s' = (if (u, v) \<in> (parent_rel (object_uuid (db s)))\<^sup>* then [] else rows_of v s)" for v
  proof (cases "(u, v) \<in> (parent_rel (object_uuid (db s)))\<^sup>*")
    case True
    then show ?thesis using ac(1) s'(1) by (auto simp: rows_of_def filter_empty_conv)
  next
    case False
    then show ?thesis using ac(1) s'(1) by (auto simp: rows_of_def intro: filter_cong)
  qed
  then show ?thesis using s' ac by auto
qed

text \<open>C30: Removal. Removing an object deletes its row and the rows of everything below it in the
  parent relation, and no other row; the rest keeps the schema; and the cached box of the object, of
  no descendant, is forgotten.\<close>

theorem remove_object_subtree:
  assumes "sdb_ok s"
  shows "\<exists>s'. remove_object u s = Some s' \<and> sdb_ok s' \<and>
    (\<forall>v. rows_of v s' = (if (u, v) \<in> (parent_rel (object_uuid (db s)))\<^sup>* then [] else rows_of v s)) \<and>
    FindElem (aabb_cache s') = (FindElem (aabb_cache s))(u := None)"
  by (rule remove_subtree [OF assms])

theorem remove_object_subtree_witness:
  "\<exists>s'. remove_object (replicate 16 1) (upsert_object_uuids (replicate 16 1) ObjectData_new (StreamSqliteDB_new True False None)) = Some s' \<and>
    rows_of (replicate 16 1) s' = []"
proof -
  have "sdb_ok (upsert_object_uuids (replicate 16 1) ObjectData_new (StreamSqliteDB_new True False None))"
    by (rule upsert_sdb_ok [OF sdb_ok_new]) (simp add: uuid_ok_def)
  from remove_object_subtree [OF this, of "replicate 16 1"] show ?thesis by (metis rtrancl.rtrancl_refl)
qed
end
