(* ===== verification/StreamDbBoxes.thy ===== *)
theory StreamDbBoxes
  imports StreamDbProps
begin

text \<open>
  Boxes in the database: the cache of boxes in front of the table, and the spatial index behind the
  queries. The trigger keeps the index equal to the table of tiles; an object is found by the boxes
  that meet its tile. Two concrete runs show where that is not what the caller wants: a removal leaves
  the cached boxes of descendants behind, and a box that ends beyond its tile is missed there.
\<close>

section \<open>The cache of boxes\<close>

definition stored_box :: "uuid \<Rightarrow> StreamSqliteDB \<Rightarrow> AABB" where
  "stored_box u s = (case rows_of u s of ob # _ \<Rightarrow> box_of_row ob | [] \<Rightarrow> AABB_new)"

definition boxes_coherent :: "StreamSqliteDB \<Rightarrow> bool" where
  "boxes_coherent s \<longleftrightarrow> memo.holds (\<lambda>u a. a = stored_box u s) (aabb_cache s)"

text \<open>What a call must not do: give a box to a missing object, give it corners that the integer columns
  do not hold, or remove an object with children.\<close>

fun careful :: "db_cmd \<Rightarrow> StreamSqliteDB \<Rightarrow> bool" where
  "careful (DSetBox u a) s \<longleftrightarrow> u \<in> uuids_of (object_uuid (db s)) \<and> (\<exists>l h. near l \<and> near h \<and> a = box_of l h)"
| "careful (DRemove u) s \<longleftrightarrow> (\<forall>ob \<in> set (object_uuid (db s)). row_parent ob \<noteq> Some u)"
| "careful c s = cmd_ok c"

lemma get_coherent:
  assumes "sdb_ok s" "boxes_coherent s"
  shows "\<exists>s'. get_object_aabb u s = Some (stored_box u s, s') \<and> sdb_ok s' \<and> boxes_coherent s' \<and> db s' = db s"
proof -
  obtain ac where ac: "get_object_aabb u s = Some (case FindElem (aabb_cache s) u of Some a \<Rightarrow> a
      | None \<Rightarrow> stored_box u s, s\<lparr>aabb_cache := ac\<rparr>)" "lru_ok ac"
    "\<forall>v w. FindElem ac v = Some w \<longrightarrow> FindElem (aabb_cache s) v = Some w \<or> FindElem (aabb_cache s) u = None \<and> v = u \<and> w = stored_box u s"
    by (rule get_aabb_effect [OF assms(1), of u, folded rows_of_def stored_box_def])
  have "(case FindElem (aabb_cache s) u of Some a \<Rightarrow> a | None \<Rightarrow> stored_box u s) = stored_box u s"
    using assms(2) by (auto simp: boxes_coherent_def memo.holds_def split: option.split)
  moreover have "boxes_coherent (s\<lparr>aabb_cache := ac\<rparr>)"
    using assms(2) ac(3) by (auto simp: boxes_coherent_def memo.holds_def stored_box_def rows_of_def)
  ultimately show ?thesis using ac(1,2) sdb_ok_aabb_cache [OF assms(1)] by auto
qed

lemma coherentI:
  assumes "boxes_coherent s" "\<And>v w. FindElem (aabb_cache s') v = Some w \<Longrightarrow> FindElem (aabb_cache s) v = Some w"
    "\<And>v. stored_box v s' = stored_box v s"
  shows "boxes_coherent s'"
  using assms by (simp add: boxes_coherent_def memo.holds_def)

lemma box_of_blank [simp]: "box_of_row (blank_row u) = AABB_new"
  by (simp add: box_of_row_def blank_row_def)

lemma box_of_row_fields [simp]: "box_of_row (ob\<lparr>row_parent := p\<rparr>) = box_of_row ob"
  "box_of_row (ob\<lparr>row_chunk := k\<rparr>) = box_of_row ob"
  by (simp_all add: box_of_row_def)

lemma stored_box_map:
  assumes "object_uuid (db s') = map f (object_uuid (db s))" "\<And>ob. row_uuid (f ob) = row_uuid ob"
    "\<And>ob. box_of_row (f ob) = box_of_row ob"
  shows "stored_box v s' = stored_box v s"
proof -
  have "rows_of v s' = map f (rows_of v s)" using assms(1,2) by (simp add: rows_of_def filter_map o_def)
  then show ?thesis using assms(3) by (simp add: stored_box_def split: list.split)
qed

lemma stored_box_upsert:
  assumes "sdb_ok s" "uuid_ok u"
  shows "stored_box v (upsert_object_uuids u dt s) = stored_box v s"
proof (cases "upsert_object_uuids u dt s = s")
  case False
  then have r: "rows_of u (upsert_object_uuids u dt s) =
      [(case rows_of u s of [] \<Rightarrow> blank_row u | ob # _ \<Rightarrow> ob)\<lparr>row_parent := parent_opt (parent_uuid dt)\<rparr>]"
    "v \<noteq> u \<Longrightarrow> rows_of v (upsert_object_uuids u dt s) = rows_of v s"
    using upsert_rows [OF assms, of dt] by (auto simp: Let_def split: if_splits)
  then show ?thesis by (cases "v = u") (auto simp: stored_box_def split: list.split)
qed simp

lemma set_coherent:
  assumes "sdb_ok s" "boxes_coherent s" "u \<in> uuids_of (object_uuid (db s))" "near l" "near h"
  shows "\<exists>s'. set_object_aabb u (box_of l h) s = Some s' \<and> boxes_coherent s' \<and> stored_box u s' = box_of l h"
proof -
  let ?f = "\<lambda>ob. if row_uuid ob = u then put_box (int_box (box_of l h)) ob else ob"
  obtain ac where ac: "set_object_aabb u (box_of l h) s = Some (s\<lparr>db := (db s)\<lparr>object_uuid := map ?f (object_uuid (db s))\<rparr>, aabb_cache := ac\<rparr>)"
    "lru_ok ac" "FindElem ac u = Some (box_of l h)" "\<forall>v w. v \<noteq> u \<longrightarrow> FindElem ac v = Some w \<longrightarrow> FindElem (aabb_cache s) v = Some w"
    by (rule set_aabb_effect [OF assms(1), of u "box_of l h"])
  define s' where "s' = s\<lparr>db := (db s)\<lparr>object_uuid := map ?f (object_uuid (db s))\<rparr>, aabb_cache := ac\<rparr>"
  have r: "rows_of v s' = map ?f (rows_of v s)" for v
    unfolding rows_of_def s'_def by (simp add: filter_map o_def) (rule arg_cong [where f = "map ?f"], auto intro: filter_cong)
  obtain ob where "rows_of u s = [ob]" "row_uuid ob = u"
    using assms(3) by (cases rule: rows_of_cases [OF assms(1), of u]) auto
  moreover have "box_of_row (put_box (int_box (box_of l h)) ob) = box_of l h"
    by (rule box_of_row_near [OF _ assms(4,5)])
      (simp add: int_box_def get_end_box assms(4,5) vector3i_of_vector, simp add: box_of_def vector3i_of_vector assms)
  ultimately have u: "stored_box u s' = box_of l h" by (simp add: stored_box_def r)
  have other: "rows_of v s' = rows_of v s" if "v \<noteq> u" for v
    unfolding r by (rule map_idI) (use that in \<open>auto simp: rows_of_def\<close>)
  then have "boxes_coherent s'"
    unfolding boxes_coherent_def memo.holds_def
  proof (intro allI impI)
    fix v w
    assume w: "FindElem (aabb_cache s') v = Some w"
    then have "FindElem ac v = Some w" by (simp add: s'_def)
    then show "w = stored_box v s'"
      using ac(3) ac(4) assms(2) u other [of v]
      by (cases "v = u") (simp_all add: boxes_coherent_def memo.holds_def stored_box_def)
  qed
  then show ?thesis using ac(1) u s'_def by blast
qed

lemma remove_coherent:
  assumes "sdb_ok s" "boxes_coherent s" "\<forall>ob \<in> set (object_uuid (db s)). row_parent ob \<noteq> Some u"
  shows "\<exists>s'. remove_object u s = Some s' \<and> boxes_coherent s'"
proof -
  obtain s' where s': "remove_object u s = Some s'"
    "\<forall>v. rows_of v s' = (if (u, v) \<in> (parent_rel (object_uuid (db s)))\<^sup>* then [] else rows_of v s)"
    "FindElem (aabb_cache s') = (FindElem (aabb_cache s))(u := None)"
    using remove_subtree [OF assms(1), of u] by blast
  have "v = u" if "(u, v) \<in> (parent_rel (object_uuid (db s)))\<^sup>*" for v
    using that assms(3) by (cases rule: converse_rtranclE) (auto simp: parent_rel_def)
  then have "stored_box v s' = stored_box v s" if "v \<noteq> u" for v using that s'(2) by (auto simp: stored_box_def)
  then have "boxes_coherent s'" using assms(2) s'(3) by (auto simp: boxes_coherent_def memo.holds_def split: if_splits)
  then show ?thesis using s'(1) by blast
qed

lemma step_coherent:
  assumes "sdb_ok s" "boxes_coherent s" "careful c s" "length (chunk_metadata (db s)) < 2 ^ 31 - 1"
  shows "\<exists>s'. db_step c s = Some s' \<and> boxes_coherent s'"
proof (cases c)
  case (DUpsert u p)
  let ?d = "ObjectData_new\<lparr>parent_uuid := p\<rparr>"
  have "aabb_cache (upsert_object_uuids u ?d s) = aabb_cache s" by (simp add: upsert_effect [OF assms(1)])
  then have "boxes_coherent (upsert_object_uuids u ?d s)"
    using stored_box_upsert [OF assms(1), of u _ ?d] assms(3) DUpsert by (intro coherentI [OF assms(2)]) auto
  then show ?thesis using DUpsert by simp
next
  case (DRemove u)
  then show ?thesis using remove_coherent [OF assms(1,2)] assms(3) by simp
next
  case (DSetBox u a)
  then obtain l h where "u \<in> uuids_of (object_uuid (db s))" "near l" "near h" "a = box_of l h" using assms(3) by auto
  then show ?thesis using DSetBox set_coherent [OF assms(1,2)] by fastforce
next
  case (DGetBox u)
  then show ?thesis using get_coherent [OF assms(1,2), of u] by auto
next
  case (DSetChunk u k)
  have "stored_box v (set_object_chunk u k s) = stored_box v s" for v
  proof (cases "k \<in> c_id ` set (chunk_metadata (db s))")
    case True
    then show ?thesis
      by (intro stored_box_map [where f = "\<lambda>ob. if row_uuid ob = u then ob\<lparr>row_chunk := Some k\<rparr> else ob"])
        (simp_all add: set_chunk_effect [OF assms(1)])
  qed (simp add: set_chunk_effect [OF assms(1)])
  moreover have "aabb_cache (set_object_chunk u k s) = aabb_cache s" by (simp add: set_chunk_effect [OF assms(1)])
  ultimately have "boxes_coherent (set_object_chunk u k s)" by (intro coherentI [OF assms(2)]) auto
  then show ?thesis using DSetChunk by simp
next
  case (DChunk ch)
  obtain k s' where q: "query_chunk ch s = Some (k, s')" "aabb_cache s' = aabb_cache s"
    "db s' = (if \<exists>c \<in> set (chunk_metadata (db s)). tile_of c = tile_key ch then db s else add_tile (db s) ch)"
    using query_chunk_ok [OF assms(1,4), of ch] by blast
  have "boxes_coherent s'"
    by (rule coherentI [OF assms(2)]) (use q(2,3) in \<open>auto simp: stored_box_def rows_of_def add_tile_def\<close>)
  then show ?thesis using DChunk q(1) by simp
qed

fun careful_run :: "db_cmd list \<Rightarrow> StreamSqliteDB \<Rightarrow> bool" where
  "careful_run [] s \<longleftrightarrow> True"
| "careful_run (c # cs) s \<longleftrightarrow> careful c s \<and> (case db_step c s of None \<Rightarrow> True | Some s' \<Rightarrow> careful_run cs s')"

lemma careful_cmd_ok: "careful c s \<Longrightarrow> cmd_ok c"
  by (cases c) auto

lemma run_coherent:
  "sdb_ok s \<Longrightarrow> boxes_coherent s \<Longrightarrow> careful_run cs s \<Longrightarrow> length (chunk_metadata (db s)) + length cs < 2 ^ 31 \<Longrightarrow>
   \<exists>s'. db_run cs s = Some s' \<and> sdb_ok s' \<and> boxes_coherent s'"
proof (induction cs arbitrary: s)
  case (Cons c cs)
  have l: "length (chunk_metadata (db s)) < 2 ^ 31 - 1" using Cons.prems(4) by simp
  have c: "careful c s" using Cons.prems(3) by simp
  obtain s' where s': "db_step c s = Some s'" "sdb_ok s'" "length (chunk_metadata (db s')) \<le> Suc (length (chunk_metadata (db s)))"
    using db_step_ok [OF Cons.prems(1) careful_cmd_ok [OF c] l] by blast
  have "boxes_coherent s'" using step_coherent [OF Cons.prems(1,2) c l] s'(1) by auto
  moreover have "careful_run cs s'" using Cons.prems(3) s'(1) by simp
  moreover have "length (chunk_metadata (db s')) + length cs < 2 ^ 31" using s'(3) Cons.prems(4) by simp
  ultimately show ?case using Cons.IH [OF s'(2)] s'(1) by simp
qed simp

lemma boxes_coherent_new: "boxes_coherent (StreamSqliteDB_new True False None)"
  by (simp add: boxes_coherent_def memo.holds_def StreamSqliteDB_new_def FindElem_new)

text \<open>C32: The cache of boxes. As long as boxes are set on existing objects, have integer corners near
  the origin, and only objects without children are removed, \<open>get_object_aabb\<close> answers after any
  sequence of calls with the box of the row of the object, or the empty box when there is none,
  whether the cache holds it or not.\<close>

theorem box_cache_coherent:
  assumes "careful_run cs (StreamSqliteDB_new True False None)" "length cs < 2 ^ 31"
  shows "\<exists>s s'. db_run cs (StreamSqliteDB_new True False None) = Some s \<and>
    get_object_aabb u s = Some (stored_box u s, s') \<and> db s' = db s"
proof -
  have "length (chunk_metadata (db (StreamSqliteDB_new True False None))) = 0"
    by (simp add: StreamSqliteDB_new_def update_info_def clear_and_create_table_def)
  then obtain s where "db_run cs (StreamSqliteDB_new True False None) = Some s" "sdb_ok s" "boxes_coherent s"
    using run_coherent [OF sdb_ok_new boxes_coherent_new assms(1)] assms(2) by auto
  then show ?thesis using get_coherent [of s u] by blast
qed

theorem box_cache_coherent_witness:
  "\<exists>s s'. db_run [DUpsert (replicate 16 1) uuid_nil, DSetBox (replicate 16 1) (box_of (Vector3i 1 2 3) (Vector3i 4 5 6))]
      (StreamSqliteDB_new True False None) = Some s \<and>
    get_object_aabb (replicate 16 1) s = Some (stored_box (replicate 16 1) s, s')"
proof -
  have "near (Vector3i 1 2 3)" "near (Vector3i 4 5 6)" by (simp_all add: near_def)
  then have "\<exists>l h. near l \<and> near h \<and> box_of (Vector3i 1 2 3) (Vector3i 4 5 6) = box_of l h" by blast
  moreover have "replicate 16 1 \<in> uuids_of (object_uuid (db
      (upsert_object_uuids (replicate 16 1) (ObjectData_new\<lparr>parent_uuid := uuid_nil\<rparr>) (StreamSqliteDB_new True False None))))"
    by (simp add: upsert_effect [OF sdb_ok_new] uuids_upserted)
  ultimately have "careful_run [DUpsert (replicate 16 1) uuid_nil, DSetBox (replicate 16 1)
      (box_of (Vector3i 1 2 3) (Vector3i 4 5 6))] (StreamSqliteDB_new True False None)"
    by (simp add: uuid_ok_def split: option.split)
  from box_cache_coherent [OF this, of "replicate 16 1"] show ?thesis by auto
qed

definition stale_run :: "db_cmd list" where
  "stale_run = [DUpsert (replicate 16 1) uuid_nil, DUpsert (replicate 16 2) (replicate 16 1),
     DSetBox (replicate 16 2) (AABB (Vector3 1 2 3) (Vector3 1 1 1)), DRemove (replicate 16 1),
     DUpsert (replicate 16 2) uuid_nil]"

text \<open>Stale boxes. Without that care the cache lies: an object with a box, removed through its parent
  and written again, has no box in the table, and \<open>get_object_aabb\<close> still returns the old one.\<close>

theorem stale_box_after_cascade:
  "\<exists>s s'. db_run stale_run (StreamSqliteDB_new True False None) = Some s \<and>
    map row_minX (rows_of (replicate 16 2) s) = [None] \<and>
    get_object_aabb (replicate 16 2) s = Some (AABB (Vector3 1 2 3) (Vector3 1 1 1), s')"
proof -
  let ?r = "db_run stale_run (StreamSqliteDB_new True False None)"
  have "(case ?r of None \<Rightarrow> False | Some s \<Rightarrow> map row_minX (rows_of (replicate 16 2) s) = [None] \<and>
    (case get_object_aabb (replicate 16 2) s of None \<Rightarrow> False | Some (a, s') \<Rightarrow> a = AABB (Vector3 1 2 3) (Vector3 1 1 1)))"
    by code_simp
  then show ?thesis by (auto split: option.splits)
qed

section \<open>The spatial index\<close>

text \<open>The entry the trigger computes for a tile, and the equality of index and table of tiles.\<close>

definition tile_entry :: "chunk_row \<Rightarrow> rtree_row" where
  "tile_entry c = (let e = sql_shift_left_1 (2 * c_level c)
     in \<lparr>r_id = c_id c, r_minX = to_i32 (c_x c), r_maxX = to_i32 (c_x c + e),
         r_minY = to_i32 (c_y c), r_maxY = to_i32 (c_y c + e), r_minZ = to_i32 (c_z c), r_maxZ = to_i32 (c_z c + e)\<rparr>)"

definition entry_ok :: "rtree_row \<Rightarrow> bool" where
  "entry_ok r \<longleftrightarrow> r_minX r \<le> r_maxX r \<and> r_minY r \<le> r_maxY r \<and> r_minZ r \<le> r_maxZ r"

definition index_exact :: "database \<Rightarrow> bool" where
  "index_exact d \<longleftrightarrow> set (chunk_rtree d) = tile_entry ` {c \<in> set (chunk_metadata d). entry_ok (tile_entry c)}"

lemma index_add_tile:
  assumes "db_ok d" "ids_dense d" "index_exact d" "\<not> (\<exists>c \<in> set (chunk_metadata d). tile_of c = tile_key ch)"
  shows "index_exact (add_tile d ch)"
proof -
  let ?c = "new_tile d ch"
  have "0 < c_id c \<and> c_id c \<le> int (length (chunk_metadata d))" if "c \<in> set (chunk_metadata d)" for c
    using that assms(1,2) by (auto simp: db_ok_def ids_dense_def)
  then have "c_id ?c \<notin> c_id ` set (chunk_metadata d)"
    using new_rowid_props(2) [of "map c_id (chunk_metadata d)" "int (length (chunk_metadata d))"] by (simp add: new_tile_def)
  then have n: "r_id (tile_entry ?c) \<notin> r_id ` set (chunk_rtree d)"
    using assms(1) by (auto simp: db_ok_def tile_entry_def Let_def)
  have "after_insert_chunk_metadata ?c (chunk_rtree d) = rtree_insert_or_ignore (tile_entry ?c) (chunk_rtree d)"
    by (simp add: after_insert_chunk_metadata_def tile_entry_def Let_def)
  also have "\<dots> = (if entry_ok (tile_entry ?c) then chunk_rtree d @ [tile_entry ?c] else chunk_rtree d)"
    using n by (auto simp: rtree_insert_or_ignore_def entry_ok_def)
  finally show ?thesis using assms(3) by (auto simp: index_exact_def add_tile_def)
qed

lemma index_step:
  assumes "sdb_ok s" "index_exact (db s)" "length (chunk_metadata (db s)) < 2 ^ 31 - 1" "db_step c s = Some s'"
  shows "index_exact (db s')"
proof -
  have same: "index_exact d" if "chunk_metadata d = chunk_metadata (db s)" "chunk_rtree d = chunk_rtree (db s)" for d
    using that assms(2) by (simp add: index_exact_def)
  show ?thesis
  proof (cases c)
    case (DUpsert u p)
    then show ?thesis using assms(4) by (auto simp: upsert_effect [OF assms(1)] intro!: same)
  next
    case (DRemove u)
    obtain ac where "remove_object u s = Some (s\<lparr>db := (db s)\<lparr>object_uuid :=
        filter (\<lambda>ob. (u, row_uuid ob) \<notin> (parent_rel (object_uuid (db s)))\<^sup>*) (object_uuid (db s))\<rparr>, aabb_cache := ac\<rparr>)"
      using remove_effect [OF assms(1), of u] by blast
    then show ?thesis using assms(4) DRemove by (auto intro!: same)
  next
    case (DSetBox u a)
    obtain ac where "set_object_aabb u a s = Some (s\<lparr>db := (db s)\<lparr>object_uuid :=
        map (\<lambda>ob. if row_uuid ob = u then put_box (int_box a) ob else ob) (object_uuid (db s))\<rparr>, aabb_cache := ac\<rparr>)"
      using set_aabb_effect [OF assms(1), of u a] by blast
    then show ?thesis using assms(4) DSetBox by (auto intro!: same)
  next
    case (DGetBox u)
    obtain a s1 where "get_object_aabb u s = Some (a, s1)" "db s1 = db s" using get_aabb_sdb_ok [OF assms(1), of u] by blast
    then show ?thesis using assms(2,4) DGetBox by simp
  next
    case (DSetChunk u k)
    then show ?thesis using assms(4) by (auto simp: set_chunk_effect [OF assms(1)] intro!: same)
  next
    case (DChunk ch)
    obtain k s1 where q: "query_chunk ch s = Some (k, s1)"
      "db s1 = (if \<exists>c \<in> set (chunk_metadata (db s)). tile_of c = tile_key ch then db s else add_tile (db s) ch)"
      using query_chunk_ok [OF assms(1,3), of ch] by blast
    then show ?thesis using assms(2,4) DChunk index_add_tile [OF sdb_okD(4,5) [OF assms(1)] assms(2), of ch] by auto
  qed
qed

lemma run_index:
  "sdb_ok s \<Longrightarrow> index_exact (db s) \<Longrightarrow> list_all cmd_ok cs \<Longrightarrow> length (chunk_metadata (db s)) + length cs < 2 ^ 31 \<Longrightarrow>
   \<exists>s'. db_run cs s = Some s' \<and> sdb_ok s' \<and> index_exact (db s')"
proof (induction cs arbitrary: s)
  case (Cons c cs)
  have l: "length (chunk_metadata (db s)) < 2 ^ 31 - 1" using Cons.prems(4) by simp
  obtain s' where s': "db_step c s = Some s'" "sdb_ok s'" "length (chunk_metadata (db s')) \<le> Suc (length (chunk_metadata (db s)))"
    using db_step_ok [OF Cons.prems(1) _ l, of c] Cons.prems(3) by auto
  have "length (chunk_metadata (db s')) + length cs < 2 ^ 31" using s'(3) Cons.prems(4) by simp
  then show ?case using Cons.IH [OF s'(2) index_step [OF Cons.prems(1,2) l s'(1)]] Cons.prems(3) s'(1) by simp
qed simp

text \<open>C31: The trigger keeps the index. After any sequence of calls on a fresh database the R*Tree holds
  exactly one entry for every tile of the table whose box is not empty in 32 bits: its id with the box
  from its corner to the corner \<open>4 ^ level\<close> further on each axis.\<close>

theorem index_matches_tiles:
  assumes "list_all cmd_ok cs" "length cs < 2 ^ 31"
  shows "\<exists>s. db_run cs (StreamSqliteDB_new True False None) = Some s \<and>
    set (chunk_rtree (db s)) = tile_entry ` {c \<in> set (chunk_metadata (db s)). entry_ok (tile_entry c)} \<and>
    distinct (map r_id (chunk_rtree (db s)))"
proof -
  have "length (chunk_metadata (db (StreamSqliteDB_new True False None))) = 0"
    "index_exact (db (StreamSqliteDB_new True False None))"
    by (simp_all add: StreamSqliteDB_new_def update_info_def clear_and_create_table_def index_exact_def)
  then obtain s where s: "db_run cs (StreamSqliteDB_new True False None) = Some s" "sdb_ok s" "index_exact (db s)"
    using run_index [OF sdb_ok_new _ assms(1)] assms(2) by auto
  moreover have "distinct (map r_id (chunk_rtree (db s)))" using sdb_okD(4) [OF s(2)] by (simp add: db_ok_def)
  ultimately show ?thesis unfolding index_exact_def by blast
qed

theorem index_matches_tiles_witness:
  "\<exists>s. db_run [DChunk \<lparr>chunk_x = 4, chunk_y = 0, chunk_z = - 8, level = 1\<rparr>] (StreamSqliteDB_new True False None) = Some s \<and>
    distinct (map r_id (chunk_rtree (db s)))"
  using index_matches_tiles [of "[DChunk \<lparr>chunk_x = 4, chunk_y = 0, chunk_z = - 8, level = 1\<rparr>]"]
  by (auto simp del: db_run.simps)

section \<open>From a box to an answer\<close>

lemma near_level:
  assumes "log2_ok log2f" "near l" "near h" "vle l h"
  shows "unat (level (compute_chunk log2f (box_of l h))) \<le> 12"
proof -
  let ?m = "max (max (ix h - ix l) (iy h - iy l)) (iz h - iz l)"
  have m: "?m \<le> 2 ^ 23" using assms(2,3) by (auto simp: near_def)
  have ls: "longest_side (box_of l h) = of_int ?m" by (rule longest_side_box [OF assms(4)])
  have "(of_int ?m :: rat) \<le> of_int (4 ^ 31)" using m by (simp only: of_int_le_iff) simp
  then have "longest_side (box_of l h) \<le> 4 ^ 31" unfolding ls by simp
  note F = chunk_level_fits [OF assms(1) this]
  have lv: "level (compute_chunk log2f (box_of l h)) = chunk_level log2f (longest_side (box_of l h))"
    by (simp add: compute_chunk_def Let_def)
  show ?thesis
  proof (rule ccontr)
    assume "\<not> ?thesis"
    then have u: "12 \<le> unat (level (compute_chunk log2f (box_of l h))) - 1"
      "0 < unat (level (compute_chunk log2f (box_of l h)))" by linarith+
    have "(4::rat) ^ 12 \<le> 4 ^ (unat (level (compute_chunk log2f (box_of l h))) - 1)" by (rule power_increasing [OF u(1)]) simp
    also have "\<dots> < of_int ?m" using F u(2) unfolding lv ls by blast
    finally have "(of_int (4 ^ 12) :: rat) < of_int ?m" by (simp only: of_int_power of_int_numeral)
    then have "4 ^ 12 < ?m" by (simp only: of_int_less_iff)
    then have "(4::int) ^ 12 < 2 ^ 23" using m by (rule less_le_trans)
    then show False by simp
  qed
qed

definition tile_meets :: "Chunk \<Rightarrow> Vector3i \<Rightarrow> Vector3i \<Rightarrow> bool" where
  "tile_meets ch ql qh \<longleftrightarrow>
     chunk_x ch \<le> ix qh \<and> ix ql \<le> chunk_x ch + tile_edge ch \<and>
     chunk_y ch \<le> iy qh \<and> iy ql \<le> chunk_y ch + tile_edge ch \<and>
     chunk_z ch \<le> iz qh \<and> iz ql \<le> chunk_z ch + tile_edge ch"

lemma near_entry:
  assumes "log2_ok log2f" "near l" "near h" "vle l h" "ch = compute_chunk log2f (box_of l h)" "tile_of c = tile_key ch"
  shows "tile_entry c = \<lparr>r_id = c_id c, r_minX = chunk_x ch, r_maxX = chunk_x ch + tile_edge ch,
      r_minY = chunk_y ch, r_maxY = chunk_y ch + tile_edge ch, r_minZ = chunk_z ch, r_maxZ = chunk_z ch + tile_edge ch\<rparr>"
    and "0 < tile_edge ch" and "vector3i_of (position (box_of l h)) = l"
    and "chunk_x ch \<le> ix l" "ix l < chunk_x ch + tile_edge ch" "chunk_y ch \<le> iy l" "iy l < chunk_y ch + tile_edge ch"
      "chunk_z ch \<le> iz l" "iz l < chunk_z ch + tile_edge ch"
proof -
  have lv: "unat (level ch) \<le> 12" using near_level [OF assms(1-4)] assms(5) by simp
  show p: "vector3i_of (position (box_of l h)) = l" using assms(2) by (simp add: box_of_def float_exact)
  show e0: "0 < tile_edge ch" by (simp add: tile_edge_def)
  have "(4::int) ^ unat (level ch) \<le> 4 ^ 12" using lv by (rule power_increasing) simp
  then have e: "tile_edge ch \<le> 2 ^ 24" by (simp add: tile_edge_def)
  have T: "chunk_x ch \<le> ix l \<and> ix l < chunk_x ch + tile_edge ch \<and> chunk_y ch \<le> iy l \<and> iy l < chunk_y ch + tile_edge ch \<and>
      chunk_z ch \<le> iz l \<and> iz l < chunk_z ch + tile_edge ch"
    using tile_holds_position [of log2f "box_of l h"] lv p assms(5) by (simp add: Let_def)
  then show "chunk_x ch \<le> ix l" "ix l < chunk_x ch + tile_edge ch" "chunk_y ch \<le> iy l" "iy l < chunk_y ch + tile_edge ch"
    "chunk_z ch \<le> iz l" "iz l < chunk_z ch + tile_edge ch" by blast+
  have c: "c_level c = uint (level ch)" "c_x c = chunk_x ch" "c_y c = chunk_y ch" "c_z c = chunk_z ch"
    using assms(6) by (simp_all add: tile_of_def tile_key_def)
  have "nat (2 * uint (level ch)) = 2 * unat (level ch)" by (simp add: nat_mult_distrib)
  moreover have "(2::int) ^ (2 * unat (level ch)) = tile_edge ch" by (simp add: tile_edge_def power_mult)
  moreover have "2 * uint (level ch) < 64"
  proof -
    have "int (unat (level ch)) = uint (level ch)" by simp
    then show ?thesis using lv by linarith
  qed
  ultimately have sh: "sql_shift_left_1 (2 * c_level c) = tile_edge ch"
    using e e0 by (simp add: sql_shift_left_1_def c signed_take_bit_int_eq_self)
  have "- (2 ^ 31) \<le> chunk_x ch" "chunk_x ch + tile_edge ch < 2 ^ 31" "- (2 ^ 31) \<le> chunk_y ch" "chunk_y ch + tile_edge ch < 2 ^ 31"
    "- (2 ^ 31) \<le> chunk_z ch" "chunk_z ch + tile_edge ch < 2 ^ 31"
    using T e assms(2) by (auto simp: near_def)
  then show "tile_entry c = \<lparr>r_id = c_id c, r_minX = chunk_x ch, r_maxX = chunk_x ch + tile_edge ch,
      r_minY = chunk_y ch, r_maxY = chunk_y ch + tile_edge ch, r_minZ = chunk_z ch, r_maxZ = chunk_z ch + tile_edge ch\<rparr>"
    using e0 sh by (simp add: tile_entry_def c Let_def)
qed

lemma indexed_by_tile:
  assumes "db_ok d" "index_exact d" "c \<in> set (chunk_metadata d)" "entry_ok (tile_entry c)" "row_chunk ob = Some (c_id c)"
  shows "indexed_by d hit ob \<longleftrightarrow> hit (tile_entry c)"
proof -
  have inj: "inj_on c_id (set (chunk_metadata d))" using assms(1) by (simp add: db_ok_def distinct_map)
  have id: "r_id (tile_entry c) = c_id c" for c by (simp add: tile_entry_def Let_def)
  have "r = tile_entry c" if r: "r \<in> set (chunk_rtree d)" "r_id r = c_id c" for r
  proof -
    obtain c' where c': "c' \<in> set (chunk_metadata d)" "r = tile_entry c'" using r(1) assms(2) by (auto simp: index_exact_def)
    then have "c' = c" using r(2) assms(3) inj_onD [OF inj, of c' c] by (simp add: id)
    then show ?thesis using c'(2) by simp
  qed
  moreover have "tile_entry c \<in> set (chunk_rtree d)" using assms(2,3,4) by (auto simp: index_exact_def)
  moreover have "r_id (tile_entry c) = c_id c" by (rule id)
  ultimately show ?thesis using assms(3,5) unfolding indexed_by_def
    by (metis (no_types) option.inject)
qed

lemma found_iff_meets:
  assumes "log2_ok log2f" "sdb_ok s" "index_exact (db s)" "length (chunk_metadata (db s)) < 2 ^ 31 - 1"
    "u \<in> uuids_of (object_uuid (db s))" "near l" "near h" "vle l h" "ch = compute_chunk log2f (box_of l h)"
  shows "\<exists>k s'. query_chunk ch s = Some (k, s') \<and> (\<forall>ql qh. near ql \<and> near qh \<longrightarrow>
    ((\<exists>dt. map_of (query_objects [box_of ql qh] (set_object_chunk u k s')) u = Some dt) \<longleftrightarrow> tile_meets ch ql qh))"
proof -
  obtain k s1 where q: "query_chunk ch s = Some (k, s1)" "sdb_ok s1" "chunk_agrees (db s1) ch k"
    "object_uuid (db s1) = object_uuid (db s)"
    using query_chunk_ok [OF assms(2,4), of ch] by (auto simp: add_tile_def split: if_splits)
  have ix: "index_exact (db s1)" using index_step [OF assms(2-4), of "DChunk ch" s1] q(1) by simp
  obtain c where c: "c \<in> set (chunk_metadata (db s1))" "tile_of c = tile_key ch" "c_id c = k"
    using q(3) by (auto simp: chunk_agrees_def)
  note E = near_entry [OF assms(1,6-9) c(2)]
  define s2 where "s2 = set_object_chunk u k s1"
  have kin: "k \<in> c_id ` set (chunk_metadata (db s1))" using c by blast
  have s2: "sdb_ok s2" "chunk_metadata (db s2) = chunk_metadata (db s1)" "chunk_rtree (db s2) = chunk_rtree (db s1)"
    "object_uuid (db s2) = map (\<lambda>ob. if row_uuid ob = u then ob\<lparr>row_chunk := Some k\<rparr> else ob) (object_uuid (db s1))"
    unfolding s2_def by (rule set_chunk_sdb_ok [OF q(2)]) (simp_all add: set_chunk_effect [OF q(2)] kin)
  have ok: "entry_ok (tile_entry c)" using E(1,2) by (simp add: entry_ok_def)
  have ix2: "index_exact (db s2)" using ix s2(2,3) by (simp add: index_exact_def)
  obtain ob0 where o0: "ob0 \<in> set (object_uuid (db s1))" "row_uuid ob0 = u" using assms(5) q(4) by (auto simp: uuids_of_def)
  then have "row_uuid (ob0\<lparr>row_chunk := Some k\<rparr>) = u" by simp
  moreover have "ob0\<lparr>row_chunk := Some k\<rparr> \<in> set (object_uuid (db s2))"
    unfolding s2(4) set_map by (rule image_eqI [OF _ o0(1)]) (simp add: o0(2))
  ultimately have ob: "\<exists>ob \<in> set (object_uuid (db s2)). row_uuid ob = u" by blast
  have rc: "row_chunk ob = Some (c_id c)" if o: "ob \<in> set (object_uuid (db s2))" "row_uuid ob = u" for ob
  proof -
    obtain x where x: "ob = (if row_uuid x = u then x\<lparr>row_chunk := Some k\<rparr> else x)"
      using o(1) unfolding s2(4) set_map by blast
    show ?thesis using o(2) unfolding x c(3) by (cases "row_uuid x = u") simp_all
  qed
  have iby: "indexed_by (db s2) hit ob \<longleftrightarrow> hit (tile_entry c)" if "ob \<in> set (object_uuid (db s2))" "row_uuid ob = u" for hit ob
    using indexed_by_tile [OF sdb_okD(4) [OF s2(1)] ix2 _ ok rc [OF that]] c(1) s2(2) by simp
  have "(\<exists>dt. map_of (query_objects [box_of ql qh] s2) u = Some dt) \<longleftrightarrow> tile_meets ch ql qh" if n: "near ql" "near qh" for ql qh
  proof -
    have "int_box (box_of ql qh) = (ql, qh)"
      using n by (simp add: int_box_def get_end_box vector3i_of_vector) (simp add: box_of_def vector3i_of_vector)
    then have m: "meets (box_of ql qh) (tile_entry c) \<longleftrightarrow> tile_meets ch ql qh"
      by (simp add: meets_def E(1) tile_meets_def)
    have look: "map_of (query_objects [box_of ql qh] s2) u = Some dt \<longleftrightarrow> (\<exists>ob \<in> set (object_uuid (db s2)). row_uuid ob = u \<and>
        dt = row_data ob \<and> indexed_by (db s2) (\<lambda>r. \<exists>a \<in> set [box_of ql qh]. meets a r) ob)" for dt
      using query_objects_lookup [OF sdb_okD(2,4) [OF s2(1)]] by blast
    show ?thesis
    proof
      assume "\<exists>dt. map_of (query_objects [box_of ql qh] s2) u = Some dt"
      then obtain ob where o: "ob \<in> set (object_uuid (db s2))" "row_uuid ob = u"
        "indexed_by (db s2) (\<lambda>r. \<exists>a \<in> set [box_of ql qh]. meets a r) ob" unfolding look by blast
      show "tile_meets ch ql qh" using o(3) m unfolding iby [OF o(1,2)] by simp
    next
      assume t: "tile_meets ch ql qh"
      obtain ob where o: "ob \<in> set (object_uuid (db s2))" "row_uuid ob = u" using ob by blast
      have "indexed_by (db s2) (\<lambda>r. \<exists>a \<in> set [box_of ql qh]. meets a r) ob" unfolding iby [OF o] using t m by simp
      then show "\<exists>dt. map_of (query_objects [box_of ql qh] s2) u = Some dt" unfolding look using o by blast
    qed
  qed
  then show ?thesis using q(1) unfolding s2_def by blast
qed

text \<open>C28: From a box to an answer. When the manager files an object with integer corners near the origin
  under the tile that \<open>compute_chunk\<close> gives for its box, \<open>query_objects\<close> returns it for exactly the
  boxes that meet the tile; so for every box that holds its minimum corner, and for none that is more
  than a tile edge away from it.\<close>

theorem object_found_by_tile:
  assumes "log2_ok log2f" "sdb_ok s" "index_exact (db s)" "length (chunk_metadata (db s)) < 2 ^ 31 - 1"
    "u \<in> uuids_of (object_uuid (db s))" "near l" "near h" "vle l h" "ch = compute_chunk log2f (box_of l h)"
  shows "\<exists>k s'. query_chunk ch s = Some (k, s') \<and> (\<forall>ql qh. near ql \<and> near qh \<longrightarrow>
    (let found = (\<exists>dt. map_of (query_objects [box_of ql qh] (set_object_chunk u k s')) u = Some dt); e = tile_edge ch
     in (found \<longleftrightarrow> tile_meets ch ql qh) \<and> (vle ql l \<and> vle l qh \<longrightarrow> found) \<and>
       (found \<longrightarrow> ix ql \<le> ix h + e \<and> ix l < ix qh + e \<and> iy ql \<le> iy h + e \<and> iy l < iy qh + e \<and>
         iz ql \<le> iz h + e \<and> iz l < iz qh + e)))"
proof -
  have "\<exists>c. tile_of c = tile_key ch"
    by (rule exI [of _ "\<lparr>c_id = 0, c_level = uint (level ch), c_x = chunk_x ch, c_y = chunk_y ch, c_z = chunk_z ch\<rparr>"])
      (simp add: tile_of_def tile_key_def)
  then obtain c where c: "tile_of c = tile_key ch" by blast
  note E = near_entry(2,4-9) [OF assms(1,6-9) c]
  have in_box: "tile_meets ch ql qh" if "vle ql l" "vle l qh" for ql qh
    using that E unfolding tile_meets_def vle_def by linarith
  have near_box: "ix ql \<le> ix h + tile_edge ch \<and> ix l < ix qh + tile_edge ch \<and> iy ql \<le> iy h + tile_edge ch \<and>
      iy l < iy qh + tile_edge ch \<and> iz ql \<le> iz h + tile_edge ch \<and> iz l < iz qh + tile_edge ch"
    if "tile_meets ch ql qh" for ql qh
    using that E assms(8) unfolding tile_meets_def vle_def by linarith
  obtain k s' where "query_chunk ch s = Some (k, s')" "\<forall>ql qh. near ql \<and> near qh \<longrightarrow>
    ((\<exists>dt. map_of (query_objects [box_of ql qh] (set_object_chunk u k s')) u = Some dt) \<longleftrightarrow> tile_meets ch ql qh)"
    using found_iff_meets [OF assms] by blast
  then show ?thesis using in_box near_box unfolding Let_def by blast
qed

text \<open>A database with one object, a box \<open>[3, 7]\<close> in the tile \<open>[0, 4]\<close>.\<close>

definition one_object :: StreamSqliteDB where
  "one_object = upsert_object_uuids (replicate 16 1) ObjectData_new (StreamSqliteDB_new True False None)"

lemma one_object_ok: "sdb_ok one_object" "index_exact (db one_object)"
  "length (chunk_metadata (db one_object)) < 2 ^ 31 - 1" "replicate 16 1 \<in> uuids_of (object_uuid (db one_object))"
proof -
  show "sdb_ok one_object" unfolding one_object_def by (rule upsert_sdb_ok [OF sdb_ok_new]) (simp add: uuid_ok_def)
  show "index_exact (db one_object)" "length (chunk_metadata (db one_object)) < 2 ^ 31 - 1"
    "replicate 16 1 \<in> uuids_of (object_uuid (db one_object))"
    by (simp_all add: one_object_def upsert_effect [OF sdb_ok_new] ObjectData_new_def uuids_upserted)
      (simp_all add: index_exact_def StreamSqliteDB_new_def update_info_def clear_and_create_table_def)
qed

lemma overshoot_box: "near (Vector3i 3 0 0)" "near (Vector3i 7 1 1)" "vle (Vector3i 3 0 0) (Vector3i 7 1 1)"
  "\<lparr>chunk_x = 0, chunk_y = 0, chunk_z = 0, level = 1\<rparr> = compute_chunk log2_floor (box_of (Vector3i 3 0 0) (Vector3i 7 1 1))"
  by (simp_all add: near_def vle_def) code_simp

theorem object_found_by_tile_witness:
  "\<exists>k s' dt. query_chunk \<lparr>chunk_x = 0, chunk_y = 0, chunk_z = 0, level = 1\<rparr> one_object = Some (k, s') \<and>
    map_of (query_objects [box_of (Vector3i 3 0 0) (Vector3i 3 0 0)] (set_object_chunk (replicate 16 1) k s')) (replicate 16 1) = Some dt"
  using object_found_by_tile [OF log2_floor_ok one_object_ok overshoot_box] overshoot_box(1)
  unfolding Let_def by (metis vle_def order_refl)

text \<open>A missed object. The tile of a box need not cover the box: the object with the box from (3, 0, 0)
  to (7, 1, 1), filed under the tile the code computes for it, is not returned for the box from
  (5, 0, 0) to (6, 1, 1), which lies inside its own.\<close>

theorem overshoot_missed:
  "\<exists>k s'. query_chunk (compute_chunk log2_floor (box_of (Vector3i 3 0 0) (Vector3i 7 1 1))) one_object = Some (k, s') \<and>
    map_of (query_objects [box_of (Vector3i 5 0 0) (Vector3i 6 1 1)] (set_object_chunk (replicate 16 1) k s')) (replicate 16 1) = None"
proof -
  have n: "near (Vector3i 5 0 0)" "near (Vector3i 6 1 1)" by (simp_all add: near_def)
  have "\<not> tile_meets \<lparr>chunk_x = 0, chunk_y = 0, chunk_z = 0, level = 1\<rparr> (Vector3i 5 0 0) (Vector3i 6 1 1)"
    by (simp add: tile_meets_def tile_edge_def)
  then show ?thesis
    using found_iff_meets [OF log2_floor_ok one_object_ok overshoot_box] n
    unfolding overshoot_box(4) [symmetric] by (metis not_Some_eq)
qed
end
