(* ===== verification/SceneCache.thy ===== *)
theory SceneCache
  imports Memo Uuid "HOL-Library.Monad_Syntax"
begin

text \<open>
  src/src/core/components/object_scene_cache.{h,cpp}: the cache of unloaded nodes and of loaded scenes,
  and the bookkeeping of the asynchronous loads. Nodes are the instance ids of the engine, 0 the null
  pointer; a scene is a value of any type, \<open>None\<close> the null reference. What the engine answers (the
  status of a load, the loaded scene, whether a node is still usable, an instantiated scene) are
  arguments. The nodes handed to the eviction callback are the \<open>erase_log\<close> of the cache of nodes.
\<close>

datatype load_status = InvalidResource | InProgress | LoadFailed | Loaded

record 'sc ObjectSceneCache =
  loading_requests :: "(uuid \<times> string) list"
  loading_set :: "uuid a_hashset"
  remove_loading_set :: "uuid a_hashset"
  node_cache :: "(uuid, nat) lru_cache"
  scene_cache :: "(uuid, 'sc option) lru_cache"

definition ObjectSceneCache_new :: "nat \<Rightarrow> nat \<Rightarrow> 'sc ObjectSceneCache" where
  "ObjectSceneCache_new scene_cap node_cap = \<lparr>loading_requests = [], loading_set = [],
     remove_loading_set = [], node_cache = lru_cache_new node_cap, scene_cache = lru_cache_new scene_cap\<rparr>"

definition node_cache_size :: "'sc ObjectSceneCache \<Rightarrow> nat" where
  "node_cache_size c = Size (node_cache c)"

definition scene_cache_size :: "'sc ObjectSceneCache \<Rightarrow> nat" where
  "scene_cache_size c = Size (scene_cache c)"

definition get_scene :: "uuid \<Rightarrow> 'sc ObjectSceneCache \<Rightarrow> ('sc option \<times> 'sc ObjectSceneCache) option" where
  "get_scene u c = do {
     (sc, scene, _) \<leftarrow> TryGet LRU_ops None (scene_cache c) u;
     Some (scene, c\<lparr>scene_cache := sc\<rparr>)
   }"

definition store_scene :: "uuid \<Rightarrow> 'sc option \<Rightarrow> 'sc ObjectSceneCache \<Rightarrow> 'sc ObjectSceneCache option" where
  "store_scene u scene c = do {
     sc \<leftarrow> Put LRU_ops (scene_cache c) u scene;
     Some (c\<lparr>scene_cache := sc\<rparr>)
   }"

definition remove_scene :: "uuid \<Rightarrow> 'sc ObjectSceneCache \<Rightarrow> 'sc ObjectSceneCache option" where
  "remove_scene u c = do {
     (sc, _) \<leftarrow> Remove LRU_ops (scene_cache c) u;
     Some (c\<lparr>scene_cache := sc\<rparr>)
   }"

text \<open>\<open>usable n\<close>: \<open>n\<close> names a live object that is not queued for deletion. \<open>instantiate\<close> makes a node of a
  scene in the world \<open>w\<close>, or fails.\<close>

definition acquire :: "(nat \<Rightarrow> bool) \<Rightarrow> ('sc \<Rightarrow> 'w \<Rightarrow> nat \<times> 'w) \<Rightarrow> uuid \<Rightarrow> 'sc ObjectSceneCache \<Rightarrow> 'w \<Rightarrow>
    (nat \<times> 'sc ObjectSceneCache \<times> 'w) option" where
  "acquire usable instantiate u c w = do {
     (nc, cached, found) \<leftarrow> Pop LRU_ops 0 (node_cache c) u;
     let c = c\<lparr>node_cache := nc\<rparr>;
     if found \<and> cached \<noteq> 0 \<and> usable cached then Some (cached, c, w)
     else do {
       (scene, c) \<leftarrow> get_scene u c;
       (case scene of
          Some sc \<Rightarrow> (let (n, w) = instantiate sc w in Some (n, c, w))
        | None \<Rightarrow> Some (0, c, w))
     }
   }"

definition release :: "uuid \<Rightarrow> nat \<Rightarrow> 'sc ObjectSceneCache \<Rightarrow> 'sc ObjectSceneCache option" where
  "release u node c = (if node = 0 then Some c
     else do {
       nc \<leftarrow> Put LRU_ops (node_cache c) u node;
       Some (c\<lparr>node_cache := nc\<rparr>)
     })"

text \<open>\<open>accepted\<close>: \<open>load_threaded_request\<close> answers \<open>OK\<close> for the path.\<close>

definition request_scene :: "(string \<Rightarrow> bool) \<Rightarrow> uuid \<Rightarrow> string \<Rightarrow> 'sc ObjectSceneCache \<Rightarrow>
    (bool \<times> 'sc ObjectSceneCache) option" where
  "request_scene accepted u scene_path c =
     (if u \<in> set (remove_loading_set c)
      then Some (False, c\<lparr>remove_loading_set := ds_erase u (remove_loading_set c)\<rparr>)
      else do {
        (scene, c) \<leftarrow> get_scene u c;
        if scene \<noteq> None \<or> u \<in> set (loading_set c) then Some (True, c)
        else if accepted scene_path
        then Some (True, c\<lparr>loading_requests := loading_requests c @ [(u, scene_path)],
                           loading_set := ds_insert u (loading_set c)\<rparr>)
        else Some (False, c)
      })"

text \<open>The loop of \<open>update\<close> over the requests; the result lists those that stay.\<close>

fun update_loop :: "(string \<Rightarrow> load_status) \<Rightarrow> (string \<Rightarrow> 'sc option) \<Rightarrow> (uuid \<times> string) list \<Rightarrow>
    'sc ObjectSceneCache \<Rightarrow> ((uuid \<times> string) list \<times> 'sc ObjectSceneCache) option" where
  "update_loop status get [] c = Some ([], c)"
| "update_loop status get ((u, path) # rest) c = (case status path of
     Loaded \<Rightarrow> do {
       c \<leftarrow> (case get path of Some scene \<Rightarrow> store_scene u (Some scene) c | None \<Rightarrow> Some c);
       update_loop status get rest (c\<lparr>loading_set := ds_erase u (loading_set c)\<rparr>)
     }
   | LoadFailed \<Rightarrow> update_loop status get rest
       (c\<lparr>loading_set := ds_erase u (loading_set c), remove_loading_set := ds_insert u (remove_loading_set c)\<rparr>)
   | _ \<Rightarrow> do {
       (kept, c) \<leftarrow> update_loop status get rest c;
       Some ((u, path) # kept, c)
     })"

definition update :: "(string \<Rightarrow> load_status) \<Rightarrow> (string \<Rightarrow> 'sc option) \<Rightarrow> 'sc ObjectSceneCache \<Rightarrow>
    'sc ObjectSceneCache option" where
  "update status get c = do {
     (kept, c) \<leftarrow> update_loop status get (loading_requests c) c;
     Some (c\<lparr>loading_requests := kept\<rparr>)
   }"

definition free_all_node :: "'sc ObjectSceneCache \<Rightarrow> 'sc ObjectSceneCache option" where
  "free_all_node c = do {
     nc \<leftarrow> ClearWithCallback LRU_ops (node_cache c);
     sc \<leftarrow> ClearWithCallback LRU_ops (scene_cache c);
     Some (c\<lparr>node_cache := nc, scene_cache := sc\<rparr>)
   }"

definition is_loading :: "uuid \<Rightarrow> 'sc ObjectSceneCache \<Rightarrow> bool" where
  "is_loading u c \<longleftrightarrow> u \<in> set (loading_set c)"

section \<open>The invariant\<close>

text \<open>One request for each identifier of \<open>loading_set\<close>, the two caches well-formed.\<close>

definition scenes_ok :: "'sc ObjectSceneCache \<Rightarrow> bool" where
  "scenes_ok c \<longleftrightarrow> lru_ok (node_cache c) \<and> lru_ok (scene_cache c) \<and>
     distinct (loading_set c) \<and> distinct (remove_loading_set c) \<and>
     distinct (map fst (loading_requests c)) \<and> set (loading_set c) = fst ` set (loading_requests c)"

lemma scenes_okD:
  assumes "scenes_ok c"
  shows "lru_ok (node_cache c)" "lru_ok (scene_cache c)" "distinct (loading_set c)" "distinct (remove_loading_set c)"
    "distinct (map fst (loading_requests c))" "set (loading_set c) = fst ` set (loading_requests c)"
  using assms by (simp_all add: scenes_ok_def)

lemma scenes_ok_new [simp]: "scenes_ok (ObjectSceneCache_new n m)"
  by (simp add: scenes_ok_def ObjectSceneCache_new_def)

lemma get_scene_ok:
  assumes "scenes_ok c"
  shows "\<exists>c'. get_scene u c = Some (Option.bind (FindElem (scene_cache c) u) id, c') \<and> scenes_ok c' \<and>
    FindElem (scene_cache c') = FindElem (scene_cache c) \<and> node_cache c' = node_cache c \<and>
    loading_requests c' = loading_requests c \<and> loading_set c' = loading_set c \<and> remove_loading_set c' = remove_loading_set c"
proof -
  obtain sc where "lru_ok sc" "FindElem sc = FindElem (scene_cache c)" "TryGet LRU_ops None (scene_cache c) u =
      Some (sc, case FindElem (scene_cache c) u of Some v \<Rightarrow> v | None \<Rightarrow> None, FindElem (scene_cache c) u \<noteq> None)"
    using memo.try_get_law [OF scenes_okD(2) [OF assms], of None u] by blast
  then show ?thesis using assms
    by (intro exI [of _ "c\<lparr>scene_cache := sc\<rparr>"]) (auto simp: get_scene_def scenes_ok_def split: option.split)
qed

lemma store_scene_ok:
  assumes "scenes_ok c"
  shows "\<exists>c'. store_scene u scene c = Some c' \<and> scenes_ok c' \<and> FindElem (scene_cache c') u = Some scene \<and>
    node_cache c' = node_cache c \<and> loading_requests c' = loading_requests c \<and>
    loading_set c' = loading_set c \<and> remove_loading_set c' = remove_loading_set c"
proof -
  obtain sc where "Put LRU_ops (scene_cache c) u scene = Some sc" "lru_ok sc" "FindElem sc u = Some scene"
    using memo.put_law [OF scenes_okD(2) [OF assms], of u scene] by blast
  then show ?thesis using assms by (simp add: store_scene_def scenes_ok_def)
qed

lemma remove_scene_ok:
  assumes "scenes_ok c"
  shows "\<exists>c'. remove_scene u c = Some c' \<and> scenes_ok c' \<and> FindElem (scene_cache c') u = None \<and>
    node_cache c' = node_cache c \<and> loading_requests c' = loading_requests c \<and>
    loading_set c' = loading_set c \<and> remove_loading_set c' = remove_loading_set c"
proof -
  obtain sc where "Remove LRU_ops (scene_cache c) u = Some (sc, FindElem (scene_cache c) u \<noteq> None)" "lru_ok sc"
    "FindElem sc u = None" using memo.remove_law [OF scenes_okD(2) [OF assms], of u] by auto
  then show ?thesis using assms by (simp add: remove_scene_def scenes_ok_def)
qed

lemma release_ok:
  assumes "scenes_ok c"
  shows "\<exists>c'. release u n c = Some c' \<and> scenes_ok c' \<and> (n \<noteq> 0 \<longrightarrow> FindElem (node_cache c') u = Some n)"
proof (cases "n = 0")
  case False
  obtain nc where "Put LRU_ops (node_cache c) u n = Some nc" "lru_ok nc" "FindElem nc u = Some n"
    using memo.put_law [OF scenes_okD(1) [OF assms], of u n] by blast
  then show ?thesis using assms False by (simp add: release_def scenes_ok_def)
qed (use assms in \<open>simp add: release_def\<close>)

lemma acquire_ok:
  assumes "scenes_ok c"
  shows "\<exists>c'. scenes_ok c' \<and> FindElem (node_cache c') u = None \<and> acquire usable instantiate u c w =
    Some (let (n, w') = (case FindElem (node_cache c) u of
        Some n \<Rightarrow> if n \<noteq> 0 \<and> usable n then (n, w) else
          (case Option.bind (FindElem (scene_cache c) u) id of Some sc \<Rightarrow> instantiate sc w | None \<Rightarrow> (0, w))
      | None \<Rightarrow> (case Option.bind (FindElem (scene_cache c) u) id of Some sc \<Rightarrow> instantiate sc w | None \<Rightarrow> (0, w)))
      in (n, c', w'))"
proof -
  obtain nc where nc: "lru_ok nc" "FindElem nc = (FindElem (node_cache c))(u := None)" "Pop LRU_ops 0 (node_cache c) u =
      Some (nc, case FindElem (node_cache c) u of Some v \<Rightarrow> v | None \<Rightarrow> 0, FindElem (node_cache c) u \<noteq> None)"
    using memo.pop_law [OF scenes_okD(1) [OF assms], of u 0] by blast
  have ok: "scenes_ok (c\<lparr>node_cache := nc\<rparr>)" using assms nc(1) by (simp add: scenes_ok_def)
  obtain c' where c': "get_scene u (c\<lparr>node_cache := nc\<rparr>) = Some (Option.bind (FindElem (scene_cache c) u) id, c')"
    "scenes_ok c'" "node_cache c' = nc" using get_scene_ok [OF ok, of u] by auto
  show ?thesis
  proof (cases "\<exists>n. FindElem (node_cache c) u = Some n \<and> n \<noteq> 0 \<and> usable n")
    case True
    then show ?thesis using nc ok by (intro exI [of _ "c\<lparr>node_cache := nc\<rparr>"]) (auto simp: acquire_def)
  next
    case False
    then show ?thesis using nc c'
      by (intro exI [of _ c']) (auto simp: acquire_def split: option.splits prod.splits)
  qed
qed

definition cached_scene :: "uuid \<Rightarrow> 'sc ObjectSceneCache \<Rightarrow> 'sc option" where
  "cached_scene u c = Option.bind (FindElem (scene_cache c) u) id"

lemma request_scene_ok:
  assumes "scenes_ok c"
  shows "\<exists>c'. scenes_ok c' \<and> node_cache c' = node_cache c \<and> FindElem (scene_cache c') = FindElem (scene_cache c) \<and>
    set (remove_loading_set c') = set (remove_loading_set c) - {u} \<and>
    (if u \<in> set (remove_loading_set c) then request_scene acc u p c = Some (False, c') \<and> set (loading_set c') = set (loading_set c)
     else request_scene acc u p c = Some (cached_scene u c \<noteq> None \<or> is_loading u c \<or> acc p, c') \<and>
       set (loading_set c') = set (loading_set c) \<union> (if cached_scene u c = None \<and> acc p then {u} else {}))"
proof (cases "u \<in> set (remove_loading_set c)")
  case True
  let ?c = "c\<lparr>remove_loading_set := ds_erase u (remove_loading_set c)\<rparr>"
  have "scenes_ok ?c" using assms by (simp add: scenes_ok_def)
  then show ?thesis using True scenes_okD(4) [OF assms] by (intro exI [of _ ?c]) (simp add: request_scene_def)
next
  case False
  obtain c1 where c1: "get_scene u c = Some (cached_scene u c, c1)" "scenes_ok c1"
    "FindElem (scene_cache c1) = FindElem (scene_cache c)" "node_cache c1 = node_cache c"
    "loading_requests c1 = loading_requests c" "loading_set c1 = loading_set c" "remove_loading_set c1 = remove_loading_set c"
    using get_scene_ok [OF assms, of u] unfolding cached_scene_def by blast
  show ?thesis
  proof (cases "cached_scene u c \<noteq> None \<or> is_loading u c \<or> \<not> acc p")
    case True
    then show ?thesis using False c1 by (intro exI [of _ c1]) (auto simp: request_scene_def is_loading_def)
  next
    case new: False
    let ?c = "c1\<lparr>loading_requests := loading_requests c @ [(u, p)], loading_set := ds_insert u (loading_set c)\<rparr>"
    have "scenes_ok ?c" using c1(2,5,6) new by (auto simp: scenes_ok_def is_loading_def)
    then show ?thesis using False new c1
      by (intro exI [of _ ?c]) (auto simp: request_scene_def is_loading_def)
  qed
qed

text \<open>The loop on the requests from a position on: \<open>scenes_ok\<close> with the requests before it, which stay.\<close>

lemma update_loop_ok:
  assumes "scenes_ok (c\<lparr>loading_requests := done @ rest\<rparr>)"
  shows "\<exists>c'. update_loop status get rest c = Some (filter (\<lambda>(u, p). status p \<notin> {Loaded, LoadFailed}) rest, c') \<and>
    scenes_ok (c'\<lparr>loading_requests := done @ filter (\<lambda>(u, p). status p \<notin> {Loaded, LoadFailed}) rest\<rparr>) \<and>
    node_cache c' = node_cache c \<and>
    set (remove_loading_set c') = set (remove_loading_set c) \<union> {u. \<exists>p. (u, p) \<in> set rest \<and> status p = LoadFailed}"
  using assms
proof (induction rest arbitrary: c "done")
  case Nil
  then show ?case by simp
next
  case (Cons r rest)
  obtain u p where r: "r = (u, p)" by (cases r)
  note ok = scenes_okD [OF Cons.prems]
  show ?case
  proof (cases "status p")
    case Loaded
    obtain c1 where c1: "(case get p of Some scene \<Rightarrow> store_scene u (Some scene) c | None \<Rightarrow> Some c) = Some c1"
      "lru_ok (node_cache c1)" "lru_ok (scene_cache c1)" "node_cache c1 = node_cache c"
      "loading_set c1 = loading_set c" "remove_loading_set c1 = remove_loading_set c"
    proof (cases "get p")
      case (Some scene)
      obtain sc where "Put LRU_ops (scene_cache c) u (Some scene) = Some sc" "lru_ok sc"
        using memo.put_law [of "scene_cache c" u "Some scene"] ok(2) by auto
      then show ?thesis using ok(1) by (intro that [of "c\<lparr>scene_cache := sc\<rparr>"]) (simp_all add: store_scene_def Some)
    next
      case None
      then show ?thesis using ok(1,2) by (intro that [of c]) simp_all
    qed
    let ?c = "c1\<lparr>loading_set := ds_erase u (loading_set c1)\<rparr>"
    have "scenes_ok (?c\<lparr>loading_requests := done @ rest\<rparr>)"
      using ok c1 r by (auto simp: scenes_ok_def)
    moreover have e: "{u. \<exists>p. (u, p) \<in> set (r # rest) \<and> status p = LoadFailed} =
        {u. \<exists>p. (u, p) \<in> set rest \<and> status p = LoadFailed}" using Loaded r by auto
    ultimately show ?thesis using Cons.IH [of "done" ?c] Loaded c1 r unfolding e by simp
  next
    case LoadFailed
    let ?c = "c\<lparr>loading_set := ds_erase u (loading_set c), remove_loading_set := ds_insert u (remove_loading_set c)\<rparr>"
    have "scenes_ok (?c\<lparr>loading_requests := done @ rest\<rparr>)"
      using ok r by (auto simp: scenes_ok_def)
    from Cons.IH [OF this] show ?thesis using LoadFailed r by fastforce
  next
    case InvalidResource
    have "scenes_ok (c\<lparr>loading_requests := (done @ [r]) @ rest\<rparr>)" using Cons.prems by simp
    from Cons.IH [OF this] show ?thesis using InvalidResource r by fastforce
  next
    case InProgress
    have "scenes_ok (c\<lparr>loading_requests := (done @ [r]) @ rest\<rparr>)" using Cons.prems by simp
    from Cons.IH [OF this] show ?thesis using InProgress r by fastforce
  qed
qed

lemma update_ok:
  assumes "scenes_ok c"
  shows "\<exists>c'. update status get c = Some c' \<and> scenes_ok c' \<and> node_cache c' = node_cache c \<and>
    loading_requests c' = filter (\<lambda>(u, p). status p \<notin> {Loaded, LoadFailed}) (loading_requests c) \<and>
    set (remove_loading_set c') = set (remove_loading_set c) \<union> {u. \<exists>p. (u, p) \<in> set (loading_requests c) \<and> status p = LoadFailed}"
proof -
  have "scenes_ok (c\<lparr>loading_requests := [] @ loading_requests c\<rparr>)" using assms by simp
  from update_loop_ok [OF this, of status get] show ?thesis by (auto simp: update_def)
qed

lemma free_all_node_ok:
  assumes "scenes_ok c"
  shows "\<exists>c'. free_all_node c = Some c' \<and> scenes_ok c' \<and> node_cache_size c' = 0 \<and> scene_cache_size c' = 0"
proof -
  obtain nc where "ClearWithCallback LRU_ops (node_cache c) = Some nc" "cache_items_map nc = []" "lru_ok nc"
    using lru.ClearWithCallback_ok [OF scenes_okD(1) [OF assms]] by blast
  moreover obtain sc where "ClearWithCallback LRU_ops (scene_cache c) = Some sc" "cache_items_map sc = []" "lru_ok sc"
    using lru.ClearWithCallback_ok [OF scenes_okD(2) [OF assms]] by blast
  ultimately show ?thesis using assms
    by (simp add: free_all_node_def scenes_ok_def node_cache_size_def scene_cache_size_def Size_def)
qed

section \<open>Properties\<close>

datatype 'sc scene_cmd = SAcquire uuid "nat \<Rightarrow> bool" | SRelease uuid nat | SRequest uuid string "string \<Rightarrow> bool"
  | SUpdate "string \<Rightarrow> load_status" "string \<Rightarrow> 'sc option" | SStore uuid "'sc option" | SRemove uuid | SFreeAll

fun scene_step :: "('sc \<Rightarrow> 'w \<Rightarrow> nat \<times> 'w) \<Rightarrow> 'w \<Rightarrow> 'sc scene_cmd \<Rightarrow> 'sc ObjectSceneCache \<Rightarrow> 'sc ObjectSceneCache option" where
  "scene_step inst w (SAcquire u usable) c = map_option (\<lambda>(n, c, w). c) (acquire usable inst u c w)"
| "scene_step inst w (SRelease u n) c = release u n c"
| "scene_step inst w (SRequest u p acc) c = map_option snd (request_scene acc u p c)"
| "scene_step inst w (SUpdate status get) c = update status get c"
| "scene_step inst w (SStore u sc) c = store_scene u sc c"
| "scene_step inst w (SRemove u) c = remove_scene u c"
| "scene_step inst w SFreeAll c = free_all_node c"

fun scene_run :: "('sc \<Rightarrow> 'w \<Rightarrow> nat \<times> 'w) \<Rightarrow> 'w \<Rightarrow> 'sc scene_cmd list \<Rightarrow> 'sc ObjectSceneCache \<Rightarrow> 'sc ObjectSceneCache option" where
  "scene_run inst w [] c = Some c"
| "scene_run inst w (x # xs) c = Option.bind (scene_step inst w x c) (scene_run inst w xs)"

lemma scene_step_ok: "scenes_ok c \<Longrightarrow> \<exists>c'. scene_step inst w x c = Some c' \<and> scenes_ok c'"
proof (cases x)
  case (SAcquire u usable)
  assume "scenes_ok c"
  from acquire_ok [OF this, of u usable inst w] show ?thesis using SAcquire by (auto split: prod.split)
next
  case (SRequest u p acc)
  assume "scenes_ok c"
  from request_scene_ok [OF this, of u acc p] show ?thesis using SRequest by (auto split: if_splits)
next
  case (SRelease u n)
  assume "scenes_ok c"
  from release_ok [OF this, of u n] show ?thesis using SRelease by auto
next
  case (SUpdate status get)
  assume "scenes_ok c"
  from update_ok [OF this, of status get] show ?thesis using SUpdate by auto
next
  case (SStore u sc)
  assume "scenes_ok c"
  from store_scene_ok [OF this, of u sc] show ?thesis using SStore by auto
next
  case (SRemove u)
  assume "scenes_ok c"
  from remove_scene_ok [OF this, of u] show ?thesis using SRemove by auto
next
  case SFreeAll
  assume "scenes_ok c"
  from free_all_node_ok [OF this] show ?thesis using SFreeAll by auto
qed

lemma scene_run_ok: "scenes_ok c \<Longrightarrow> \<exists>c'. scene_run inst w xs c = Some c' \<and> scenes_ok c'"
proof (induction xs arbitrary: c)
  case (Cons x xs)
  then show ?case using scene_step_ok [OF Cons.prems, of inst w x] by auto
qed simp


text \<open>A failed load is reported once. When the engine reports that the load of an identifier failed,
  \<open>update\<close> drops the request, the next \<open>request_scene\<close> answers false and forgets the failure, and the
  one after it starts the load again if the engine accepts it and no scene is cached meanwhile.\<close>

theorem failed_load_reported_once:
  assumes "scenes_ok c" "(u, p) \<in> set (loading_requests c)" "status p = LoadFailed"
  shows "\<exists>c1 c2 c3. update status get c = Some c1 \<and> \<not> is_loading u c1 \<and>
    request_scene acc u p c1 = Some (False, c2) \<and> \<not> is_loading u c2 \<and>
    request_scene acc u p c2 = Some (cached_scene u c2 \<noteq> None \<or> acc p, c3) \<and>
    (is_loading u c3 \<longleftrightarrow> cached_scene u c2 = None \<and> acc p)"
proof -
  obtain c1 where c1: "update status get c = Some c1" "scenes_ok c1"
    "loading_requests c1 = filter (\<lambda>(u, p). status p \<notin> {Loaded, LoadFailed}) (loading_requests c)"
    "set (remove_loading_set c1) = set (remove_loading_set c) \<union> {u. \<exists>p. (u, p) \<in> set (loading_requests c) \<and> status p = LoadFailed}"
    using update_ok [OF assms(1), of status get] by blast
  have r: "u \<in> set (remove_loading_set c1)" using c1(4) assms(2,3) by auto
  have "p' = p" if "(u, p') \<in> set (loading_requests c)" for p'
    using eq_key_imp_eq_value [OF scenes_okD(5) [OF assms(1)] that assms(2)] .
  then have l1: "\<not> is_loading u c1" using scenes_okD(6) [OF c1(2)] assms(3) by (auto simp: is_loading_def c1(3))
  obtain c2 where c2: "scenes_ok c2" "request_scene acc u p c1 = Some (False, c2)" "set (loading_set c2) = set (loading_set c1)"
    "set (remove_loading_set c2) = set (remove_loading_set c1) - {u}"
    using request_scene_ok [OF c1(2), of u acc p] r by auto
  have l2: "\<not> is_loading u c2" using l1 c2(3) by (simp add: is_loading_def)
  obtain c3 where "request_scene acc u p c2 = Some (cached_scene u c2 \<noteq> None \<or> is_loading u c2 \<or> acc p, c3)"
    "set (loading_set c3) = set (loading_set c2) \<union> (if cached_scene u c2 = None \<and> acc p then {u} else {})"
    using request_scene_ok [OF c2(1), of u acc p] c2(4) by auto
  then show ?thesis using c1(1) c2(2) l1 l2 by (auto simp: is_loading_def)
qed

theorem failed_load_reported_once_witness:
  "\<exists>c c1 c2. request_scene (\<lambda>_. True) uuid_nil ''a.tscn'' (ObjectSceneCache_new 16 32 :: nat ObjectSceneCache) = Some (True, c) \<and>
    update (\<lambda>_. LoadFailed) (\<lambda>_. None) c = Some c1 \<and> request_scene (\<lambda>_. True) uuid_nil ''a.tscn'' c1 = Some (False, c2)"
proof -
  let ?c0 = "ObjectSceneCache_new 16 32 :: nat ObjectSceneCache"
  have "uuid_nil \<notin> set (remove_loading_set ?c0)" by (simp add: ObjectSceneCache_new_def)
  then obtain c where c: "scenes_ok c" "request_scene (\<lambda>_. True) uuid_nil ''a.tscn'' ?c0 = Some (True, c)"
    using request_scene_ok [where u = uuid_nil and acc = "\<lambda>_. True" and p = "''a.tscn''" and c = ?c0] by auto
  then have "(uuid_nil, ''a.tscn'') \<in> set (loading_requests c)"
    by (auto simp: request_scene_def ObjectSceneCache_new_def get_scene_def TryGet_def GetInternal_def FindElem_def
        lru_cache_new_def cache_new_def)
  from failed_load_reported_once [OF c(1) this, of "\<lambda>_. LoadFailed"] show ?thesis using c(2) by blast
qed

text \<open>A released node is handed back. The node given to \<open>release\<close> is what the next \<open>acquire\<close> of the
  identifier returns while it is usable, and the cache gives it away: it holds it no longer, so no two
  callers get the same node and no eviction frees it.\<close>

theorem released_node_comes_back:
  assumes "scenes_ok c" "n \<noteq> 0" "usable n"
  shows "\<exists>c1 c2. release u n c = Some c1 \<and> acquire usable inst u c1 w = Some (n, c2, w) \<and>
    FindElem (node_cache c2) u = None \<and> scenes_ok c2"
proof -
  obtain c1 where c1: "release u n c = Some c1" "scenes_ok c1" "FindElem (node_cache c1) u = Some n"
    using release_ok [OF assms(1), of u n] assms(2) by blast
  then show ?thesis using acquire_ok [OF c1(2), of u usable inst w] assms(2,3) by auto
qed

theorem released_node_comes_back_witness:
  "\<exists>c1 c2. release uuid_nil 7 (ObjectSceneCache_new 16 32) = Some c1 \<and>
    acquire (\<lambda>_. True) (\<lambda>_ w. (0, w)) uuid_nil c1 () = Some (7, c2, ())"
  using released_node_comes_back [OF scenes_ok_new, of 7 "\<lambda>_. True" uuid_nil 16 32 "\<lambda>_ w. (0, w)" "()"] by auto

end
