(* ===== verification/AsyncWorker.thy ===== *)
theory AsyncWorker
  imports Prelude
begin

text \<open>
  src/src/core/components/async_db_worker.{h,cpp}: the thread that owns the database and the queue in
  front of it. Every critical section of the code (under \<open>queue_mutex_\<close>) and every run of a task is
  one function on the state; the interleavings of the main thread and the worker thread are the
  inductive step relation, whose labels record what happened. A task's \<open>work\<close> is a function of the
  database that also gives the result its closure stores for \<open>on_complete\<close>; a callback is a value of
  any type. The condition variable needs no state: \<open>wait\<close> with a predicate is a section that is
  enabled when the predicate holds, and both writers of the predicate notify. Then: the registry of
  workers of \<open>make_db\<close>.
\<close>

section \<open>The queue and the thread\<close>

record ('d, 'r, 'm) Task =
  work :: "('d \<Rightarrow> 'd \<times> 'r) option"
  on_complete :: "('r \<Rightarrow> 'm) option"
  result_init :: 'r

text \<open>Where the worker thread stands: before \<open>wait\<close>, with a task it took, after the work of the task, or
  returned from \<open>thread_loop\<close>.\<close>

datatype ('d, 'r, 'm) thread_phase = Waiting | Holding "('d, 'r, 'm) Task" | Worked "('d, 'r, 'm) Task" 'r | Exited

record ('d, 'r, 'm) AsyncDbWorker =
  db_state :: 'd
  task_queue :: "('d, 'r, 'm) Task list"
  completed_callbacks :: "'m list"
  stop :: bool
  thread_phase :: "('d, 'r, 'm) thread_phase"

definition AsyncDbWorker_new :: "'d \<Rightarrow> ('d, 'r, 'm) AsyncDbWorker" where
  "AsyncDbWorker_new d = \<lparr>db_state = d, task_queue = [], completed_callbacks = [], stop = False,
     thread_phase = Waiting\<rparr>"

definition push_task :: "('d, 'r, 'm) Task \<Rightarrow> ('d, 'r, 'm) AsyncDbWorker \<Rightarrow> ('d, 'r, 'm) AsyncDbWorker" where
  "push_task t s = s\<lparr>task_queue := task_queue s @ [t]\<rparr>"

text \<open>The section of \<open>_notification\<close> and of the destructor.\<close>

definition request_stop :: "('d, 'r, 'm) AsyncDbWorker \<Rightarrow> ('d, 'r, 'm) AsyncDbWorker" where
  "request_stop s = s\<lparr>stop := True\<rparr>"

text \<open>\<open>_flush_callbacks\<close>: the callbacks it runs, in order, and the state after the swap.\<close>

definition flush_callbacks :: "('d, 'r, 'm) AsyncDbWorker \<Rightarrow> 'm list \<times> ('d, 'r, 'm) AsyncDbWorker" where
  "flush_callbacks s = (completed_callbacks s, s\<lparr>completed_callbacks := []\<rparr>)"

text \<open>The three parts of one round of \<open>thread_loop\<close>: take a task or return, run it, file its callback.\<close>

definition wait_done :: "('d, 'r, 'm) AsyncDbWorker \<Rightarrow> bool" where
  "wait_done s \<longleftrightarrow> stop s \<or> task_queue s \<noteq> []"

definition take_task :: "('d, 'r, 'm) AsyncDbWorker \<Rightarrow> ('d, 'r, 'm) AsyncDbWorker" where
  "take_task s = (case task_queue s of [] \<Rightarrow> s\<lparr>thread_phase := Exited\<rparr>
     | task # rest \<Rightarrow> s\<lparr>task_queue := rest, thread_phase := Holding task\<rparr>)"

definition run_work :: "('d, 'r, 'm) Task \<Rightarrow> 'd \<Rightarrow> 'd \<times> 'r" where
  "run_work task d = (case work task of None \<Rightarrow> (d, result_init task) | Some f \<Rightarrow> f d)"

definition do_work :: "('d, 'r, 'm) Task \<Rightarrow> ('d, 'r, 'm) AsyncDbWorker \<Rightarrow> ('d, 'r, 'm) AsyncDbWorker" where
  "do_work task s = (let (d, r) = run_work task (db_state s) in s\<lparr>db_state := d, thread_phase := Worked task r\<rparr>)"

definition callback_of :: "('d, 'r, 'm) Task \<Rightarrow> 'r \<Rightarrow> 'm list" where
  "callback_of task r = (case on_complete task of None \<Rightarrow> [] | Some f \<Rightarrow> [f r])"

definition complete_task :: "('d, 'r, 'm) Task \<Rightarrow> 'r \<Rightarrow> ('d, 'r, 'm) AsyncDbWorker \<Rightarrow> ('d, 'r, 'm) AsyncDbWorker" where
  "complete_task task r s = s\<lparr>completed_callbacks := completed_callbacks s @ callback_of task r, thread_phase := Waiting\<rparr>"

text \<open>\<open>thread_loop\<close> once \<open>stop_\<close> is set and nobody pushes any more, which is what \<open>join\<close> waits for.\<close>

function thread_loop :: "('d, 'r, 'm) AsyncDbWorker \<Rightarrow> ('d, 'r, 'm) AsyncDbWorker" where
  "thread_loop s = (case task_queue s of [] \<Rightarrow> take_task s
     | task # rest \<Rightarrow>
        (let s1 = do_work task (take_task s)
         in thread_loop (complete_task task (snd (run_work task (db_state s))) s1)))"
  by pat_completeness auto
termination
  by (relation "measure (\<lambda>s. length (task_queue s))")
    (auto simp: do_work_def take_task_def complete_task_def split_beta Let_def)

declare thread_loop.simps [simp del]

section \<open>Interleavings\<close>

datatype ('d, 'r, 'm) worker_event = Push "('d, 'r, 'm) Task" | Stop | Flush "'m list"
  | Take | Exit | Work "('d, 'r, 'm) Task" 'r | Complete

inductive worker_step :: "('d, 'r, 'm) AsyncDbWorker \<Rightarrow> ('d, 'r, 'm) worker_event \<Rightarrow> ('d, 'r, 'm) AsyncDbWorker \<Rightarrow> bool" where
  push: "worker_step s (Push t) (push_task t s)"
| stop: "worker_step s Stop (request_stop s)"
| flush: "flush_callbacks s = (ms, s') \<Longrightarrow> worker_step s (Flush ms) s'"
| take: "thread_phase s = Waiting \<Longrightarrow> wait_done s \<Longrightarrow> task_queue s \<noteq> [] \<Longrightarrow> worker_step s Take (take_task s)"
| exit: "thread_phase s = Waiting \<Longrightarrow> wait_done s \<Longrightarrow> task_queue s = [] \<Longrightarrow> worker_step s Exit (take_task s)"
| work: "thread_phase s = Holding t \<Longrightarrow> worker_step s (Work t (snd (run_work t (db_state s)))) (do_work t s)"
| complete: "thread_phase s = Worked t r \<Longrightarrow> worker_step s Complete (complete_task t r s)"

inductive_cases push_stepE: "worker_step s (Push t) s'"
inductive_cases stop_stepE: "worker_step s Stop s'"
inductive_cases flush_stepE: "worker_step s (Flush ms) s'"
inductive_cases take_stepE: "worker_step s Take s'"
inductive_cases exit_stepE: "worker_step s Exit s'"
inductive_cases work_stepE: "worker_step s (Work t r) s'"
inductive_cases complete_stepE: "worker_step s Complete s'"

lemmas stepE = push_stepE stop_stepE flush_stepE take_stepE exit_stepE work_stepE complete_stepE

text \<open>Runs from a state, the newest event last.\<close>

inductive worker_run :: "('d, 'r, 'm) AsyncDbWorker \<Rightarrow> ('d, 'r, 'm) worker_event list \<Rightarrow> ('d, 'r, 'm) AsyncDbWorker \<Rightarrow> bool" where
  start: "worker_run s [] s"
| step: "worker_run s tr s' \<Longrightarrow> worker_step s' e s'' \<Longrightarrow> worker_run s (tr @ [e]) s''"

definition pushed :: "('d, 'r, 'm) worker_event list \<Rightarrow> ('d, 'r, 'm) Task list" where
  "pushed tr = concat (map (\<lambda>e. case e of Push t \<Rightarrow> [t] | _ \<Rightarrow> []) tr)"

definition executed :: "('d, 'r, 'm) worker_event list \<Rightarrow> ('d, 'r, 'm) Task list" where
  "executed tr = concat (map (\<lambda>e. case e of Work t r \<Rightarrow> [t] | _ \<Rightarrow> []) tr)"

definition flushed :: "('d, 'r, 'm) worker_event list \<Rightarrow> 'm list" where
  "flushed tr = concat (map (\<lambda>e. case e of Flush ms \<Rightarrow> ms | _ \<Rightarrow> []) tr)"

text \<open>The specification: the tasks run one after the other, with nobody else.\<close>

fun run_all :: "('d, 'r, 'm) Task list \<Rightarrow> 'd \<Rightarrow> 'd" where
  "run_all [] d = d"
| "run_all (t # ts) d = run_all ts (fst (run_work t d))"

fun callbacks_all :: "('d, 'r, 'm) Task list \<Rightarrow> 'd \<Rightarrow> 'm list" where
  "callbacks_all [] d = []"
| "callbacks_all (t # ts) d = callback_of t (snd (run_work t d)) @ callbacks_all ts (fst (run_work t d))"

lemma run_all_append [simp]: "run_all (ts @ us) d = run_all us (run_all ts d)"
  by (induction ts arbitrary: d) auto

lemma callbacks_all_append [simp]: "callbacks_all (ts @ us) d = callbacks_all ts d @ callbacks_all us (run_all ts d)"
  by (induction ts arbitrary: d) auto

lemma trace_simps [simp]: "pushed [] = []" "executed [] = []" "flushed [] = []"
  "pushed (tr @ [e]) = pushed tr @ (case e of Push t \<Rightarrow> [t] | _ \<Rightarrow> [])"
  "executed (tr @ [e]) = executed tr @ (case e of Work t r \<Rightarrow> [t] | _ \<Rightarrow> [])"
  "flushed (tr @ [e]) = flushed tr @ (case e of Flush ms \<Rightarrow> ms | _ \<Rightarrow> [])"
  by (simp_all add: pushed_def executed_def flushed_def)

definition in_hand :: "('d, 'r, 'm) AsyncDbWorker \<Rightarrow> ('d, 'r, 'm) Task list" where
  "in_hand s = (case thread_phase s of Holding t \<Rightarrow> [t] | _ \<Rightarrow> [])"

definition to_file :: "('d, 'r, 'm) AsyncDbWorker \<Rightarrow> 'm list" where
  "to_file s = (case thread_phase s of Worked t r \<Rightarrow> callback_of t r | _ \<Rightarrow> [])"

lemmas worker_ops = push_task_def request_stop_def flush_callbacks_def take_task_def do_work_def complete_task_def
  in_hand_def to_file_def split_beta Let_def

lemma worker_run_invariant:
  assumes "worker_run (AsyncDbWorker_new d) tr s"
  shows "pushed tr = executed tr @ in_hand s @ task_queue s \<and> db_state s = run_all (executed tr) d \<and>
    flushed tr @ completed_callbacks s @ to_file s = callbacks_all (executed tr) d"
  using assms
proof (induction "AsyncDbWorker_new d :: ('a, 'b, 'c) AsyncDbWorker" tr s rule: worker_run.induct)
  case start
  then show ?case by (simp add: AsyncDbWorker_new_def in_hand_def to_file_def)
next
  case (step tr s e s')
  note ih = step.hyps(2)
  show ?case
    using step.hyps(3) ih
    by (cases e) (auto elim!: stepE simp: worker_ops split: list.splits thread_phase.splits)
qed

text \<open>C10: First in, first out, exactly once. However the main thread and the worker interleave, the tasks
  that have run are the first tasks that were pushed, in that order and each once; the database is as
  if they had run alone one after the other; and the callbacks that have run, those waiting to be
  flushed and the one about to be filed are exactly theirs, in the same order.\<close>

theorem worker_fifo_exactly_once:
  assumes "worker_run (AsyncDbWorker_new d) tr s"
  shows "pushed tr = executed tr @ in_hand s @ task_queue s \<and> db_state s = run_all (executed tr) d \<and>
    flushed tr @ completed_callbacks s @ to_file s = callbacks_all (executed tr) d"
  by (rule worker_run_invariant [OF assms])

definition demo_task :: "(nat, nat, nat) Task" where
  "demo_task = \<lparr>work = Some (\<lambda>d. (d + 1, d)), on_complete = Some (\<lambda>r. r), result_init = 0\<rparr>"

lemma demo_run: "worker_run (AsyncDbWorker_new 4) [Push demo_task, Take, Work demo_task 4]
   \<lparr>db_state = 5, task_queue = [], completed_callbacks = [], stop = False, thread_phase = Worked demo_task 4\<rparr>"
proof -
  let ?s0 = "AsyncDbWorker_new 4 :: (nat, nat, nat) AsyncDbWorker"
  have "worker_run ?s0 ([] @ [Push demo_task]) (push_task demo_task ?s0)" by (rule worker_run.step [OF worker_run.start worker_step.push])
  moreover have "worker_step (push_task demo_task ?s0) Take (take_task (push_task demo_task ?s0))"
    by (rule worker_step.take) (simp_all add: push_task_def AsyncDbWorker_new_def wait_done_def)
  moreover have "worker_step (take_task (push_task demo_task ?s0)) (Work demo_task 4) (do_work demo_task (take_task (push_task demo_task ?s0)))"
    using worker_step.work [of "take_task (push_task demo_task ?s0)" demo_task]
    by (simp add: push_task_def AsyncDbWorker_new_def take_task_def run_work_def demo_task_def)
  ultimately have "worker_run ?s0 (([] @ [Push demo_task]) @ [Take] @ [Work demo_task 4]) (do_work demo_task (take_task (push_task demo_task ?s0)))"
    by (metis append.assoc worker_run.step)
  then show ?thesis
    by (simp add: push_task_def AsyncDbWorker_new_def take_task_def do_work_def run_work_def demo_task_def)
qed

theorem worker_fifo_exactly_once_witness:
  "\<exists>s. worker_run (AsyncDbWorker_new 4) [Push demo_task, Take, Work demo_task 4] s \<and>
    db_state s = run_all [demo_task] 4 \<and> completed_callbacks s @ to_file s = callbacks_all [demo_task] 4"
  using demo_run worker_fifo_exactly_once [OF demo_run] by (auto simp: executed_def flushed_def)


section \<open>Stopping\<close>

fun by_worker :: "('d, 'r, 'm) worker_event \<Rightarrow> bool" where
  "by_worker (Push t) = False"
| "by_worker Stop = False"
| "by_worker (Flush ms) = False"
| "by_worker _ = True"

definition work_left :: "('d, 'r, 'm) AsyncDbWorker \<Rightarrow> nat" where
  "work_left s = 3 * length (task_queue s) +
     (case thread_phase s of Waiting \<Rightarrow> 1 | Holding t \<Rightarrow> 3 | Worked t r \<Rightarrow> 2 | Exited \<Rightarrow> 0)"

lemma worker_step_decreases: "worker_step s e s' \<Longrightarrow> by_worker e \<Longrightarrow> work_left s' < work_left s"
  by (cases e) (auto elim!: stepE simp: worker_ops work_left_def split: list.splits)

lemma worker_step_enabled:
  assumes "thread_phase s \<noteq> Exited" "wait_done s"
  obtains e s' where "worker_step s e s'" "by_worker e"
proof (cases "thread_phase s")
  case Waiting
  then show ?thesis using that worker_step.take [of s] worker_step.exit [of s] assms(2) by (cases "task_queue s = []") auto
next
  case (Holding t)
  then show ?thesis using that worker_step.work by fastforce
next
  case (Worked t r)
  then show ?thesis using that worker_step.complete by fastforce
qed (use assms in simp)

lemma worker_step_stop: "worker_step s e s' \<Longrightarrow> by_worker e \<Longrightarrow> stop s' = stop s"
  by (cases e) (auto elim!: stepE simp: worker_ops split: list.splits)

lemma exited_empty: "worker_step s e s' \<Longrightarrow> by_worker e \<Longrightarrow> thread_phase s' = Exited \<Longrightarrow> task_queue s' = []"
  by (cases e) (auto elim!: stepE simp: worker_ops split: list.splits)

lemma stopped_worker_returns:
  assumes "worker_run (AsyncDbWorker_new d) tr s" "stop s" "thread_phase s \<noteq> Exited"
  shows "\<exists>tr' s'. worker_run (AsyncDbWorker_new d) (tr @ tr') s' \<and> list_all by_worker tr' \<and>
    thread_phase s' = Exited \<and> task_queue s' = []"
  using assms
proof (induction "work_left s" arbitrary: tr s rule: less_induct)
  case less
  obtain e s1 where e: "worker_step s e s1" "by_worker e"
    using worker_step_enabled [OF less.prems(3)] less.prems(2) by (auto simp: wait_done_def)
  have r1: "worker_run (AsyncDbWorker_new d) (tr @ [e]) s1" using worker_run.step [OF less.prems(1) e(1)] .
  show ?case
  proof (cases "thread_phase s1 = Exited")
    case True
    then show ?thesis using r1 e exited_empty [OF e] by (intro exI [of _ "[e]"]) auto
  next
    case False
    obtain tr' s' where "worker_run (AsyncDbWorker_new d) ((tr @ [e]) @ tr') s'" "list_all by_worker tr'"
      "thread_phase s' = Exited" "task_queue s' = []"
      using less.hyps [OF worker_step_decreases [OF e] r1] False worker_step_stop [OF e] less.prems(2) by blast
    then show ?thesis using e(2) by (intro exI [of _ "e # tr'"]) auto
  qed
qed

lemma pushed_worker: "list_all by_worker tr \<Longrightarrow> pushed tr = []"
proof (induction tr)
  case (Cons e tr)
  then show ?case by (cases e) (auto simp: pushed_def)
qed simp

lemma pushed_append [simp]: "pushed (tr @ us) = pushed tr @ pushed us"
  by (simp add: pushed_def)

lemma in_hand_Exited: "thread_phase s = Exited \<Longrightarrow> in_hand s = [] \<and> to_file s = []"
  by (simp add: in_hand_def to_file_def)

text \<open>C11: Stopping loses no task. A worker that is told to stop is never stuck before it has returned, each
  of its steps brings it closer, and it returns after having run every task that was pushed before:
  the database then is the result of all of them, in order.\<close>

theorem stop_drains_queue:
  assumes "worker_run (AsyncDbWorker_new d) tr s" "stop s" "thread_phase s \<noteq> Exited"
  shows "(\<exists>e s'. worker_step s e s' \<and> by_worker e) \<and>
    (\<forall>e s'. worker_step s e s' \<and> by_worker e \<longrightarrow> work_left s' < work_left s) \<and>
    (\<exists>tr' s'. worker_run (AsyncDbWorker_new d) (tr @ tr') s' \<and> list_all by_worker tr' \<and> thread_phase s' = Exited \<and>
      executed (tr @ tr') = pushed tr \<and> db_state s' = run_all (pushed tr) d)"
proof (intro conjI)
  have "wait_done s" using assms(2) by (simp add: wait_done_def)
  then obtain e s' where "worker_step s e s'" "by_worker e" by (rule worker_step_enabled [OF assms(3)])
  then show "\<exists>e s'. worker_step s e s' \<and> by_worker e" by blast
  show "\<forall>e s'. worker_step s e s' \<and> by_worker e \<longrightarrow> work_left s' < work_left s" using worker_step_decreases by blast
  obtain tr' s' where r: "worker_run (AsyncDbWorker_new d) (tr @ tr') s'" "list_all by_worker tr'"
    "thread_phase s' = Exited" "task_queue s' = []" using stopped_worker_returns [OF assms] by blast
  then show "\<exists>tr' s'. worker_run (AsyncDbWorker_new d) (tr @ tr') s' \<and> list_all by_worker tr' \<and> thread_phase s' = Exited \<and>
      executed (tr @ tr') = pushed tr \<and> db_state s' = run_all (pushed tr) d"
    using worker_run_invariant [OF r(1)] pushed_worker [OF r(2)] in_hand_Exited [OF r(3)]
    by (intro exI [of _ tr'] exI [of _ s']) simp
qed

theorem stop_drains_queue_witness:
  "\<exists>tr' s'. worker_run (AsyncDbWorker_new 4) (([Push demo_task, Take, Work demo_task 4] @ [Stop]) @ tr') s' \<and>
    thread_phase s' = Exited \<and> db_state s' = run_all [demo_task] 4"
proof -
  have r: "worker_run (AsyncDbWorker_new 4) ([Push demo_task, Take, Work demo_task 4] @ [Stop])
     (request_stop \<lparr>db_state = 5, task_queue = [], completed_callbacks = [], stop = False, thread_phase = Worked demo_task 4\<rparr>)"
    by (rule worker_run.step [OF demo_run worker_step.stop])
  have p: "pushed ([Push demo_task, Take, Work demo_task 4] @ [Stop]) = [demo_task]" by (simp add: pushed_def)
  show ?thesis using stop_drains_queue [OF r] unfolding p by (auto simp: request_stop_def)
qed

text \<open>The loop of the stopped thread, run by itself, is the specification.\<close>

lemma thread_loop_spec: "thread_loop s = s\<lparr>db_state := run_all (task_queue s) (db_state s), task_queue := [],
    completed_callbacks := completed_callbacks s @ callbacks_all (task_queue s) (db_state s), thread_phase := Exited\<rparr>"
proof (induction s rule: thread_loop.induct)
  case (1 s)
  show ?case
  proof (cases "task_queue s")
    case Nil
    then show ?thesis by (subst thread_loop.simps) (simp add: take_task_def)
  next
    case (Cons t rest)
    show ?thesis using 1 [OF Cons refl] Cons
      by (subst thread_loop.simps) (simp add: worker_ops)
  qed
qed

text \<open>The joined thread. From the moment no other thread acts, the loop of a worker that was told to
  stop ends, having run the rest of the queue in order and filed its callbacks behind those before.\<close>

theorem thread_loop_drains:
  "db_state (thread_loop (request_stop s)) = run_all (task_queue s) (db_state s) \<and>
   task_queue (thread_loop (request_stop s)) = [] \<and> thread_phase (thread_loop (request_stop s)) = Exited \<and>
   completed_callbacks (thread_loop (request_stop s)) = completed_callbacks s @ callbacks_all (task_queue s) (db_state s)"
  by (simp add: thread_loop_spec request_stop_def)

section \<open>The end of a worker\<close>

text \<open>\<open>NOTIFICATION_PREDELETE\<close>, which the destructor repeats on a thread that is joined already: the thread finishes
  the round it is in, then the loop of the stopped thread runs out while the main thread waits in
  \<open>join\<close>. Nobody flushes any more.\<close>

definition finish_round :: "('d, 'r, 'm) AsyncDbWorker \<Rightarrow> ('d, 'r, 'm) AsyncDbWorker" where
  "finish_round s = (case thread_phase s of Waiting \<Rightarrow> s
     | Holding t \<Rightarrow> complete_task t (snd (run_work t (db_state s))) (do_work t s)
     | Worked t r \<Rightarrow> complete_task t r s
     | Exited \<Rightarrow> s)"

definition worker_predelete :: "('d, 'r, 'm) AsyncDbWorker \<Rightarrow> ('d, 'r, 'm) AsyncDbWorker" where
  "worker_predelete s = (let s = request_stop s
     in if thread_phase s = Exited then s else thread_loop (finish_round s))"

text \<open>Whatever the thread does before the main thread waits, the end is the same.\<close>

lemma predelete_step:
  assumes "worker_step s e s'" "by_worker e"
  shows "worker_predelete s' = worker_predelete s"
proof (cases e)
  case Take
  then show ?thesis using assms
    by (auto elim!: stepE simp: worker_predelete_def finish_round_def Let_def request_stop_def thread_loop_spec worker_ops split: list.splits)
next
  case Exit
  then show ?thesis using assms
    by (auto elim!: stepE simp: worker_predelete_def finish_round_def Let_def request_stop_def thread_loop_spec worker_ops)
next
  case (Work t r)
  then show ?thesis using assms
    by (auto elim!: stepE simp: worker_predelete_def finish_round_def Let_def thread_loop_spec worker_ops)
next
  case Complete
  then show ?thesis using assms
    by (auto elim!: stepE simp: worker_predelete_def finish_round_def Let_def thread_loop_spec worker_ops)
qed (use assms in simp_all)

lemma predelete_exited: "stop s \<Longrightarrow> thread_phase s = Exited \<Longrightarrow> worker_predelete s = s"
  by (simp add: worker_predelete_def request_stop_def)

text \<open>The joined worker: every task that was pushed has run, and the callbacks not yet flushed are those of the
  tasks not yet answered.\<close>

lemma predelete_run:
  assumes "worker_run (AsyncDbWorker_new d) tr s" "thread_phase s \<noteq> Exited"
  shows "db_state (worker_predelete s) = run_all (pushed tr) d \<and> task_queue (worker_predelete s) = [] \<and>
    thread_phase (worker_predelete s) = Exited \<and>
    flushed tr @ completed_callbacks (worker_predelete s) = callbacks_all (pushed tr) d"
  using worker_run_invariant [OF assms(1)] assms(2)
  by (cases "thread_phase s") (simp_all add: worker_predelete_def finish_round_def Let_def thread_loop_spec worker_ops)

section \<open>The registry of workers\<close>

text \<open>\<open>_db_worker_cache\<close> maps a path and mode to an instance id; \<open>live\<close> are the ids for which the engine
  still has a worker, \<open>next_id\<close> the id of the next object (the engine never reuses one).\<close>

record worker_registry =
  db_worker_cache :: "(string \<times> bool, nat) a_hashmap"
  live :: "nat set"
  next_id :: nat

definition make_db :: "string \<Rightarrow> bool \<Rightarrow> worker_registry \<Rightarrow> nat option \<times> worker_registry" where
  "make_db db_path read_only g = (if db_path = [] then (None, g)
     else (let key = (db_path, read_only) in
       case map_of (db_worker_cache g) key of
         Some i \<Rightarrow> if i \<in> live g then (Some i, g)
           else (Some (next_id g), g\<lparr>db_worker_cache := dm_put key (next_id g) (dm_erase key (db_worker_cache g)),
                  live := insert (next_id g) (live g), next_id := Suc (next_id g)\<rparr>)
       | None \<Rightarrow> (Some (next_id g), g\<lparr>db_worker_cache := dm_put key (next_id g) (db_worker_cache g),
                  live := insert (next_id g) (live g), next_id := Suc (next_id g)\<rparr>)))"

text \<open>The last reference to a worker is dropped.\<close>

definition drop_worker :: "nat \<Rightarrow> worker_registry \<Rightarrow> worker_registry" where
  "drop_worker i g = g\<lparr>live := live g - {i}\<rparr>"

definition registry_ok :: "worker_registry \<Rightarrow> bool" where
  "registry_ok g \<longleftrightarrow> dm_inv (db_worker_cache g) \<and> (\<forall>i \<in> live g. i < next_id g) \<and>
     (\<forall>k i. map_of (db_worker_cache g) k = Some i \<longrightarrow> i < next_id g) \<and>
     (\<forall>k k' i. map_of (db_worker_cache g) k = Some i \<and> map_of (db_worker_cache g) k' = Some i \<longrightarrow> k = k')"

lemma make_db_ok:
  assumes "registry_ok g"
  shows "registry_ok (snd (make_db p ro g)) \<and> next_id g \<le> next_id (snd (make_db p ro g)) \<and>
    (\<forall>k i. map_of (db_worker_cache g) k = Some i \<and> i \<in> live g \<longrightarrow>
       map_of (db_worker_cache (snd (make_db p ro g))) k = Some i \<and> i \<in> live (snd (make_db p ro g))) \<and>
    (p \<noteq> [] \<longrightarrow> (\<exists>i. fst (make_db p ro g) = Some i \<and> i \<in> live (snd (make_db p ro g)) \<and>
       map_of (db_worker_cache (snd (make_db p ro g))) (p, ro) = Some i \<and>
       (map_of (db_worker_cache g) (p, ro) = Some i \<or> i = next_id g)))"
proof (cases "p = []")
  case True
  then show ?thesis using assms by (simp add: make_db_def)
next
  case False
  show ?thesis
  proof (cases "map_of (db_worker_cache g) (p, ro)")
    case None
    then show ?thesis using assms False by (auto simp: make_db_def registry_ok_def Let_def less_Suc_eq split: if_splits)
  next
    case (Some i)
    then show ?thesis using assms False by (auto simp: make_db_def registry_ok_def Let_def less_Suc_eq split: if_splits)
  qed
qed

lemma make_db_dead: "p \<noteq> [] \<Longrightarrow> map_of (db_worker_cache g) (p, ro) = Some i \<Longrightarrow> i \<notin> live g \<Longrightarrow>
    fst (make_db p ro g) = Some (next_id g)"
  by (simp add: make_db_def Let_def)

text \<open>One worker per database. \<open>make_db\<close> answers null exactly for the empty path; while the worker it
  made for a path and mode is alive every later call for them returns that worker, a call for another
  path or mode returns another one, and after the worker is gone a new one is made.\<close>

theorem make_db_unique:
  assumes "registry_ok g" "p \<noteq> []" "q \<noteq> []"
  shows "\<exists>i j. fst (make_db p ro g) = Some i \<and> fst (make_db q rw (snd (make_db p ro g))) = Some j \<and>
    (i = j \<longleftrightarrow> (p, ro) = (q, rw)) \<and> fst (make_db [] ro g) = None \<and>
    (\<exists>k. fst (make_db p ro (drop_worker i (snd (make_db p ro g)))) = Some k \<and> k \<noteq> i)"
proof -
  let ?g1 = "snd (make_db p ro g)" and ?g2 = "snd (make_db q rw (snd (make_db p ro g)))"
  obtain i where i: "fst (make_db p ro g) = Some i" "i \<in> live ?g1" "map_of (db_worker_cache ?g1) (p, ro) = Some i"
    and ok1: "registry_ok ?g1" using make_db_ok [OF assms(1), of p ro] assms(2) by blast
  obtain j where j: "fst (make_db q rw ?g1) = Some j" "map_of (db_worker_cache ?g2) (q, rw) = Some j"
    and ok2: "registry_ok ?g2" and keep: "map_of (db_worker_cache ?g2) (p, ro) = Some i"
    using make_db_ok [OF ok1, of q rw] assms(3) i(2,3) by blast
  have "i = j \<longleftrightarrow> (p, ro) = (q, rw)"
  proof
    assume "i = j"
    then show "(p, ro) = (q, rw)" using ok2 j(2) keep unfolding registry_ok_def by blast
  next
    assume "(p, ro) = (q, rw)"
    then show "i = j" using j(2) keep by simp
  qed
  moreover have "i < next_id ?g1" using ok1 i(3) by (auto simp: registry_ok_def)
  then have "\<exists>k. fst (make_db p ro (drop_worker i ?g1)) = Some k \<and> k \<noteq> i"
    using make_db_dead [OF assms(2), of "drop_worker i ?g1" ro i] i(3) by (auto simp: drop_worker_def)
  moreover have "fst (make_db [] ro g) = None" by (simp add: make_db_def)
  ultimately show ?thesis using i(1) j(1) by blast
qed

theorem make_db_unique_witness:
  "\<exists>i j. fst (make_db ''a.db'' False \<lparr>db_worker_cache = [], live = {}, next_id = 1\<rparr>) = Some i \<and>
    fst (make_db ''a.db'' True (snd (make_db ''a.db'' False \<lparr>db_worker_cache = [], live = {}, next_id = 1\<rparr>))) = Some j \<and> i \<noteq> j"
  using make_db_unique [of "\<lparr>db_worker_cache = [], live = {}, next_id = 1\<rparr>" "''a.db''" "''a.db''" False True]
  by (auto simp: registry_ok_def)

end
