(* ===== verification/StreamNodes.thy ===== *)
theory StreamNodes
  imports Chunk Uuid
begin

text \<open>
  src/src/core/stream/stream_object.{h,cpp} and stream_world_probe.{h,cpp}: the nodes of the scene tree
  that the manager streams, and the probes that say where. What the engine tells them (the parent,
  the visual instances behind a path, the global position, whether a node is inside the tree and
  visible, the node behind a path) are arguments; what they tell the manager they hold is the result.
\<close>

section \<open>Objects\<close>

record StreamObjectNode =
  instance_id :: nat
  obj_uuid :: uuid
  obj_parent_uuid :: uuid
  aabb_sources :: "string list"
  notify_transform :: bool
  obj_manager :: "nat option"

text \<open>\<open>parent_manager\<close> is the parent when it is a \<open>StreamManager\<close>.\<close>

definition object_enter_tree :: "nat option \<Rightarrow> StreamObjectNode \<Rightarrow> StreamObjectNode" where
  "object_enter_tree parent_manager n = (case parent_manager of
       Some m \<Rightarrow> n\<lparr>notify_transform := True, obj_manager := Some m\<rparr>
     | None \<Rightarrow> n\<lparr>notify_transform := True\<rparr>)"

definition object_exit_tree :: "StreamObjectNode \<Rightarrow> StreamObjectNode" where
  "object_exit_tree n = n\<lparr>notify_transform := False, obj_manager := None\<rparr>"

text \<open>The managers whose \<open>on_object_aabb_changed\<close> is called with the node.\<close>

definition object_notification :: "bool \<Rightarrow> StreamObjectNode \<Rightarrow> nat list" where
  "object_notification transform_changed n = (if transform_changed
     then (case obj_manager n of Some m \<Rightarrow> [m] | None \<Rightarrow> []) else [])"

definition aabb_merge :: "AABB \<Rightarrow> AABB \<Rightarrow> AABB" where
  "aabb_merge a p_with = merge_with a p_with"

text \<open>\<open>visual path\<close> is the local box and the global transform of the visual instance at the path, when there
  is one inside the tree.\<close>

definition object_get_aabb :: "Vector3 \<Rightarrow> (string \<Rightarrow> (AABB \<times> Transform3D) option) \<Rightarrow> StreamObjectNode \<Rightarrow> AABB" where
  "object_get_aabb global_position visual n =
     foldl (\<lambda>total path. case visual path of None \<Rightarrow> total
         | Some (local_aabb, transform) \<Rightarrow> aabb_merge total (transform_aabb local_aabb transform))
       (AABB global_position (Vector3 0 0 0)) (aabb_sources n)"

definition object_set_uuid :: "uuid \<Rightarrow> StreamObjectNode \<Rightarrow> StreamObjectNode" where
  "object_set_uuid u n = n\<lparr>obj_uuid := u\<rparr>"

definition object_set_parent_uuid :: "uuid \<Rightarrow> StreamObjectNode \<Rightarrow> StreamObjectNode" where
  "object_set_parent_uuid u n = n\<lparr>obj_parent_uuid := u\<rparr>"

definition set_uuid_str :: "string \<Rightarrow> StreamObjectNode \<Rightarrow> StreamObjectNode" where
  "set_uuid_str s n = (case from_string s of Some u \<Rightarrow> object_set_uuid u n | None \<Rightarrow> n)"

definition set_parent_uuid_str :: "string \<Rightarrow> StreamObjectNode \<Rightarrow> StreamObjectNode" where
  "set_parent_uuid_str s n = (case from_string s of Some u \<Rightarrow> object_set_parent_uuid u n | None \<Rightarrow> n)"

definition get_uuid_str :: "StreamObjectNode \<Rightarrow> string" where
  "get_uuid_str n = to_string (obj_uuid n)"

definition get_parent_uuid_str :: "StreamObjectNode \<Rightarrow> string" where
  "get_parent_uuid_str n = to_string (obj_parent_uuid n)"

text \<open>Saved identifiers. The strings the scene file stores for the two identifiers of an object restore
  them in a node of any state; a string that is no identifier leaves the node as it is.\<close>

theorem object_uuid_roundtrip:
  assumes "uuid_ok (obj_uuid n)" "uuid_ok (obj_parent_uuid n)"
  shows "let m = set_parent_uuid_str (get_parent_uuid_str n) (set_uuid_str (get_uuid_str n) n')
    in obj_uuid m = obj_uuid n \<and> obj_parent_uuid m = obj_parent_uuid n \<and> set_uuid_str ''zz'' n' = n'"
proof -
  have "from_string ''zz'' = None" by code_simp
  then show ?thesis using assms
    by (simp add: set_uuid_str_def get_uuid_str_def set_parent_uuid_str_def get_parent_uuid_str_def
        from_to_string object_set_uuid_def object_set_parent_uuid_def)
qed

definition demo_object :: StreamObjectNode where
  "demo_object = \<lparr>instance_id = 3, obj_uuid = replicate 16 7, obj_parent_uuid = uuid_nil, aabb_sources = [''Mesh''],
     notify_transform = False, obj_manager = None\<rparr>"

theorem object_uuid_roundtrip_witness:
  "obj_uuid (set_parent_uuid_str (get_parent_uuid_str demo_object) (set_uuid_str (get_uuid_str demo_object)
     (demo_object\<lparr>obj_uuid := uuid_nil\<rparr>))) = replicate 16 7"
  using object_uuid_roundtrip [of demo_object "demo_object\<lparr>obj_uuid := uuid_nil\<rparr>"]
  by (simp add: demo_object_def uuid_ok_def uuid_nil_def Let_def)

section \<open>The box of an object\<close>

lemma expand_all_box:
  assumes "near l" "near h" "\<forall>p \<in> set ps. near p"
  shows "foldl expand_to (box_of l h) (map vector_of ps) = box_of (foldl vmin l ps) (foldl vmax h ps) \<and>
    near (foldl vmin l ps) \<and> near (foldl vmax h ps)"
  using assms
proof (induction ps arbitrary: l h)
  case (Cons p ps)
  then show ?case using Cons.IH [of "vmin l p" "vmax h p"] by (simp add: expand_to_box)
qed simp

lemma vmin_le: "vle (vmin p q) p" "vle (vmin p q) q" "vle p (vmax p q)" "vle q (vmax p q)"
  by (simp_all add: vle_def vmin_def vmax_def)

lemma vle_trans: "vle p q \<Longrightarrow> vle q r \<Longrightarrow> vle p r"
  by (auto simp: vle_def)

lemma vle_refl [simp]: "vle p p"
  by (simp add: vle_def)

lemma vle_vmin: "vle r (vmin p q) \<longleftrightarrow> vle r p \<and> vle r q" and vmax_vle: "vle (vmax p q) r \<longleftrightarrow> vle p r \<and> vle q r"
  by (auto simp: vle_def vmin_def vmax_def)

lemma foldl_vmin: "vle r (foldl vmin l ps) \<longleftrightarrow> vle r l \<and> (\<forall>p \<in> set ps. vle r p)"
  by (induction ps arbitrary: l) (auto simp: vle_vmin)

lemma foldl_vmax: "vle (foldl vmax h ps) r \<longleftrightarrow> vle h r \<and> (\<forall>p \<in> set ps. vle p r)"
  by (induction ps arbitrary: h) (auto simp: vmax_vle)

lemma box_of_point: "AABB (vector_of p) (Vector3 0 0 0) = box_of p p"
  by (simp add: box_of_def)

lemma transform_aabb_corners:
  assumes "map (xform t) (aabb_vertices a) = map vector_of (p # ps)" "\<forall>q \<in> set (p # ps). near q"
  shows "transform_aabb a t = box_of (foldl vmin p ps) (foldl vmax p ps) \<and> near (foldl vmin p ps) \<and> near (foldl vmax p ps)"
proof -
  have v: "aabb_vertices a = hd (aabb_vertices a) # tl (aabb_vertices a)" by (simp add: aabb_vertices_def)
  then have hd: "xform t (hd (aabb_vertices a)) = vector_of p" and tl: "map (xform t) (tl (aabb_vertices a)) = map vector_of ps"
    using assms(1) by (metis list.simps(9) list.inject)+
  have "transform_aabb a t = foldl expand_to (box_of p p) (map (xform t) (tl (aabb_vertices a)))"
    unfolding transform_aabb_def hd box_of_point by (simp add: foldl_map)
  then show ?thesis using expand_all_box [of p p ps] assms(2) unfolding tl by simp
qed

lemma points_of:
  assumes "\<forall>v \<in> set vs. \<exists>p. near p \<and> v = vector_of p"
  obtains ps where "vs = map vector_of ps" "\<forall>p \<in> set ps. near p"
  using assms
proof (induction vs arbitrary: thesis)
  case (Cons v vs)
  obtain p where p: "near p" "v = vector_of p" using Cons.prems(2) by auto
  obtain ps where "vs = map vector_of ps" "\<forall>p \<in> set ps. near p" using Cons.IH Cons.prems(2) by auto
  then show ?case using p Cons.prems(1) [of "p # ps"] by simp
qed simp

text \<open>The world box of a visual instance. When the transform takes the corners of the local box to points
  with integer coordinates near the origin, \<open>transform_aabb\<close> returns the least box that holds them.\<close>

theorem transform_aabb_least:
  assumes "\<forall>v \<in> set (aabb_vertices a). \<exists>p. near p \<and> xform t v = vector_of p"
  shows "\<exists>l h. transform_aabb a t = box_of l h \<and> near l \<and> near h \<and>
    (\<forall>l' h'. vle l' l \<and> vle h h' \<longleftrightarrow> (\<forall>p. vector_of p \<in> xform t ` set (aabb_vertices a) \<longrightarrow> vle l' p \<and> vle p h'))"
proof -
  obtain qs where qs: "map (xform t) (aabb_vertices a) = map vector_of qs" "\<forall>q \<in> set qs. near q"
    using points_of [of "map (xform t) (aabb_vertices a)"] assms by auto
  then obtain p ps where q: "qs = p # ps" by (cases qs) (auto simp: aabb_vertices_def)
  have inj: "vector_of x = vector_of y \<longleftrightarrow> x = y" for x y by (cases x; cases y) (auto simp: vector_of_def)
  have "xform t ` set (aabb_vertices a) = vector_of ` set qs" using qs(1) by (metis image_set)
  then have "vector_of x \<in> xform t ` set (aabb_vertices a) \<longleftrightarrow> x \<in> set (p # ps)" for x
    unfolding q by (auto simp: inj)
  then show ?thesis using transform_aabb_corners [of t a p ps] qs unfolding q
    by (intro exI [of _ "foldl vmin p ps"] exI [of _ "foldl vmax p ps"]) (auto simp: foldl_vmin foldl_vmax)
qed

definition shift_by :: "int \<Rightarrow> Transform3D" where
  "shift_by i = \<lparr>basis0 = Vector3 1 0 0, basis1 = Vector3 0 1 0, basis2 = Vector3 0 0 1, origin = Vector3 (of_int i) 0 0\<rparr>"

lemma shift_corners: "map (xform (shift_by 10)) (aabb_vertices (box_of (Vector3i 0 0 0) (Vector3i 2 3 4))) = map vector_of
    [Vector3i 10 0 0, Vector3i 12 0 0, Vector3i 10 3 0, Vector3i 10 0 4, Vector3i 12 3 0, Vector3i 12 0 4, Vector3i 10 3 4, Vector3i 12 3 4]"
  by code_simp

theorem transform_aabb_least_witness:
  "\<exists>l h. transform_aabb (box_of (Vector3i 0 0 0) (Vector3i 2 3 4)) (shift_by 10) = box_of l h \<and>
    vle l (Vector3i 10 0 0) \<and> vle (Vector3i 12 3 4) h"
proof -
  let ?a = "box_of (Vector3i 0 0 0) (Vector3i 2 3 4)"
  let ?ps = "[Vector3i 10 0 0, Vector3i 12 0 0, Vector3i 10 3 0, Vector3i 10 0 4, Vector3i 12 3 0, Vector3i 12 0 4, Vector3i 10 3 4, Vector3i 12 3 4]"
  note m = shift_corners
  have "\<exists>p. near p \<and> xform (shift_by 10) v = vector_of p" if "v \<in> set (aabb_vertices ?a)" for v
  proof -
    have "xform (shift_by 10) v \<in> set (map vector_of ?ps)" using that unfolding m [symmetric] by simp
    then obtain p where "p \<in> set ?ps" "xform (shift_by 10) v = vector_of p" by auto
    moreover have "\<forall>p \<in> set ?ps. near p" by (simp add: near_def)
    ultimately show ?thesis by blast
  qed
  then obtain l h where lh: "transform_aabb ?a (shift_by 10) = box_of l h" "\<forall>l' h'. vle l' l \<and> vle h h' \<longleftrightarrow>
      (\<forall>p. vector_of p \<in> xform (shift_by 10) ` set (aabb_vertices ?a) \<longrightarrow> vle l' p \<and> vle p h')"
    using transform_aabb_least [of ?a "shift_by 10"] by blast
  have "vector_of p \<in> xform (shift_by 10) ` set (aabb_vertices ?a)" if "p \<in> set ?ps" for p
    using that arg_cong [OF m, of set] by (simp only: set_map) blast
  then have "vle l (Vector3i 10 0 0)" "vle (Vector3i 12 3 4) h" using lh(2) vle_refl by (meson list.set_intros)+
  then show ?thesis using lh(1) by blast
qed

text \<open>The boxes of the sources that resolve, in order.\<close>

definition source_boxes :: "(string \<Rightarrow> (AABB \<times> Transform3D) option) \<Rightarrow> StreamObjectNode \<Rightarrow> AABB list" where
  "source_boxes visual n = map (\<lambda>(a, t). transform_aabb a t) (List.map_filter visual (aabb_sources n))"

lemma get_aabb_sources:
  "object_get_aabb pos visual n = foldl aabb_merge (AABB pos (Vector3 0 0 0)) (source_boxes visual n)"
proof -
  have "foldl (\<lambda>total path. case visual path of None \<Rightarrow> total | Some (a, t) \<Rightarrow> aabb_merge total (transform_aabb a t)) x ps =
      foldl aabb_merge x (map (\<lambda>(a, t). transform_aabb a t) (List.map_filter visual ps))" for x ps
    by (induction ps arbitrary: x) (auto simp: map_filter_simps split: option.split)
  then show ?thesis by (simp add: object_get_aabb_def source_boxes_def)
qed

lemma merge_all_box:
  assumes "near l" "near h" "\<forall>(l', h') \<in> set bs. near l' \<and> near h'"
  shows "foldl aabb_merge (box_of l h) (map (\<lambda>(l, h). box_of l h) bs) =
     box_of (foldl vmin l (map fst bs)) (foldl vmax h (map snd bs)) \<and>
    near (foldl vmin l (map fst bs)) \<and> near (foldl vmax h (map snd bs))"
  using assms
proof (induction bs arbitrary: l h)
  case (Cons b bs)
  then show ?case using Cons.IH [of "vmin l (fst b)" "vmax h (snd b)"]
    by (cases b) (simp add: aabb_merge_def merge_with_box)
qed simp



section \<open>Probes\<close>

record StreamWorldProbe =
  probe_id :: nat
  probe_aabb :: AABB
  stream_manager_path :: string
  probe_manager :: "nat option"

text \<open>What the engine says at the moment of a call; \<open>resolve path\<close> is the manager at the path.\<close>

record probe_env =
  inside_tree :: bool
  visible_in_tree :: bool
  resolve :: "string \<Rightarrow> nat option"

datatype probe_call = OnLoadProbe nat nat | OnUnloadProbe nat nat

definition resolve_and_cache_manager :: "probe_env \<Rightarrow> StreamWorldProbe \<Rightarrow> StreamWorldProbe" where
  "resolve_and_cache_manager e p = (if stream_manager_path p = [] \<or> \<not> inside_tree e then p\<lparr>probe_manager := None\<rparr>
     else p\<lparr>probe_manager := resolve e (stream_manager_path p)\<rparr>)"

definition load_call :: "StreamWorldProbe \<Rightarrow> probe_call list" where
  "load_call p = (case probe_manager p of Some m \<Rightarrow> [OnLoadProbe m (probe_id p)] | None \<Rightarrow> [])"

definition unload_call :: "StreamWorldProbe \<Rightarrow> probe_call list" where
  "unload_call p = (case probe_manager p of Some m \<Rightarrow> [OnUnloadProbe m (probe_id p)] | None \<Rightarrow> [])"

definition probe_ready :: "probe_env \<Rightarrow> StreamWorldProbe \<Rightarrow> StreamWorldProbe \<times> probe_call list" where
  "probe_ready e p = (let p = resolve_and_cache_manager e p in (p, load_call p))"

definition probe_enter_tree :: "probe_env \<Rightarrow> StreamWorldProbe \<Rightarrow> StreamWorldProbe \<times> probe_call list" where
  "probe_enter_tree e p = (if visible_in_tree e
     then (let p = resolve_and_cache_manager e p in (p, load_call p)) else (p, []))"

definition probe_exit_tree :: "StreamWorldProbe \<Rightarrow> StreamWorldProbe \<times> probe_call list" where
  "probe_exit_tree p = (p\<lparr>probe_manager := None\<rparr>, unload_call p)"

definition on_visibility_changed :: "probe_env \<Rightarrow> StreamWorldProbe \<Rightarrow> StreamWorldProbe \<times> probe_call list" where
  "on_visibility_changed e p = (if \<not> inside_tree e then (p, [])
     else (let p = resolve_and_cache_manager e p
           in (p, if visible_in_tree e then load_call p else unload_call p)))"

definition probe_notification :: "bool \<Rightarrow> StreamWorldProbe \<Rightarrow> StreamWorldProbe" where
  "probe_notification predelete p = (if predelete then p\<lparr>probe_manager := None\<rparr> else p)"

definition probe_set_aabb :: "AABB \<Rightarrow> StreamWorldProbe \<Rightarrow> StreamWorldProbe" where
  "probe_set_aabb a p = p\<lparr>probe_aabb := a\<rparr>"

definition set_stream_manager_path :: "probe_env \<Rightarrow> string \<Rightarrow> StreamWorldProbe \<Rightarrow> StreamWorldProbe \<times> probe_call list" where
  "set_stream_manager_path e path p = (let p = resolve_and_cache_manager e (p\<lparr>stream_manager_path := path\<rparr>)
     in (p, if visible_in_tree e \<and> inside_tree e then load_call p else []))"

definition get_global_aabb :: "Vector3 \<Rightarrow> StreamWorldProbe \<Rightarrow> AABB" where
  "get_global_aabb global_position p = (let a = probe_aabb p
     in AABB (position a + global_position - divide_by (extent a) 2) (extent a))"

text \<open>The box a probe asks for. The box of a probe is centred: with integer data near the origin and even
  sides \<open>2 h\<close> it is the box around the sum of its own position and the position of the node, of the same size.\<close>

theorem probe_box_centred:
  assumes "near c" "near g" "near h" "near (Vector3i (ix c + ix g) (iy c + iy g) (iz c + iz g))"
    "probe_aabb p = AABB (vector_of c) (Vector3 (of_int (2 * ix h)) (of_int (2 * iy h)) (of_int (2 * iz h)))"
  shows "get_global_aabb (vector_of g) p =
    AABB (vector_of (Vector3i (ix c + ix g - ix h) (iy c + iy g - iy h) (iz c + iz g - iz h)))
      (Vector3 (of_int (2 * ix h)) (of_int (2 * iy h)) (of_int (2 * iz h)))"
proof -
  have half: "fl32 (of_int (2 * i) / 2) = of_int i" if "\<bar>i\<bar> \<le> 2 ^ 22" for i
    using fl32_int [of i] that by simp
  have d: "divide_by (Vector3 (of_int (2 * ix h)) (of_int (2 * iy h)) (of_int (2 * iz h))) 2 = vector_of h"
    using assms(3) by (simp only: divide_by_def vector_of_def Vector3.sel near_def half)
  have a: "vector_of c + vector_of g = vector_of (Vector3i (ix c + ix g) (iy c + iy g) (iz c + iz g))"
    using assms(4) fl32_sum [of "ix c" "ix g"] fl32_sum [of "iy c" "iy g"] fl32_sum [of "iz c" "iz g"]
    by (simp add: plus_Vector3_def vadd_def vector_of_def near_def)
  have s: "vector_of x - vector_of h = vector_of (Vector3i (ix x - ix h) (iy x - iy h) (iz x - iz h))" if "near x" for x
    unfolding minus_Vector3_def vector_sub [OF assms(3) that] by (simp add: vector_of_def)
  show ?thesis using s [OF assms(4)] by (simp add: get_global_aabb_def assms(5) Let_def a d del: of_int_mult)
qed

definition demo_probe :: StreamWorldProbe where
  "demo_probe = \<lparr>probe_id = 9, probe_aabb = AABB (vector_of (Vector3i 1 0 0)) (Vector3 (of_int (2 * 8)) (of_int (2 * 8)) (of_int (2 * 8))),
     stream_manager_path = ''../Manager'', probe_manager = None\<rparr>"

theorem probe_box_centred_witness:
  "get_global_aabb (vector_of (Vector3i 10 0 0)) demo_probe = AABB (Vector3 3 (- 8) (- 8)) (Vector3 16 16 16)"
  using probe_box_centred [of "Vector3i 1 0 0" "Vector3i 10 0 0" "Vector3i 8 8 8" demo_probe]
  by (simp add: near_def demo_probe_def vector_of_def)

section \<open>Where a probe is registered\<close>

text \<open>The managers' sets of registered probes, as pairs of a manager and a probe.\<close>

fun apply_call :: "probe_call \<Rightarrow> (nat \<times> nat) set \<Rightarrow> (nat \<times> nat) set" where
  "apply_call (OnLoadProbe m i) R = insert (m, i) R"
| "apply_call (OnUnloadProbe m i) R = R - {(m, i)}"

datatype probe_event = ProbeReady bool | ProbeEnter bool | ProbeExit | ProbeVisible bool | ProbePath bool string

record probe_world =
  the_probe :: StreamWorldProbe
  in_tree :: bool
  registered :: "(nat \<times> nat) set"

definition after_calls :: "StreamWorldProbe \<times> probe_call list \<Rightarrow> bool \<Rightarrow> probe_world \<Rightarrow> probe_world" where
  "after_calls pc inside w = w\<lparr>the_probe := fst pc, in_tree := inside, registered := fold apply_call (snd pc) (registered w)\<rparr>"

text \<open>One event of the life of a probe, under the answers \<open>res\<close> of the tree; the flag is its visibility. The
  engine calls \<open>_enter_tree\<close> and \<open>_ready\<close> when the node is inside the tree, \<open>_exit_tree\<close> when it still is.\<close>

fun probe_step :: "(string \<Rightarrow> nat option) \<Rightarrow> probe_event \<Rightarrow> probe_world \<Rightarrow> probe_world" where
  "probe_step res (ProbeEnter v) w = (if in_tree w then w else
     after_calls (probe_enter_tree \<lparr>inside_tree = True, visible_in_tree = v, resolve = res\<rparr> (the_probe w)) True w)"
| "probe_step res (ProbeReady v) w = (if \<not> in_tree w then w else
     after_calls (probe_ready \<lparr>inside_tree = True, visible_in_tree = v, resolve = res\<rparr> (the_probe w)) True w)"
| "probe_step res ProbeExit w = (if \<not> in_tree w then w else after_calls (probe_exit_tree (the_probe w)) False w)"
| "probe_step res (ProbeVisible v) w =
     after_calls (on_visibility_changed \<lparr>inside_tree = in_tree w, visible_in_tree = v, resolve = res\<rparr> (the_probe w)) (in_tree w) w"
| "probe_step res (ProbePath v path) w =
     after_calls (set_stream_manager_path \<lparr>inside_tree = in_tree w, visible_in_tree = v, resolve = res\<rparr> path (the_probe w)) (in_tree w) w"

definition probe_world_new :: "nat \<Rightarrow> string \<Rightarrow> probe_world" where
  "probe_world_new i path = \<lparr>the_probe = \<lparr>probe_id = i, probe_aabb = AABB_new, stream_manager_path = path, probe_manager = None\<rparr>,
     in_tree = False, registered = {}\<rparr>"

text \<open>A life in which the path is set to one value only.\<close>

definition same_path :: "string \<Rightarrow> probe_event \<Rightarrow> bool" where
  "same_path path e \<longleftrightarrow> (\<forall>v q. e = ProbePath v q \<longrightarrow> q = path)"

definition probe_ok :: "(string \<Rightarrow> nat option) \<Rightarrow> nat \<Rightarrow> string \<Rightarrow> probe_world \<Rightarrow> bool" where
  "probe_ok res i path w \<longleftrightarrow> probe_id (the_probe w) = i \<and> stream_manager_path (the_probe w) = path \<and>
     (\<forall>m j. (m, j) \<in> registered w \<longrightarrow> j = i \<and> in_tree w \<and> path \<noteq> [] \<and> res path = Some m \<and> probe_manager (the_probe w) = Some m)"

lemmas probe_defs = probe_ready_def probe_enter_tree_def probe_exit_tree_def on_visibility_changed_def
  set_stream_manager_path_def resolve_and_cache_manager_def load_call_def unload_call_def after_calls_def

lemma probe_step_ok: "probe_ok res i path w \<Longrightarrow> same_path path e \<Longrightarrow> probe_ok res i path (probe_step res e w)"
  by (cases e) (auto simp: probe_ok_def same_path_def probe_defs Let_def split: option.splits)

lemma probe_run_ok:
  "list_all (same_path path) es \<Longrightarrow> probe_ok res i path w \<Longrightarrow> probe_ok res i path (fold (probe_step res) es w)"
  by (induction es arbitrary: w) (auto intro: probe_step_ok)

text \<open>A probe leaves nothing behind. While its path is not changed, a probe is registered only inside the
  tree and only with the manager it holds; so when it has left the tree no manager has it.\<close>

theorem probe_leaves_no_trace:
  assumes "list_all (same_path path) es"
  shows "let w = fold (probe_step res) es (probe_world_new i path) in
    (\<forall>m j. (m, j) \<in> registered w \<longrightarrow> j = i \<and> in_tree w \<and> probe_manager (the_probe w) = Some m) \<and>
    registered (probe_step res ProbeExit w) = {}"
proof -
  let ?w = "fold (probe_step res) es (probe_world_new i path)"
  have ok: "probe_ok res i path ?w"
    by (rule probe_run_ok [OF assms]) (simp add: probe_ok_def probe_world_new_def)
  have "probe_ok res i path (probe_step res ProbeExit ?w)" by (rule probe_step_ok [OF ok]) (simp add: same_path_def)
  moreover have "\<not> in_tree (probe_step res ProbeExit ?w)" by (simp add: after_calls_def)
  ultimately have "registered (probe_step res ProbeExit ?w) = {}" by (auto simp: probe_ok_def)
  then show ?thesis using ok by (auto simp: probe_ok_def Let_def)
qed

theorem probe_leaves_no_trace_witness:
  "let w = fold (probe_step (\<lambda>_. Some 5)) [ProbeEnter True, ProbeVisible False, ProbeVisible True] (probe_world_new 9 ''m'') in
    registered w = {(5, 9)} \<and> registered (probe_step (\<lambda>_. Some 5) ProbeExit w) = {}"
  using probe_leaves_no_trace [of "''m''" "[ProbeEnter True, ProbeVisible False, ProbeVisible True]" "\<lambda>_. Some 5" 9]
  by (simp add: same_path_def Let_def) (simp add: probe_world_new_def probe_defs)

text \<open>A changed path leaves a trace. A probe whose path is changed while it is registered stays
  registered with the old manager, also after it has left the tree.\<close>

theorem changed_path_leaves_trace:
  "registered (fold (probe_step (\<lambda>path. if path = ''a'' then Some 1 else Some 2))
     [ProbeEnter True, ProbePath True ''b'', ProbeExit] (probe_world_new 9 ''a'')) = {(1, 9)}"
  by (auto simp: probe_world_new_def probe_defs)

end
