(* ===== verification/StreamManager.thy ===== *)
theory StreamManager
  imports SceneCache StreamDb
begin

text \<open>
  src/src/core/stream/stream_manager.{h,cpp}: the node that keeps the part of the world around the
  probes loaded. The state is that of the class together with what the engine knows of its children:
  the live objects with the fields the manager reads, whether the manager is in the tree, connected to
  the signals of its children and processing. What the engine answers in a call (loads, instantiated
  scenes, boxes of probes, a generated identifier) is a record of functions. Handlers that the engine
  calls during another handler (a child entering or leaving the tree) are called there, as the signals
  do. A result is \<open>None\<close> where the C++ behaviour is undefined: a missing cache iterator, or the
  erasure from the set of probes while it is iterated. Tasks for the database thread are values, run
  by \<open>StreamFlush\<close>; the scene files written and removed are a log.
\<close>

section \<open>State\<close>

text \<open>Where a node hangs: nowhere, directly under the manager, or under some other node, which is in the
  tree or not.\<close>

datatype placement = NoParent | UnderManager | UnderOther bool

record Node =
  is_stream_object :: bool
  node_uuid :: uuid
  node_parent_uuid :: uuid
  queued_for_deletion :: bool
  placement :: placement
  node_aabb :: AABB

datatype db_task = MaintenanceTask | QueryTask "AABB list" | QueryOneTask AABB
  | FlushTask "(uuid \<times> ObjectData) list" "uuid a_hashset" "(uuid, AABB) a_hashmap"

datatype file_op = SaveScene uuid nat | RemoveSceneFile uuid

record 'sc StreamManager =
  objects :: "nat \<Rightarrow> Node option"
  next_object :: nat
  self_inside :: bool
  self_queued :: bool
  self_ready :: bool
  signals_connected :: bool
  processing :: bool
  database_path :: string
  object_scene_dir :: string
  query_process :: "8 word"
  db_worker :: "string option"
  pushed_tasks :: "(string \<times> db_task) list"
  cache_obj :: "'sc ObjectSceneCache"
  load_queue :: "uuid list"
  loaded_queue :: "uuid list"
  registry :: "(uuid, ObjectData) a_hashmap"
  children_map :: "(uuid, uuid a_hashset) a_hashmap"
  object_removal :: "uuid a_hashset"
  pending_removal :: "uuid a_hashset"
  to_upsert_uuids :: "uuid a_hashset"
  to_remove :: "uuid a_hashset"
  dirty_aabb :: "uuid a_hashset"
  registered_probes :: "nat a_hashset"
  file_log :: "file_op list"

text \<open>The constructor; \<open>set_process\<close> is on by default for a class with \<open>_process\<close>.\<close>

definition StreamManager_new :: "(nat \<Rightarrow> Node option) \<Rightarrow> nat \<Rightarrow> 'sc StreamManager" where
  "StreamManager_new objs nxt = \<lparr>objects = objs, next_object = nxt, self_inside = False, self_queued = False,
     self_ready = False, signals_connected = True, processing = True, database_path = [], object_scene_dir = [],
     query_process = 0, db_worker = None, pushed_tasks = [], cache_obj = ObjectSceneCache_new 16 32,
     load_queue = [], loaded_queue = [], registry = [], children_map = [], object_removal = [],
     pending_removal = [], to_upsert_uuids = [], to_remove = [], dirty_aabb = [], registered_probes = [], file_log = []\<rparr>"

record 'sc Engine =
  load_accepted :: "string \<Rightarrow> bool"
  load_status_of :: "string \<Rightarrow> load_status"
  load_result :: "string \<Rightarrow> 'sc option"
  instance_of :: "'sc \<Rightarrow> Node option"
  probe_box :: "nat \<Rightarrow> AABB option"
  fresh_uuid :: uuid
  dir_available :: "string \<Rightarrow> bool"
  derived_dir :: "string \<Rightarrow> string"

section \<open>Small helpers of the class\<close>

text \<open>\<open>children_map_[p].insert(c)\<close> and \<open>.erase(c)\<close>: the index operator makes a missing entry.\<close>

definition child_insert :: "uuid \<Rightarrow> uuid \<Rightarrow> (uuid, uuid a_hashset) a_hashmap \<Rightarrow> (uuid, uuid a_hashset) a_hashmap" where
  "child_insert p c m = dm_put p (ds_insert c (case map_of m p of Some cs \<Rightarrow> cs | None \<Rightarrow> [])) m"

definition child_erase :: "uuid \<Rightarrow> uuid \<Rightarrow> (uuid, uuid a_hashset) a_hashmap \<Rightarrow> (uuid, uuid a_hashset) a_hashmap" where
  "child_erase p c m = dm_put p (ds_erase c (case map_of m p of Some cs \<Rightarrow> cs | None \<Rightarrow> [])) m"

definition registry_at :: "uuid \<Rightarrow> 'sc StreamManager \<Rightarrow> ObjectData" where
  "registry_at u s = (case map_of (registry s) u of Some d \<Rightarrow> d | None \<Rightarrow> ObjectData_new)"

definition erase_registry_entry :: "uuid \<Rightarrow> 'sc StreamManager \<Rightarrow> 'sc StreamManager" where
  "erase_registry_entry u s = s\<lparr>registry := dm_erase u (registry s), dirty_aabb := ds_erase u (dirty_aabb s),
     to_upsert_uuids := ds_erase u (to_upsert_uuids s)\<rparr>"

definition object_scene_path :: "uuid \<Rightarrow> 'sc StreamManager \<Rightarrow> string" where
  "object_scene_path u s = object_scene_dir s @ to_string u @ ''.tscn''"

text \<open>A file that does not exist is not removed; the log records the request.\<close>

definition delete_object_scene :: "uuid \<Rightarrow> 'sc StreamManager \<Rightarrow> 'sc StreamManager option" where
  "delete_object_scene u s = do {
     c \<leftarrow> remove_scene u (cache_obj s);
     Some (s\<lparr>file_log := file_log s @ [RemoveSceneFile u], cache_obj := c\<rparr>)
   }"

definition save_object_to_file :: "uuid \<Rightarrow> nat \<Rightarrow> 'sc StreamManager \<Rightarrow> 'sc StreamManager" where
  "save_object_to_file u n s = s\<lparr>file_log := file_log s @ [SaveScene u n]\<rparr>"

text \<open>\<open>_collect_descendants\<close>: a depth-first walk with a stack, its top first here. \<open>collect_space\<close> are the
  identifiers the walk can still meet.\<close>

definition collect_space :: "(uuid, uuid a_hashset) a_hashmap \<Rightarrow> uuid list \<Rightarrow> uuid set" where
  "collect_space m stack = set stack \<union> (\<Union>p \<in> set m. set (snd p))"

lemma finite_collect_space: "finite (collect_space m stack)"
  by (simp add: collect_space_def)

lemma collect_space_children: "map_of m u = Some cs \<Longrightarrow> collect_space m (rev cs @ stack) \<subseteq> collect_space m (u # stack)"
  by (fastforce simp: collect_space_def dest: map_of_SomeD)

lemma collect_visit:
  assumes "u \<notin> set result"
  shows "card (collect_space m ((case map_of m u of Some cs \<Rightarrow> rev cs @ stack | None \<Rightarrow> stack)) - set (ds_insert u result)) <
    card (collect_space m (u # stack) - set result)"
proof (rule psubset_card_mono)
  have "collect_space m (case map_of m u of Some cs \<Rightarrow> rev cs @ stack | None \<Rightarrow> stack) \<subseteq> collect_space m (u # stack)"
    using collect_space_children [of m u] by (auto simp: collect_space_def split: option.split)
  moreover have "u \<in> collect_space m (u # stack)" by (simp add: collect_space_def)
  ultimately show "collect_space m (case map_of m u of Some cs \<Rightarrow> rev cs @ stack | None \<Rightarrow> stack) - set (ds_insert u result) \<subset>
      collect_space m (u # stack) - set result" using assms by auto
qed (simp add: finite_collect_space)

lemma collect_skip: "card (collect_space m stack - set result) \<noteq> card (collect_space m (u # stack) - set result) \<Longrightarrow>
    card (collect_space m stack - set result) < card (collect_space m (u # stack) - set result)"
proof -
  have "card (collect_space m stack - set result) \<le> card (collect_space m (u # stack) - set result)"
    by (rule card_mono) (auto simp: finite_collect_space collect_space_def)
  then show "card (collect_space m stack - set result) \<noteq> card (collect_space m (u # stack) - set result) \<Longrightarrow> ?thesis"
    by simp
qed

function collect_loop :: "(uuid, uuid a_hashset) a_hashmap \<Rightarrow> uuid list \<Rightarrow> uuid a_hashset \<Rightarrow> uuid a_hashset" where
  "collect_loop m [] result = result"
| "collect_loop m (current # stack) result =
     (if current \<in> set result then collect_loop m stack result
      else collect_loop m (case map_of m current of Some cs \<Rightarrow> rev cs @ stack | None \<Rightarrow> stack) (ds_insert current result))"
  by pat_completeness auto
termination
  by (relation "measures [\<lambda>(m, stack, result). card (collect_space m stack - set result), \<lambda>(m, stack, result). length stack]")
    (auto simp del: set_ds_insert intro: collect_visit collect_skip)

definition collect_descendants :: "uuid \<Rightarrow> 'sc StreamManager \<Rightarrow> uuid a_hashset" where
  "collect_descendants u s = collect_loop (children_map s) [u] []"

section \<open>Objects\<close>

text \<open>\<open>n = 0\<close> or an object the engine does not know is the null pointer.\<close>

definition add_object :: "nat \<Rightarrow> 'sc StreamManager \<Rightarrow> 'sc StreamManager" where
  "add_object n s = (case objects s n of None \<Rightarrow> s
     | Some nd \<Rightarrow>
       (let u = node_uuid nd in
        if is_nil u then s
        else (let data = \<lparr>parent_uuid = node_parent_uuid nd, node_root = n\<rparr>
          in s\<lparr>registry := dm_put u data (registry s),
               children_map := (if is_nil (parent_uuid data) then children_map s
                                else child_insert (parent_uuid data) u (children_map s)),
               to_upsert_uuids := ds_insert u (to_upsert_uuids s),
               dirty_aabb := ds_insert u (dirty_aabb s)\<rparr>)))"

definition request_remove :: "uuid \<Rightarrow> 'sc StreamManager \<Rightarrow> 'sc StreamManager" where
  "request_remove u s = (if is_nil u then s else s\<lparr>object_removal := ds_insert u (object_removal s)\<rparr>)"

text \<open>\<open>_remove_object\<close>: the body of its loop, the loop, the loop over \<open>children_map_\<close>.\<close>

definition remove_one :: "uuid \<Rightarrow> 'sc StreamManager \<Rightarrow> 'sc StreamManager option" where
  "remove_one i s = (case map_of (registry s) i of None \<Rightarrow> Some s
     | Some d \<Rightarrow> do {
         s \<leftarrow> delete_object_scene i s;
         c \<leftarrow> remove_scene i (cache_obj s);
         let s = s\<lparr>cache_obj := c,
           children_map := (if is_nil (parent_uuid d) then children_map s else child_erase (parent_uuid d) i (children_map s)),
           registry := dm_erase i (registry s), to_remove := ds_insert i (to_remove s)\<rparr>;
         Some (erase_registry_entry i s)
       })"

fun remove_each :: "uuid list \<Rightarrow> 'sc StreamManager \<Rightarrow> 'sc StreamManager option" where
  "remove_each [] s = Some s"
| "remove_each (i # ids) s = Option.bind (remove_one i s) (remove_each ids)"

definition remove_tree :: "uuid \<Rightarrow> 'sc StreamManager \<Rightarrow> 'sc StreamManager option" where
  "remove_tree u s = (let to_delete = collect_descendants u s in
     do {
       s \<leftarrow> remove_each to_delete s;
       Some (s\<lparr>children_map := foldl (\<lambda>m i. dm_erase i m) (children_map s) to_delete\<rparr>)
     })"

definition update_object :: "nat \<Rightarrow> 'sc StreamManager \<Rightarrow> 'sc StreamManager" where
  "update_object n s = (case objects s n of None \<Rightarrow> s
     | Some nd \<Rightarrow>
       (let u = node_uuid nd; new_parent = node_parent_uuid nd in
        case map_of (registry s) u of None \<Rightarrow> s
        | Some data \<Rightarrow>
          (let m = children_map s;
               m1 = (if is_nil (parent_uuid data) then m else child_erase (parent_uuid data) u m);
               m2 = (if is_nil new_parent then m1 else child_insert new_parent u m1)
           in s\<lparr>registry := dm_put u \<lparr>parent_uuid = new_parent, node_root = n\<rparr> (registry s),
                children_map := (if new_parent \<noteq> parent_uuid data then m2 else m),
                to_upsert_uuids := ds_insert u (to_upsert_uuids s)\<rparr>)))"

section \<open>Children entering and leaving the tree\<close>

definition on_object_entered :: "uuid \<Rightarrow> nat \<Rightarrow> 'sc StreamManager \<Rightarrow> 'sc StreamManager" where
  "on_object_entered gen n s = (case objects s n of None \<Rightarrow> s
     | Some nd \<Rightarrow>
       if \<not> is_stream_object nd then s
       else if is_nil (node_uuid nd)
       then add_object n (s\<lparr>objects := (objects s)(n := Some (nd\<lparr>node_uuid := gen\<rparr>))\<rparr>)
       else s\<lparr>registry := dm_put (node_uuid nd) ((registry_at (node_uuid nd) s)\<lparr>node_root := n\<rparr>) (registry s)\<rparr>)"

definition on_object_exited :: "nat \<Rightarrow> 'sc StreamManager \<Rightarrow> 'sc StreamManager" where
  "on_object_exited n s = (case objects s n of None \<Rightarrow> s
     | Some nd \<Rightarrow>
       if \<not> is_stream_object nd then s
       else if node_uuid nd \<in> set (pending_removal s) \<or> queued_for_deletion nd \<or> self_queued s
       then (save_object_to_file (node_uuid nd) n s)\<lparr>dirty_aabb := ds_erase (node_uuid nd) (dirty_aabb s)\<rparr>
       else request_remove (node_uuid nd) s)"

text \<open>\<open>add_child\<close> and \<open>remove_child\<close> of the engine on the manager, with the signals they emit. A node that has a
  parent already, or whose parent is another node, is refused.\<close>

definition add_child :: "uuid \<Rightarrow> nat \<Rightarrow> 'sc StreamManager \<Rightarrow> 'sc StreamManager" where
  "add_child gen n s = (case objects s n of None \<Rightarrow> s
     | Some nd \<Rightarrow>
       if placement nd \<noteq> NoParent then s
       else (let s = s\<lparr>objects := (objects s)(n := Some (nd\<lparr>placement := UnderManager\<rparr>))\<rparr>
             in if signals_connected s \<and> self_inside s then on_object_entered gen n s else s))"

definition remove_child :: "nat \<Rightarrow> 'sc StreamManager \<Rightarrow> 'sc StreamManager" where
  "remove_child n s = (case objects s n of None \<Rightarrow> s
     | Some nd \<Rightarrow>
       if placement nd \<noteq> UnderManager then s
       else (let s = (if signals_connected s \<and> self_inside s then on_object_exited n s else s)
             in s\<lparr>objects := (objects s)(n := Some (nd\<lparr>placement := NoParent\<rparr>))\<rparr>))"

section \<open>Loading and unloading\<close>

definition instantiate_in :: "('sc \<Rightarrow> Node option) \<Rightarrow> 'sc \<Rightarrow> (nat \<Rightarrow> Node option) \<times> nat \<Rightarrow>
    nat \<times> (nat \<Rightarrow> Node option) \<times> nat" where
  "instantiate_in inst scene w = (case inst scene of None \<Rightarrow> (0, w)
     | Some nd \<Rightarrow> (snd w, (fst w)(snd w := Some (nd\<lparr>placement := NoParent\<rparr>)), Suc (snd w)))"

definition usable_node :: "'sc StreamManager \<Rightarrow> nat \<Rightarrow> bool" where
  "usable_node s n = (case objects s n of None \<Rightarrow> False | Some nd \<Rightarrow> \<not> queued_for_deletion nd)"

text \<open>\<open>request_scene\<close> and the queue for the next frame.\<close>

definition request_later :: "'sc Engine \<Rightarrow> uuid \<Rightarrow> 'sc StreamManager \<Rightarrow> 'sc StreamManager option" where
  "request_later eng u s = do {
     (b, c) \<leftarrow> request_scene (load_accepted eng) u (object_scene_path u s) (cache_obj s);
     Some (s\<lparr>cache_obj := c, loaded_queue := (if b then loaded_queue s @ [u] else loaded_queue s)\<rparr>)
   }"

text \<open>From the check of the node on. A node queued for deletion is replaced by a new instance of its scene.\<close>

definition attach_node :: "'sc Engine \<Rightarrow> nat \<Rightarrow> 'sc StreamManager \<Rightarrow> 'sc StreamManager" where
  "attach_node eng n s = (case objects s n of None \<Rightarrow> s
     | Some nd \<Rightarrow> if \<not> is_stream_object nd then s\<lparr>objects := (objects s)(n := None)\<rparr>
         else add_child (fresh_uuid eng) n s)"

definition reinstantiate :: "'sc Engine \<Rightarrow> uuid \<Rightarrow> 'sc StreamManager \<Rightarrow> 'sc StreamManager option" where
  "reinstantiate eng u s = do {
     (scene, c) \<leftarrow> get_scene u (cache_obj s);
     let s = s\<lparr>cache_obj := c\<rparr>;
     (case scene of
        Some sc \<Rightarrow>
          (let (n, objs, nxt) = instantiate_in (instance_of eng) sc (objects s, next_object s)
           in Some (if n = 0 then s else attach_node eng n (s\<lparr>objects := objs, next_object := nxt\<rparr>)))
      | None \<Rightarrow> do {
          c \<leftarrow> remove_scene u (cache_obj s);
          request_later eng u (s\<lparr>cache_obj := c\<rparr>)
        })
   }"

definition load_object_scene :: "'sc Engine \<Rightarrow> uuid \<Rightarrow> 'sc StreamManager \<Rightarrow> 'sc StreamManager option" where
  "load_object_scene eng u s =
     (if \<not> self_inside s \<or> self_queued s then Some s
      else if is_nil u then Some s
      else case map_of (registry s) u of None \<Rightarrow> Some s
      | Some data \<Rightarrow>
        if node_root data \<noteq> 0 then Some s
        else do {
          (n, c, objs, nxt) \<leftarrow> acquire (usable_node s) (instantiate_in (instance_of eng)) u (cache_obj s)
             (objects s, next_object s);
          let s = s\<lparr>cache_obj := c, objects := objs, next_object := nxt\<rparr>;
          if n = 0 then request_later eng u s
          else if (case objects s n of Some nd \<Rightarrow> queued_for_deletion nd | None \<Rightarrow> False) then reinstantiate eng u s
          else Some (attach_node eng n s)
        })"

text \<open>\<open>_unload_object\<close>: one identifier of the set, then all.\<close>

definition unload_one :: "uuid \<Rightarrow> 'sc StreamManager \<Rightarrow> 'sc StreamManager option" where
  "unload_one i s =
     (let data = registry_at i s; s = s\<lparr>registry := dm_put i data (registry s)\<rparr>
      in if node_root data = 0 then Some s
         else case objects s (node_root data) of
           Some nd \<Rightarrow> if \<not> is_stream_object nd then Some s
             else (let s = remove_child (node_root data) s in
               do {
                 c \<leftarrow> release i (node_root data) (cache_obj s);
                 Some (s\<lparr>cache_obj := c, registry := dm_put i ((registry_at i s)\<lparr>node_root := 0\<rparr>) (registry s)\<rparr>)
               })
         | None \<Rightarrow> Some s)"

fun unload_each :: "uuid list \<Rightarrow> 'sc StreamManager \<Rightarrow> 'sc StreamManager option" where
  "unload_each [] s = Some s"
| "unload_each (i # ids) s = Option.bind (unload_one i s) (unload_each ids)"

definition unload_object :: "uuid \<Rightarrow> 'sc StreamManager \<Rightarrow> 'sc StreamManager option" where
  "unload_object u s =
     (if is_nil u then Some s
      else if map_of (registry s) u = None then Some s
      else (let all_ids = collect_descendants u s;
                s = s\<lparr>pending_removal := foldl (\<lambda>p i. ds_insert i p) (pending_removal s) all_ids\<rparr>
        in do {
          s \<leftarrow> unload_each all_ids s;
          Some (s\<lparr>pending_removal := foldl (\<lambda>p i. ds_erase i p) (pending_removal s) all_ids\<rparr>)
        }))"

section \<open>The answer of a query\<close>

text \<open>\<open>_on_query_result\<close>, part by part: the loop that unloads, the merge, the two loops over the registry.\<close>

fun unload_and_erase :: "uuid list \<Rightarrow> 'sc StreamManager \<Rightarrow> 'sc StreamManager option" where
  "unload_and_erase [] s = Some s"
| "unload_and_erase (u # us) s = do {
     s \<leftarrow> unload_object u s;
     unload_and_erase us (erase_registry_entry u s)
   }"

definition merge_one :: "(uuid, ObjectData) a_hashmap \<Rightarrow> uuid \<times> ObjectData \<Rightarrow> (uuid, ObjectData) a_hashmap" where
  "merge_one r p = (case map_of r (fst p) of
     Some local \<Rightarrow> dm_put (fst p) (local\<lparr>parent_uuid := parent_uuid (snd p)\<rparr>) r
   | None \<Rightarrow> dm_put (fst p) (snd p) r)"

definition rebuild_children :: "(uuid, ObjectData) a_hashmap \<Rightarrow> (uuid, uuid a_hashset) a_hashmap" where
  "rebuild_children r = foldl (\<lambda>m p. if is_nil (parent_uuid (snd p)) then m
     else child_insert (parent_uuid (snd p)) (fst p) m) [] r"

definition roots_to_load :: "(uuid, ObjectData) a_hashmap \<Rightarrow> uuid list" where
  "roots_to_load r = map fst (filter (\<lambda>p. is_nil (parent_uuid (snd p)) \<and> node_root (snd p) = 0) r)"

definition on_query_result :: "(uuid, ObjectData) a_hashmap \<Rightarrow> 'sc StreamManager \<Rightarrow> 'sc StreamManager option" where
  "on_query_result db_objects s =
     (let new_set = foldl (\<lambda>a p. ds_insert (fst p) a) [] db_objects;
          to_unload = map fst (filter (\<lambda>p. fst p \<notin> set new_set \<and> node_root (snd p) \<noteq> 0) (registry s))
      in do {
        s \<leftarrow> unload_and_erase to_unload s;
        let r = foldl merge_one (registry s) db_objects;
        Some (s\<lparr>registry := r, children_map := rebuild_children r, load_queue := load_queue s @ roots_to_load r\<rparr>)
      })"

section \<open>Synchronisation with the database\<close>

text \<open>The part of \<open>_flush_pending_db_ops\<close> on the main thread: what it copies into the task.\<close>

definition inside_tree :: "Node \<Rightarrow> 'sc StreamManager \<Rightarrow> bool" where
  "inside_tree nd s = (case placement nd of NoParent \<Rightarrow> False | UnderManager \<Rightarrow> self_inside s | UnderOther b \<Rightarrow> b)"

definition upsert_snapshot :: "'sc StreamManager \<Rightarrow> (uuid \<times> ObjectData) list" where
  "upsert_snapshot s = List.map_filter (\<lambda>u. map_option (Pair u) (map_of (registry s) u)) (to_upsert_uuids s)"

definition dirty_box :: "'sc StreamManager \<Rightarrow> uuid \<Rightarrow> AABB option" where
  "dirty_box s u = do {
     d \<leftarrow> map_of (registry s) u;
     nd \<leftarrow> (if node_root d = 0 then None else objects s (node_root d));
     if is_stream_object nd \<and> inside_tree nd s then Some (node_aabb nd) else None
   }"

definition dirty_snapshot :: "'sc StreamManager \<Rightarrow> (uuid, AABB) a_hashmap" where
  "dirty_snapshot s = foldl (\<lambda>m u. case dirty_box s u of Some a \<Rightarrow> dm_put u a m | None \<Rightarrow> m) [] (dirty_aabb s)"

definition push_db_task :: "db_task \<Rightarrow> 'sc StreamManager \<Rightarrow> 'sc StreamManager" where
  "push_db_task t s = (case db_worker s of None \<Rightarrow> s
     | Some path \<Rightarrow> s\<lparr>pushed_tasks := pushed_tasks s @ [(path, t)]\<rparr>)"

definition flush_pending_db_ops :: "'sc StreamManager \<Rightarrow> 'sc StreamManager" where
  "flush_pending_db_ops s =
     (if db_worker s = None then s
      else if to_upsert_uuids s = [] \<and> to_remove s = [] \<and> dirty_aabb s = [] then s
      else (let upsert_data = upsert_snapshot s; remove = to_remove s; dirty_data = dirty_snapshot s;
                s = s\<lparr>to_upsert_uuids := [], to_remove := [], dirty_aabb := []\<rparr>
        in if upsert_data = [] \<and> remove = [] \<and> dirty_data = [] then s
           else push_db_task (FlushTask upsert_data remove dirty_data) s))"

definition query_aabb :: "AABB list \<Rightarrow> 'sc StreamManager \<Rightarrow> 'sc StreamManager" where
  "query_aabb aabbs s = push_db_task (QueryTask aabbs) s"

definition query_one_aabb :: "AABB \<Rightarrow> 'sc StreamManager \<Rightarrow> 'sc StreamManager" where
  "query_one_aabb a s = push_db_task (QueryOneTask a) s"

section \<open>One frame\<close>

fun remove_requested :: "uuid list \<Rightarrow> 'sc StreamManager \<Rightarrow> 'sc StreamManager option" where
  "remove_requested [] s = Some s"
| "remove_requested (u # us) s = Option.bind (remove_tree u s) (remove_requested us)"

text \<open>The boxes of the probes; \<open>None\<close> if one of them is gone, since the code then erases it from the set it
  iterates.\<close>

fun probe_boxes :: "(nat \<Rightarrow> AABB option) \<Rightarrow> nat list \<Rightarrow> AABB list option" where
  "probe_boxes box [] = Some []"
| "probe_boxes box (n # ns) = do {
     a \<leftarrow> box n;
     aabbs \<leftarrow> probe_boxes box ns;
     Some (a # aabbs)
   }"

definition query_frame :: "'sc Engine \<Rightarrow> 'sc StreamManager \<Rightarrow> 'sc StreamManager option" where
  "query_frame eng s =
     (let s = s\<lparr>query_process := query_process s + 1\<rparr>
      in if query_process s \<ge> 4
         then do {
           query_aabbs \<leftarrow> probe_boxes (probe_box eng) (registered_probes s);
           Some ((if query_aabbs = [] then s else query_aabb query_aabbs s)\<lparr>query_process := 0\<rparr>)
         }
         else Some s)"

text \<open>The load loop: \<open>n\<close> is \<open>MAX_LOADS_PER_FRAME - loads\<close>.\<close>

definition max_loads_per_frame :: nat where
  "max_loads_per_frame = 4"

fun load_loop :: "'sc Engine \<Rightarrow> nat \<Rightarrow> 'sc StreamManager \<Rightarrow> 'sc StreamManager option" where
  "load_loop eng 0 s = Some s"
| "load_loop eng (Suc n) s = (case load_queue s of [] \<Rightarrow> Some s
     | u # rest \<Rightarrow> Option.bind (load_object_scene eng u (s\<lparr>load_queue := rest\<rparr>)) (load_loop eng n))"

definition requeue :: "'sc StreamManager \<Rightarrow> 'sc StreamManager" where
  "requeue s = s\<lparr>load_queue := load_queue s @ loaded_queue s, loaded_queue := []\<rparr>"

definition process_frame :: "'sc Engine \<Rightarrow> 'sc StreamManager \<Rightarrow> 'sc StreamManager option" where
  "process_frame eng s =
     (if \<not> self_inside s then Some s
      else do {
        s \<leftarrow> remove_requested (object_removal s) s;
        let s = s\<lparr>object_removal := []\<rparr>;
        s \<leftarrow> (if db_worker s \<noteq> None then query_frame eng (flush_pending_db_ops s) else Some s);
        c \<leftarrow> update (load_status_of eng) (load_result eng) (cache_obj s);
        s \<leftarrow> load_loop eng max_loads_per_frame (s\<lparr>cache_obj := c\<rparr>);
        Some (requeue s)
      })"

section \<open>Life cycle\<close>

definition init_database :: "'sc Engine \<Rightarrow> string \<Rightarrow> 'sc StreamManager \<Rightarrow> 'sc StreamManager" where
  "init_database eng path s =
     (if path = [] then s
      else (let s = s\<lparr>object_scene_dir := derived_dir eng path\<rparr>
            in if \<not> dir_available eng (object_scene_dir s) then s
               else push_db_task MaintenanceTask (s\<lparr>db_worker := Some path\<rparr>)))"

definition set_database_path :: "'sc Engine \<Rightarrow> string \<Rightarrow> 'sc StreamManager \<Rightarrow> 'sc StreamManager" where
  "set_database_path eng path s =
     (let s = s\<lparr>database_path := path\<rparr> in if self_ready s then init_database eng path s else s)"

text \<open>The engine marks the node ready before it calls \<open>_ready\<close>, and inside the tree before \<open>_enter_tree\<close>; the
  node is still inside during \<open>_exit_tree\<close>.\<close>

definition manager_ready :: "'sc Engine \<Rightarrow> 'sc StreamManager \<Rightarrow> 'sc StreamManager" where
  "manager_ready eng s =
     (let s = s\<lparr>self_ready := True\<rparr>
      in if database_path s \<noteq> [] then init_database eng (database_path s) s else s)"

definition manager_enter_tree :: "'sc StreamManager \<Rightarrow> 'sc StreamManager" where
  "manager_enter_tree s = s\<lparr>self_inside := True, processing := True\<rparr>"

definition manager_exit_tree :: "'sc StreamManager \<Rightarrow> 'sc StreamManager" where
  "manager_exit_tree s =
     (let s = s\<lparr>signals_connected := False, processing := False, object_removal := [], dirty_aabb := [],
                to_upsert_uuids := [], load_queue := [], loaded_queue := []\<rparr>
      in (flush_pending_db_ops s)\<lparr>self_inside := False\<rparr>)"

text \<open>\<open>NOTIFICATION_PREDELETE\<close>.\<close>

definition manager_predelete :: "'sc StreamManager \<Rightarrow> 'sc StreamManager option" where
  "manager_predelete s = do {
     c \<leftarrow> free_all_node (cache_obj s);
     Some (s\<lparr>cache_obj := c, processing := False\<rparr>)
   }"

text \<open>Calls of the probes and the objects.\<close>

definition on_load_probe :: "nat \<Rightarrow> 'sc StreamManager \<Rightarrow> 'sc StreamManager" where
  "on_load_probe n s = (if n = 0 then s else s\<lparr>registered_probes := ds_insert n (registered_probes s)\<rparr>)"

definition on_unload_probe :: "nat \<Rightarrow> 'sc StreamManager \<Rightarrow> 'sc StreamManager" where
  "on_unload_probe n s = (if n = 0 then s else s\<lparr>registered_probes := ds_erase n (registered_probes s)\<rparr>)"

definition on_object_aabb_changed :: "nat \<Rightarrow> 'sc StreamManager \<Rightarrow> 'sc StreamManager" where
  "on_object_aabb_changed n s = (case objects s n of None \<Rightarrow> s
     | Some nd \<Rightarrow> if map_of (registry s) (node_uuid nd) = None then s
         else s\<lparr>dirty_aabb := ds_insert (node_uuid nd) (dirty_aabb s)\<rparr>)"

text \<open>Everything the engine, the objects, the probes and the database thread can call, and runs of such calls.\<close>

datatype 'sc manager_event = EnterTree | ExitTree | Ready "'sc Engine" | SetPath "'sc Engine" string
  | Frame "'sc Engine" | Predelete | AddObject nat | RemoveObject uuid | UpdateObject nat
  | LoadProbe nat | UnloadProbe nat | AabbChanged nat | QueryResult "(uuid, ObjectData) a_hashmap"
  | AddChild uuid nat | RemoveChild nat | ChildEntered uuid nat | ChildExited nat | QueueFree bool | EngineObjects "nat \<Rightarrow> Node option"

text \<open>\<open>EngineObjects\<close> stands for what the rest of the program does to nodes between two calls: an id that was
  never given out stays free.\<close>

fun manager_step :: "'sc manager_event \<Rightarrow> 'sc StreamManager \<Rightarrow> 'sc StreamManager option" where
  "manager_step EnterTree s = Some (manager_enter_tree s)"
| "manager_step ExitTree s = Some (manager_exit_tree s)"
| "manager_step (Ready eng) s = Some (manager_ready eng s)"
| "manager_step (SetPath eng path) s = Some (set_database_path eng path s)"
| "manager_step (Frame eng) s = (if processing s then process_frame eng s else Some s)"
| "manager_step Predelete s = manager_predelete s"
| "manager_step (AddObject n) s = Some (add_object n s)"
| "manager_step (RemoveObject u) s = Some (request_remove u s)"
| "manager_step (UpdateObject n) s = Some (update_object n s)"
| "manager_step (LoadProbe n) s = Some (on_load_probe n s)"
| "manager_step (UnloadProbe n) s = Some (on_unload_probe n s)"
| "manager_step (AabbChanged n) s = Some (on_object_aabb_changed n s)"
| "manager_step (QueryResult m) s = on_query_result m s"
| "manager_step (AddChild gen n) s = Some (add_child gen n s)"
| "manager_step (RemoveChild n) s = Some (remove_child n s)"
| "manager_step (ChildEntered gen n) s = Some (if signals_connected s then on_object_entered gen n s else s)"
| "manager_step (ChildExited n) s = Some (if signals_connected s then on_object_exited n s else s)"
| "manager_step (QueueFree b) s = Some (s\<lparr>self_queued := b\<rparr>)"
| "manager_step (EngineObjects objs) s = Some (s\<lparr>objects := (\<lambda>n. if n = 0 \<or> n \<ge> next_object s then None else objs n)\<rparr>)"

fun manager_run :: "'sc manager_event list \<Rightarrow> 'sc StreamManager \<Rightarrow> 'sc StreamManager option" where
  "manager_run [] s = Some s"
| "manager_run (e # es) s = Option.bind (manager_step e s) (manager_run es)"

end
