(* ===== verification/StreamManagerInv.thy ===== *)
theory StreamManagerInv
  imports StreamManager "HOL-Library.Sublist"
begin

text \<open>
  The invariant of the manager and its preservation by every operation of \<open>StreamManager\<close>, with the
  descendants collected by the depth-first walk as reachability in \<open>children_map\<close>. \<open>core\<close> is what holds
  inside the handlers too; between them \<open>pending_removal\<close> is empty as well.
\<close>

named_theorems core_intros \<open>operations that keep the core invariant\<close>

section \<open>Descendants\<close>

definition child_rel :: "(uuid, uuid a_hashset) a_hashmap \<Rightarrow> (uuid \<times> uuid) set" where
  "child_rel m = {(u, v). \<exists>cs. map_of m u = Some cs \<and> v \<in> set cs}"

definition child_list :: "(uuid, uuid a_hashset) a_hashmap \<Rightarrow> uuid \<Rightarrow> uuid list" where
  "child_list m u = (case map_of m u of Some cs \<Rightarrow> cs | None \<Rightarrow> [])"

abbreviation children_at :: "(uuid, uuid a_hashset) a_hashmap \<Rightarrow> uuid \<Rightarrow> uuid set" where
  "children_at m u \<equiv> set (child_list m u)"

lemma child_rel_image: "child_rel m `` {u} = children_at m u"
  by (cases "map_of m u") (auto simp: child_rel_def child_list_def)

lemma rtrancl_image_step: "R\<^sup>* `` insert u A = insert u (R\<^sup>* `` (R `` {u} \<union> A))"
  by (auto simp: Image_iff intro: converse_rtrancl_into_rtrancl elim: converse_rtranclE)

lemma reach_closed:
  assumes "(u, v) \<in> R\<^sup>*" "u \<in> A" "R `` A \<subseteq> A \<union> B"
  shows "v \<in> A \<union> R\<^sup>* `` B"
  using assms by (induction rule: rtrancl_induct) (auto intro: rtrancl_into_rtrancl)

lemma collect_loop_reach:
  "child_rel m `` set result \<subseteq> set result \<union> set stack \<Longrightarrow>
    set (collect_loop m stack result) = set result \<union> (child_rel m)\<^sup>* `` set stack"
proof (induction m stack result rule: collect_loop.induct)
  case (1 m result)
  then show ?case by simp
next
  case (2 m u stack result)
  show ?case
  proof (cases "u \<in> set result")
    case True
    then have c: "child_rel m `` set result \<subseteq> set result \<union> set stack" using "2.prems" by auto
    have "(child_rel m)\<^sup>* `` {u} \<subseteq> set result \<union> (child_rel m)\<^sup>* `` set stack"
      using reach_closed [OF _ True c] by auto
    then show ?thesis using "2.IH"(1) [OF True c] True by auto
  next
    case False
    let ?stack = "case map_of m u of Some cs \<Rightarrow> rev cs @ stack | None \<Rightarrow> stack"
    have s: "set ?stack = child_rel m `` {u} \<union> set stack"
      by (auto simp: child_rel_image child_list_def split: option.split)
    have "child_rel m `` set (ds_insert u result) \<subseteq> set (ds_insert u result) \<union> set ?stack"
      using "2.prems" unfolding s by auto
    from "2.IH"(2) [OF False this] show ?thesis using False unfolding s by (simp add: rtrancl_image_step)
  qed
qed

lemma collect_loop_distinct: "distinct result \<Longrightarrow> distinct (collect_loop m stack result)"
  by (induction m stack result rule: collect_loop.induct) auto

lemma set_collect_descendants: "set (collect_descendants u s) = (child_rel (children_map s))\<^sup>* `` {u}"
  by (simp add: collect_descendants_def collect_loop_reach del: collect_loop.simps)

lemma distinct_collect_descendants [simp]: "distinct (collect_descendants u s)"
  by (simp add: collect_descendants_def collect_loop_distinct del: collect_loop.simps)

section \<open>Children\<close>

definition children_ok :: "(uuid, uuid a_hashset) a_hashmap \<Rightarrow> bool" where
  "children_ok m \<longleftrightarrow> dm_inv m \<and> (\<forall>u. distinct (child_list m u))"

lemma child_list_insert: "child_list (child_insert p c m) = (child_list m)(p := ds_insert c (child_list m p))"
  by (rule ext) (simp add: child_list_def child_insert_def)

lemma child_list_erase: "child_list (child_erase p c m) = (child_list m)(p := ds_erase c (child_list m p))"
  by (rule ext) (simp add: child_list_def child_erase_def)

lemma child_list_dm_erase: "dm_inv m \<Longrightarrow> child_list (dm_erase p m) = (child_list m)(p := [])"
  by (rule ext) (simp add: child_list_def)

lemma child_list_Nil [simp]: "child_list [] u = []"
  by (simp add: child_list_def)

lemma children_ok_Nil [simp]: "children_ok []"
  by (simp add: children_ok_def child_list_def)

lemma dm_inv_child_insert [simp]: "dm_inv m \<Longrightarrow> dm_inv (child_insert p c m)"
  by (simp add: child_insert_def)

lemma dm_inv_child_erase [simp]: "dm_inv m \<Longrightarrow> dm_inv (child_erase p c m)"
  by (simp add: child_erase_def)

lemma children_ok_insert [simp]: "children_ok m \<Longrightarrow> children_ok (child_insert p c m)"
  by (simp add: children_ok_def child_list_insert)

lemma children_ok_erase [simp]: "children_ok m \<Longrightarrow> children_ok (child_erase p c m)"
  by (simp add: children_ok_def child_list_erase)

lemma children_ok_dm_erase [simp]: "children_ok m \<Longrightarrow> children_ok (dm_erase p m)"
  by (simp add: children_ok_def child_list_dm_erase)

lemma children_at_erase: "children_ok m \<Longrightarrow> children_at (child_erase p c m) v = (if v = p then children_at m p - {c} else children_at m v)"
  by (simp add: children_ok_def child_list_erase)

section \<open>The core invariant\<close>

definition registered :: "'sc StreamManager \<Rightarrow> uuid set" where
  "registered s = dom (map_of (registry s))"

definition core :: "'sc StreamManager \<Rightarrow> bool" where
  "core s \<longleftrightarrow> dm_inv (registry s) \<and> children_ok (children_map s) \<and> distinct (object_removal s) \<and>
     distinct (pending_removal s) \<and> distinct (to_upsert_uuids s) \<and> distinct (to_remove s) \<and>
     distinct (dirty_aabb s) \<and> distinct (registered_probes s) \<and> scenes_ok (cache_obj s) \<and>
     set (to_upsert_uuids s) \<subseteq> registered s \<and> set (dirty_aabb s) \<subseteq> registered s \<and>
     objects s 0 = None \<and> 0 < next_object s \<and> (\<forall>n \<ge> next_object s. objects s n = None)"

lemma coreD:
  assumes "core s"
  shows "dm_inv (registry s)" "children_ok (children_map s)" "distinct (object_removal s)"
    "distinct (pending_removal s)" "distinct (to_upsert_uuids s)" "distinct (to_remove s)" "distinct (dirty_aabb s)"
    "distinct (registered_probes s)" "scenes_ok (cache_obj s)" "set (to_upsert_uuids s) \<subseteq> registered s"
    "set (dirty_aabb s) \<subseteq> registered s" "objects s 0 = None" "0 < next_object s"
    "\<And>n. n \<ge> next_object s \<Longrightarrow> objects s n = None"
  using assms by (simp_all add: core_def)

lemma core_new [simp]: "objs 0 = None \<Longrightarrow> 0 < nxt \<Longrightarrow> (\<And>n. n \<ge> nxt \<Longrightarrow> objs n = None) \<Longrightarrow> core (StreamManager_new objs nxt)"
  by (simp add: core_def StreamManager_new_def registered_def)

lemma registered_put: "dom (map_of (dm_put u d r)) = insert u (dom (map_of r))"
  by simp

lemma core_erase_entry [core_intros]: "core s \<Longrightarrow> core (erase_registry_entry u s)"
  by (auto simp: core_def erase_registry_entry_def registered_def)

lemma core_put [core_intros]: "core s \<Longrightarrow> core (s\<lparr>registry := dm_put u d (registry s)\<rparr>)"
  by (auto simp: core_def registered_def)

lemma core_add_object [core_intros]: "core s \<Longrightarrow> core (add_object n s)"
  by (auto simp: core_def add_object_def registered_def Let_def split: option.split)

lemma core_request_remove [core_intros]: "core s \<Longrightarrow> core (request_remove u s)"
  by (auto simp: core_def request_remove_def registered_def)

lemma core_update_object [core_intros]: "core s \<Longrightarrow> core (update_object n s)"
  by (auto simp: core_def update_object_def registered_def Let_def split: option.split)

lemma core_object_put: "core s \<Longrightarrow> objects s n \<noteq> None \<Longrightarrow> core (s\<lparr>objects := (objects s)(n := x)\<rparr>)"
  by (auto simp: core_def registered_def)

lemma objects_add_object [simp]: "objects (add_object n s) = objects s"
  by (simp add: add_object_def Let_def split: option.split)

lemma core_entered [core_intros]: "core s \<Longrightarrow> core (on_object_entered gen n s)"
  by (auto simp: on_object_entered_def intro!: core_intros core_object_put split: option.split)

lemma core_exited [core_intros]: "core s \<Longrightarrow> core (on_object_exited n s)"
  by (auto simp: on_object_exited_def save_object_to_file_def core_def registered_def request_remove_def split: option.split)

lemma core_object_put': "core s \<Longrightarrow> objects s = objs \<Longrightarrow> objs n \<noteq> None \<Longrightarrow> core (s\<lparr>objects := objs(n := x)\<rparr>)"
  by (metis core_object_put)

lemma objects_exited [simp]: "objects (on_object_exited n s) = objects s"
  by (simp add: on_object_exited_def save_object_to_file_def request_remove_def split: option.split)

lemma core_add_child [core_intros]: "core s \<Longrightarrow> core (add_child gen n s)"
  by (auto simp: add_child_def Let_def intro!: core_intros core_object_put split: option.split)

lemma core_remove_child [core_intros]: "core s \<Longrightarrow> core (remove_child n s)"
  by (auto simp: remove_child_def Let_def intro!: core_object_put' core_exited split: option.split)

lemma core_attach [core_intros]: "core s \<Longrightarrow> core (attach_node eng n s)"
  by (auto simp: attach_node_def intro!: core_intros core_object_put split: option.split)

lemma core_cache: "core s \<Longrightarrow> scenes_ok c \<Longrightarrow> core (s\<lparr>cache_obj := c\<rparr>)"
  by (simp add: core_def registered_def)

section \<open>Loading\<close>

text \<open>What loading and unloading leave alone.\<close>

definition still :: "'sc StreamManager \<Rightarrow> uuid list \<times> uuid list \<times> uuid list \<times> string option \<times> (string \<times> db_task) list \<times>
    nat list \<times> bool \<times> 8 word" where
  "still s = (pending_removal s, load_queue s, to_remove s, db_worker s, pushed_tasks s, registered_probes s,
     self_inside s, query_process s)"

lemma still_entered [simp]: "still (on_object_entered gen n s) = still s"
  by (simp add: on_object_entered_def add_object_def still_def Let_def split: option.split)

lemma still_exited [simp]: "still (on_object_exited n s) = still s"
  by (simp add: on_object_exited_def save_object_to_file_def request_remove_def still_def split: option.split)

lemma still_upd [simp]: "still (s\<lparr>objects := a\<rparr>) = still s" "still (s\<lparr>cache_obj := b\<rparr>) = still s"
  "still (s\<lparr>next_object := k\<rparr>) = still s" "still (s\<lparr>loaded_queue := q\<rparr>) = still s" "still (s\<lparr>registry := r\<rparr>) = still s"
  by (simp_all add: still_def)

lemma still_add_child [simp]: "still (add_child gen n s) = still s"
  by (simp add: add_child_def Let_def split: option.split)

lemma still_remove_child [simp]: "still (remove_child n s) = still s"
  by (simp add: remove_child_def Let_def split: option.split)

lemma still_attach [simp]: "still (attach_node eng n s) = still s"
  by (simp add: attach_node_def split: option.split)

lemma loaded_queue_entered [simp]: "loaded_queue (on_object_entered gen n s) = loaded_queue s"
  by (simp add: on_object_entered_def add_object_def Let_def split: option.split)

lemma loaded_queue_attach [simp]: "loaded_queue (attach_node eng n s) = loaded_queue s"
  by (simp add: attach_node_def add_child_def Let_def split: option.split)

definition load_post :: "uuid \<Rightarrow> 'sc StreamManager \<Rightarrow> 'sc StreamManager \<Rightarrow> bool" where
  "load_post u s s' \<longleftrightarrow> core s' \<and> still s' = still s \<and>
     (loaded_queue s' = loaded_queue s \<or> loaded_queue s' = loaded_queue s @ [u])"

lemma load_post_cong: "still s = still t \<Longrightarrow> loaded_queue s = loaded_queue t \<Longrightarrow> load_post u s = load_post u t"
  by (simp add: load_post_def fun_eq_iff)

lemma request_later_ok:
  assumes "core s"
  shows "yields (request_later eng u s) (load_post u s)"
proof -
  obtain b c where "request_scene (load_accepted eng) u (object_scene_path u s) (cache_obj s) = Some (b, c)" "scenes_ok c"
    using request_scene_ok [OF coreD(9) [OF assms], of u "load_accepted eng" "object_scene_path u s"] by (metis (no_types))
  moreover have "core (s\<lparr>cache_obj := c, loaded_queue := q\<rparr>)" if "scenes_ok c" for c q
    using assms that by (simp add: core_def registered_def)
  ultimately show ?thesis by (simp add: request_later_def load_post_def)
qed

lemma core_instantiate:
  assumes "core s" "instantiate_in inst scene (objects s, next_object s) = (n, objs, nxt)"
  shows "core (s\<lparr>objects := objs, next_object := nxt\<rparr>)"
  using assms by (auto simp: instantiate_in_def core_def registered_def split: option.splits)

lemma reinstantiate_ok:
  assumes "core s"
  shows "yields (reinstantiate eng u s) (load_post u s)"
proof -
  obtain scene c where c: "get_scene u (cache_obj s) = Some (scene, c)" "scenes_ok c"
    using get_scene_ok [OF coreD(9) [OF assms], of u] by blast
  obtain c' where c': "remove_scene u c = Some c'" "scenes_ok c'" using remove_scene_ok [OF c(2), of u] by blast
  have "core (s\<lparr>cache_obj := c\<rparr>)" "core (s\<lparr>cache_obj := c'\<rparr>)" using assms c c' by (simp_all add: core_cache)
  moreover have "yields (request_later eng u (s\<lparr>cache_obj := c'\<rparr>)) (load_post u s)"
    using request_later_ok [OF calculation(2), of eng u] load_post_cong [of "s\<lparr>cache_obj := c'\<rparr>" s u] by simp
  moreover have "load_post u s (s\<lparr>cache_obj := c\<rparr>)" using calculation(1) by (simp add: load_post_def)
  moreover have "load_post u s (attach_node eng n (s\<lparr>cache_obj := c, objects := objs, next_object := nxt\<rparr>))"
    if "instantiate_in (instance_of eng) sc (objects s, next_object s) = (n, objs, nxt)" for sc n objs nxt
    using core_instantiate [of "s\<lparr>cache_obj := c\<rparr>" "instance_of eng" sc n objs nxt] calculation(1) that
    by (simp add: load_post_def core_attach)
  ultimately show ?thesis using c(1) c'(1)
    by (cases scene) (simp_all add: reinstantiate_def Let_def split: prod.split)
qed

lemma acquire_world:
  assumes "scenes_ok c"
  shows "\<exists>n c' w'. acquire usable inst u c w = Some (n, c', w') \<and> scenes_ok c' \<and> (w' = w \<or> (\<exists>sc. inst sc w = (n, w')))"
proof -
  let ?X = "case FindElem (node_cache c) u of
        Some n \<Rightarrow> if n \<noteq> 0 \<and> usable n then (n, w) else
          (case Option.bind (FindElem (scene_cache c) u) id of Some sc \<Rightarrow> inst sc w | None \<Rightarrow> (0, w))
      | None \<Rightarrow> (case Option.bind (FindElem (scene_cache c) u) id of Some sc \<Rightarrow> inst sc w | None \<Rightarrow> (0, w))"
  have "snd ?X = w \<or> (\<exists>sc. inst sc w = ?X)" by (auto split: option.split)
  moreover obtain c' where "acquire usable inst u c w = Some (let (n, w') = ?X in (n, c', w'))" "scenes_ok c'"
    using acquire_ok [OF assms, of u usable inst w] by blast
  moreover obtain n w' where "?X = (n, w')" by (meson surj_pair)
  ultimately show ?thesis by (simp only: Let_def case_prod_conv snd_conv) blast
qed

lemma load_object_scene_ok:
  assumes "core s"
  shows "yields (load_object_scene eng u s) (load_post u s)"
proof -
  obtain n c objs nxt where a: "acquire (usable_node s) (instantiate_in (instance_of eng)) u (cache_obj s)
      (objects s, next_object s) = Some (n, c, objs, nxt)" "scenes_ok c"
      "(objs, nxt) = (objects s, next_object s) \<or> (\<exists>sc. instantiate_in (instance_of eng) sc (objects s, next_object s) = (n, objs, nxt))"
    using acquire_world [OF coreD(9) [OF assms], of "usable_node s" "instantiate_in (instance_of eng)" u "(objects s, next_object s)"]
    by (metis prod.collapse)
  let ?s = "s\<lparr>cache_obj := c, objects := objs, next_object := nxt\<rparr>"
  have "core (s\<lparr>objects := objs, next_object := nxt\<rparr>)" using a(3) assms core_instantiate [OF assms] by auto
  then have c: "core ?s" using a(2) by (simp add: core_def registered_def)
  have p: "load_post u ?s = load_post u s" by (rule load_post_cong) simp_all
  have "load_post u s (attach_node eng n ?s)" using core_attach [OF c] by (simp add: load_post_def)
  then show ?thesis using request_later_ok [OF c, of eng u] reinstantiate_ok [OF c, of eng u] assms a(1)
    by (simp add: load_object_scene_def p Let_def split: option.split) (simp add: load_post_def)
qed

lemma load_loop_ok:
  "core s \<Longrightarrow> yields (load_loop eng n s) (\<lambda>s'. core s' \<and> still s' = still (s\<lparr>load_queue := drop n (load_queue s)\<rparr>) \<and>
    (\<exists>again. subseq again (take n (load_queue s)) \<and> loaded_queue s' = loaded_queue s @ again))"
proof (induction n arbitrary: s)
  case (Suc n)
  show ?case
  proof (cases "load_queue s")
    case Nil
    then show ?thesis using Suc.prems by (simp add: still_def)
  next
    case (Cons u rest)
    have c: "core (s\<lparr>load_queue := rest\<rparr>)" using Suc.prems by (simp add: core_def registered_def)
    have *: "yields (load_loop eng n s') (\<lambda>s'. core s' \<and> still s' = still (s\<lparr>load_queue := drop n rest\<rparr>) \<and>
        (\<exists>again. subseq again (take (Suc n) (load_queue s)) \<and> loaded_queue s' = loaded_queue s @ again))"
      if p: "load_post u (s\<lparr>load_queue := rest\<rparr>) s'" for s'
    proof -
      have q: "load_queue s' = rest" using p by (simp add: load_post_def still_def)
      have l: "loaded_queue s' = loaded_queue s \<or> loaded_queue s' = loaded_queue s @ [u]" using p by (simp add: load_post_def)
      have "still (s'\<lparr>load_queue := drop n rest\<rparr>) = still (s\<lparr>load_queue := drop n rest\<rparr>)" using p by (simp add: load_post_def still_def)
      then show ?thesis using q l
        by (intro yields_weaken [OF Suc.IH]) (use p in \<open>auto simp: Cons load_post_def\<close>)
    qed
    show ?thesis using yields_weaken [OF load_object_scene_ok [OF c, of eng u] *] by (simp add: Cons)
  qed
qed (simp add: still_def)

section \<open>Unloading and removing\<close>

text \<open>\<open>unload_post\<close>: also, the objects registered afterwards were registered before or are among those
  unloaded, no live node is added, and the parents of registered objects stay.\<close>

definition live :: "'sc StreamManager \<Rightarrow> uuid set" where
  "live s = {u. \<exists>d. map_of (registry s) u = Some d \<and> node_root d \<noteq> 0}"

definition parent_in :: "'sc StreamManager \<Rightarrow> uuid \<Rightarrow> uuid option" where
  "parent_in s u = map_option parent_uuid (map_of (registry s) u)"

lemma registered_parent: "u \<in> registered s \<longleftrightarrow> parent_in s u \<noteq> None"
  by (auto simp: registered_def parent_in_def)

definition unload_post :: "uuid set \<Rightarrow> 'sc StreamManager \<Rightarrow> 'sc StreamManager \<Rightarrow> bool" where
  "unload_post D s s' \<longleftrightarrow> core s' \<and> still s' = still s \<and> children_map s' = children_map s \<and>
     loaded_queue s' = loaded_queue s \<and> live s' \<subseteq> live s \<and>
     (\<forall>u. parent_in s' u = parent_in s u \<or> u \<in> D \<and> parent_in s u = None \<and> parent_in s' u = Some uuid_nil)"

lemma unload_post_refl: "core s \<Longrightarrow> unload_post D s s"
  by (simp add: unload_post_def)

lemma unload_post_trans: "unload_post D s s' \<Longrightarrow> unload_post D s' s'' \<Longrightarrow> unload_post D s s''"
  unfolding unload_post_def by (metis (no_types, lifting) option.simps(3) subset_trans)

lemma unload_post_put:
  assumes "core s"
  shows "unload_post {i} s (s\<lparr>registry := dm_put i ((registry_at i s)\<lparr>node_root := 0\<rparr>) (registry s)\<rparr>)"
    "unload_post {i} s (s\<lparr>registry := dm_put i (registry_at i s) (registry s)\<rparr>)"
  using core_put [OF assms] by (auto simp: unload_post_def live_def parent_in_def registry_at_def ObjectData_new_def split: option.split)

lemma unload_post_mono: "unload_post D s s' \<Longrightarrow> D \<subseteq> E \<Longrightarrow> unload_post E s s'"
  unfolding unload_post_def by blast

lemma registry_exited [simp]: "registry (on_object_exited n s) = registry s" "children_map (on_object_exited n s) = children_map s"
  "loaded_queue (on_object_exited n s) = loaded_queue s" "cache_obj (on_object_exited n s) = cache_obj s"
  by (simp_all add: on_object_exited_def save_object_to_file_def request_remove_def split: option.split)

lemma registry_remove_child [simp]: "registry (remove_child n s) = registry s" "children_map (remove_child n s) = children_map s"
  "loaded_queue (remove_child n s) = loaded_queue s" "cache_obj (remove_child n s) = cache_obj s"
  by (simp_all add: remove_child_def Let_def split: option.split)

lemma unload_post_remove_child: "core s \<Longrightarrow> unload_post D s (remove_child n s)"
  by (simp add: unload_post_def core_remove_child live_def parent_in_def)

lemma unload_post_cache: "core s \<Longrightarrow> scenes_ok c \<Longrightarrow> unload_post D s (s\<lparr>cache_obj := c\<rparr>)"
  by (simp add: unload_post_def core_cache live_def parent_in_def)

lemma unload_one_ok:
  assumes "core s"
  shows "yields (unload_one i s) (unload_post {i} s)"
proof -
  let ?n = "node_root (registry_at i s)"
  let ?s1 = "s\<lparr>registry := dm_put i (registry_at i s) (registry s)\<rparr>"
  let ?s2 = "remove_child ?n ?s1"
  have p1: "unload_post {i} s ?s1" by (rule unload_post_put [OF assms])
  have c1: "core ?s1" using p1 by (simp add: unload_post_def)
  have c2: "core ?s2" by (rule core_remove_child [OF c1])
  obtain c where c: "release i ?n (cache_obj ?s2) = Some c" "scenes_ok c"
    using release_ok [OF coreD(9) [OF c2], of i ?n] by blast
  let ?s3 = "?s2\<lparr>cache_obj := c\<rparr>"
  have c3: "core ?s3" by (rule core_cache [OF c2 c(2)])
  have "unload_post {i} s (?s3\<lparr>registry := dm_put i ((registry_at i ?s3)\<lparr>node_root := 0\<rparr>) (registry ?s3)\<rparr>)"
    by (intro unload_post_trans [OF p1] unload_post_trans [OF unload_post_remove_child [OF c1, of _ ?n]]
        unload_post_trans [OF unload_post_cache [OF c2 c(2)]] unload_post_put(1) [OF c3])
  then show ?thesis using p1 c(1)
    by (simp add: unload_one_def Let_def registry_at_def split: option.split)
qed

lemma unload_each_ok: "core s \<Longrightarrow> yields (unload_each ids s) (unload_post (set ids) s)"
proof (induction ids arbitrary: s)
  case Nil
  then show ?case by (simp add: unload_post_refl)
next
  case (Cons i ids)
  have "yields (unload_each ids s') (unload_post (set (i # ids)) s)" if p: "unload_post {i} s s'" for s'
  proof -
    have "core s'" using p by (simp add: unload_post_def)
    then show ?thesis using p
      by (intro yields_weaken [OF Cons.IH] unload_post_trans [OF unload_post_mono [OF p]]) (auto intro: unload_post_mono)
  qed
  then show ?case using yields_weaken [OF unload_one_ok [OF Cons.prems]] by simp
qed

lemma core_pending: "core s \<Longrightarrow> distinct p \<Longrightarrow> core (s\<lparr>pending_removal := p\<rparr>)"
  by (simp add: core_def registered_def)

lemma unload_object_ok:
  assumes "core s" "pending_removal s = []"
  shows "yields (unload_object u s) (unload_post (set (collect_descendants u s)) s)"
proof -
  let ?ids = "collect_descendants u s"
  let ?s = "s\<lparr>pending_removal := foldl (\<lambda>p i. ds_insert i p) (pending_removal s) ?ids\<rparr>"
  have d: "distinct (pending_removal ?s)" "set (pending_removal ?s) = set ?ids"
    using ds_insert_all [of "[]" ?ids] assms(2) by simp_all
  have c: "core ?s" using d(1) by (intro core_pending [OF assms(1)]) simp
  have "unload_post (set ?ids) s (s'\<lparr>pending_removal := foldl (\<lambda>p i. ds_erase i p) (pending_removal s') ?ids\<rparr>)"
    if p: "unload_post (set ?ids) ?s s'" for s'
  proof -
    have "pending_removal s' = pending_removal ?s" using p by (simp add: unload_post_def still_def)
    then have "foldl (\<lambda>p i. ds_erase i p) (pending_removal s') ?ids = []"
      using ds_erase_all [OF d(1), of ?ids] d(2) by simp
    moreover have "core (s'\<lparr>pending_removal := []\<rparr>)" using p by (simp add: unload_post_def core_pending)
    ultimately show ?thesis using p assms(2)
      by (simp add: unload_post_def still_def live_def parent_in_def)
  qed
  then have "yields (unload_each ?ids ?s)
      (\<lambda>s'. unload_post (set ?ids) s (s'\<lparr>pending_removal := foldl (\<lambda>p i. ds_erase i p) (pending_removal s') ?ids\<rparr>))"
    by (rule yields_weaken [OF unload_each_ok [OF c]])
  then show ?thesis using unload_post_refl [OF assms(1)] by (simp add: unload_object_def Let_def)
qed

definition erase_post :: "uuid set \<Rightarrow> 'sc StreamManager \<Rightarrow> 'sc StreamManager \<Rightarrow> bool" where
  "erase_post U s s' \<longleftrightarrow> core s' \<and> still s' = still s \<and> children_map s' = children_map s \<and>
     loaded_queue s' = loaded_queue s \<and> live s' \<subseteq> live s - U \<and>
     (\<forall>v. parent_in s' v = parent_in s v \<or> parent_in s' v = None \<and> v \<in> U \<or>
        parent_in s' v = Some uuid_nil \<and> (v \<in> U \<or> parent_in s v = None) \<and> v \<in> (child_rel (children_map s))\<^sup>* `` U)"

lemma live_erase: "core s \<Longrightarrow> live (erase_registry_entry u s) = live s - {u}"
  by (auto simp: live_def erase_registry_entry_def coreD)

lemma parent_in_erase: "core s \<Longrightarrow> parent_in (erase_registry_entry u s) = (parent_in s)(u := None)"
  by (auto simp: fun_eq_iff parent_in_def erase_registry_entry_def coreD)

lemma still_erase [simp]: "still (erase_registry_entry u s) = still s"
  "children_map (erase_registry_entry u s) = children_map s" "loaded_queue (erase_registry_entry u s) = loaded_queue s"
  by (simp_all add: still_def erase_registry_entry_def)

lemma erase_post_one:
  assumes "unload_post (set (collect_descendants u s)) s s1"
  shows "erase_post {u} s (erase_registry_entry u s1)"
proof -
  have c: "core s1" using assms by (simp add: unload_post_def)
  show ?thesis using assms core_erase_entry [OF c, of u]
    by (auto simp: unload_post_def erase_post_def live_erase [OF c] parent_in_erase [OF c] set_collect_descendants)
qed

lemma erase_post_trans:
  assumes "erase_post U s s1" "erase_post V s1 s2"
  shows "erase_post (U \<union> V) s s2"
proof -
  have "\<forall>v. parent_in s2 v = parent_in s v \<or> parent_in s2 v = None \<and> v \<in> U \<union> V \<or>
        parent_in s2 v = Some uuid_nil \<and> (v \<in> U \<union> V \<or> parent_in s v = None) \<and> v \<in> (child_rel (children_map s))\<^sup>* `` (U \<union> V)"
    (is "\<forall>v. ?P v")
  proof
    fix v
    have r: "(child_rel (children_map s))\<^sup>* `` (U \<union> V) = (child_rel (children_map s))\<^sup>* `` U \<union> (child_rel (children_map s))\<^sup>* `` V"
      by auto
    have "parent_in s1 v = parent_in s v \<or> parent_in s1 v = None \<and> v \<in> U \<or>
        parent_in s1 v = Some uuid_nil \<and> (v \<in> U \<or> parent_in s v = None) \<and> v \<in> (child_rel (children_map s))\<^sup>* `` U"
      "parent_in s2 v = parent_in s1 v \<or> parent_in s2 v = None \<and> v \<in> V \<or>
        parent_in s2 v = Some uuid_nil \<and> (v \<in> V \<or> parent_in s1 v = None) \<and> v \<in> (child_rel (children_map s))\<^sup>* `` V"
      using assms by (simp_all add: erase_post_def)
    then show "?P v" unfolding r by auto
  qed
  then show ?thesis using assms by (auto simp: erase_post_def)
qed

lemma unload_and_erase_ok:
  "core s \<Longrightarrow> pending_removal s = [] \<Longrightarrow> yields (unload_and_erase us s) (erase_post (set us) s)"
proof (induction us arbitrary: s)
  case Nil
  then show ?case by (simp add: erase_post_def)
next
  case (Cons u us)
  have "yields (unload_and_erase us (erase_registry_entry u s1)) (erase_post (set (u # us)) s)"
    if "unload_post (set (collect_descendants u s)) s s1" for s1
  proof -
    note e = erase_post_one [OF that]
    have "core (erase_registry_entry u s1)" "pending_removal (erase_registry_entry u s1) = []"
      using e Cons.prems(2) by (simp_all add: erase_post_def still_def)
    from Cons.IH [OF this] show ?thesis
      by (rule yields_weaken) (use erase_post_trans [OF e] in simp)
  qed
  then show ?case using yields_weaken [OF unload_object_ok [OF Cons.prems]] by simp
qed

end
