(* ===== verification/StreamManagerProps.thy ===== *)
theory StreamManagerProps
  imports StreamManagerInv
begin

text \<open>
  What the handlers of the manager do: the removal of a subtree, the answer of a query, a frame, and
  the invariant over every run of calls.
\<close>

section \<open>A small world\<close>

text \<open>One streamed object under its node 1, and below it a child that has no node: the state the concrete
  instances of the properties use.\<close>

definition sample_uuid :: "byte \<Rightarrow> uuid" where
  "sample_uuid b = replicate 16 b"

definition sample_node :: Node where
  "sample_node = \<lparr>is_stream_object = True, node_uuid = sample_uuid 1, node_parent_uuid = uuid_nil,
     queued_for_deletion = False, placement = UnderManager, node_aabb = AABB_new\<rparr>"

definition sample_new :: "nat StreamManager" where
  "sample_new = StreamManager_new (\<lambda>n. if n = 1 then Some sample_node else None) 2"

definition sample_leaf :: "nat StreamManager" where
  "sample_leaf = sample_new\<lparr>self_inside := True, db_worker := Some ''world.db'', load_queue := [sample_uuid 7],
     registry := [(sample_uuid 1, \<lparr>parent_uuid = uuid_nil, node_root = 1\<rparr>), (sample_uuid 3, ObjectData_new)]\<rparr>"

definition sample_tree :: "nat StreamManager" where
  "sample_tree = sample_leaf\<lparr>children_map := [(sample_uuid 1, [sample_uuid 2])],
     registry := registry sample_leaf @ [(sample_uuid 2, \<lparr>parent_uuid = sample_uuid 1, node_root = 0\<rparr>)]\<rparr>"

definition sample_engine :: "nat Engine" where
  "sample_engine = \<lparr>load_accepted = \<lambda>_. True, load_status_of = \<lambda>_. InProgress, load_result = \<lambda>_. None,
     instance_of = \<lambda>_. None, probe_box = \<lambda>_. Some AABB_new, fresh_uuid = sample_uuid 9,
     dir_available = \<lambda>_. True, derived_dir = id\<rparr>"

lemma sample_uuid_eq [simp]: "sample_uuid a = sample_uuid b \<longleftrightarrow> a = b" "is_nil (sample_uuid a) \<longleftrightarrow> a = 0"
  "is_nil uuid_nil" by (simp_all add: sample_uuid_def uuid_nil_def is_nil_def list.pred_set)

lemma core_sample: "core sample_new" "core sample_leaf" "core sample_tree"
proof -
  show n: "core sample_new" unfolding sample_new_def by (rule core_new) auto
  then show "core sample_leaf"
    by (simp add: sample_leaf_def core_def registered_def dm_inv_def sample_new_def StreamManager_new_def)
  then show "core sample_tree"
    by (simp add: sample_tree_def sample_leaf_def core_def registered_def dm_inv_def sample_new_def StreamManager_new_def
        children_ok_def child_list_def)
qed

section \<open>Removing a subtree\<close>

text \<open>\<open>remove_post\<close>: which entries, children and files go, and what is filed for the database.\<close>

definition remove_post :: "uuid list \<Rightarrow> 'sc StreamManager \<Rightarrow> 'sc StreamManager \<Rightarrow> bool" where
  "remove_post ids s s' \<longleftrightarrow> core s' \<and> still (s'\<lparr>to_remove := to_remove s\<rparr>) = still s \<and> loaded_queue s' = loaded_queue s \<and>
     object_removal s' = object_removal s \<and>
     map_of (registry s') = map_of (registry s) |` (- set ids) \<and>
     set (to_remove s') = set (to_remove s) \<union> (set ids \<inter> registered s) \<and>
     (\<forall>v. children_at (children_map s') v = children_at (children_map s) v -
        {i \<in> set ids. parent_in s i = Some v \<and> \<not> is_nil v}) \<and>
     file_log s' = file_log s @ map RemoveSceneFile (filter (\<lambda>i. i \<in> registered s) ids)"

lemma remove_one_ok:
  assumes "core s"
  shows "yields (remove_one i s) (remove_post [i] s)"
proof (cases "map_of (registry s) i")
  case None
  then have "map_of (registry s) |` (- {i}) = map_of (registry s)" by (auto simp: restrict_map_def fun_eq_iff)
  then show ?thesis using None assms by (auto simp: remove_one_def remove_post_def registered_def parent_in_def)
next
  case (Some d)
  obtain c1 where c1: "remove_scene i (cache_obj s) = Some c1" "scenes_ok c1"
    using remove_scene_ok [OF coreD(9) [OF assms], of i] by blast
  obtain c2 where c2: "remove_scene i c1 = Some c2" "scenes_ok c2" using remove_scene_ok [OF c1(2), of i] by blast
  let ?m = "if is_nil (parent_uuid d) then children_map s else child_erase (parent_uuid d) i (children_map s)"
  let ?s = "erase_registry_entry i (s\<lparr>file_log := file_log s @ [RemoveSceneFile i], cache_obj := c2, children_map := ?m,
    registry := dm_erase i (registry s), to_remove := ds_insert i (to_remove s)\<rparr>)"
  have r: "remove_one i s = Some ?s" using Some c1(1) c2(1)
    by (simp add: remove_one_def delete_object_scene_def)
  note ok = coreD [OF assms]
  have "core ?s" using ok c2(2) by (auto simp: core_def erase_registry_entry_def registered_def)
  moreover have "map_of (registry ?s) = map_of (registry s) |` (- {i})"
    using ok(1) by (auto simp: erase_registry_entry_def restrict_map_def fun_eq_iff)
  moreover have "children_at ?m v = children_at (children_map s) v - {j \<in> {i}. parent_in s j = Some v \<and> \<not> is_nil v}" for v
    using Some ok(2) by (auto simp: parent_in_def children_at_erase split: if_splits)
  ultimately show ?thesis using Some r
    by (simp add: remove_post_def registered_def still_def) (simp add: erase_registry_entry_def insert_absorb dom_def)
qed

lemma remove_post_Cons:
  assumes "remove_post [i] s s1" "remove_post ids s1 s2" "i \<notin> set ids"
  shows "remove_post (i # ids) s s2"
proof -
  note p1 = assms(1) [unfolded remove_post_def] and p2 = assms(2) [unfolded remove_post_def]
  have m1: "map_of (registry s1) = map_of (registry s) |` (- {i})" using p1 by simp
  have par: "parent_in s1 j = parent_in s j" "j \<in> registered s1 \<longleftrightarrow> j \<in> registered s" if "j \<in> set ids" for j
  proof -
    have "j \<noteq> i" using that assms(3) by blast
    then show "parent_in s1 j = parent_in s j" "j \<in> registered s1 \<longleftrightarrow> j \<in> registered s"
      by (simp_all add: parent_in_def registered_def m1 dom_def)
  qed
  have "map_of (registry s2) = map_of (registry s) |` (- set (i # ids))" using p2 m1
    by (auto simp: restrict_map_def fun_eq_iff)
  moreover have "set (to_remove s2) = set (to_remove s) \<union> (set (i # ids) \<inter> registered s)"
    using p1 p2 par(2) by auto
  moreover have "children_at (children_map s2) v = children_at (children_map s) v -
      {j \<in> set (i # ids). parent_in s j = Some v \<and> \<not> is_nil v}" for v
  proof -
    have a1: "children_at (children_map s1) v = children_at (children_map s) v - {j \<in> set [i]. parent_in s j = Some v \<and> \<not> is_nil v}"
      using p1 by blast
    have a2: "children_at (children_map s2) v = children_at (children_map s1) v - {j \<in> set ids. parent_in s1 j = Some v \<and> \<not> is_nil v}"
      using p2 by blast
    show ?thesis unfolding a2 a1 using par(1) by auto
  qed
  moreover have "filter (\<lambda>j. j \<in> registered s1) ids = filter (\<lambda>j. j \<in> registered s) ids"
    using par(2) by (intro filter_cong) auto
  ultimately show ?thesis using p1 p2 by (simp add: remove_post_def still_def)
qed

lemma remove_each_ok: "core s \<Longrightarrow> distinct ids \<Longrightarrow> yields (remove_each ids s) (remove_post ids s)"
proof (induction ids arbitrary: s)
  case Nil
  then show ?case by (simp add: remove_post_def restrict_map_def)
next
  case (Cons i ids)
  have "yields (remove_each ids s1) (remove_post (i # ids) s)" if p: "remove_post [i] s s1" for s1
  proof -
    have "core s1" using p by (simp add: remove_post_def)
    then show ?thesis using Cons.prems(2)
      by (intro yields_weaken [OF Cons.IH] remove_post_Cons [OF p]) auto
  qed
  then show ?case using yields_weaken [OF remove_one_ok [OF Cons.prems(1), of i]] by simp
qed

lemma dm_erase_all:
  "children_ok m \<Longrightarrow> children_ok (foldl (\<lambda>m i. dm_erase i m) m ids) \<and>
    dom (map_of (foldl (\<lambda>m i. dm_erase i m) m ids)) = dom (map_of m) - set ids \<and>
    child_list (foldl (\<lambda>m i. dm_erase i m) m ids) = (\<lambda>v. if v \<in> set ids then [] else child_list m v)"
proof (induction ids arbitrary: m)
  case (Cons i ids)
  have "dm_inv m" using Cons.prems by (simp add: children_ok_def)
  then show ?case using Cons.IH [of "dm_erase i m"] Cons.prems by (auto simp: fun_eq_iff child_list_dm_erase split: if_splits)
qed simp

definition remove_tree_post :: "uuid set \<Rightarrow> 'sc StreamManager \<Rightarrow> 'sc StreamManager \<Rightarrow> bool" where
  "remove_tree_post D s s' \<longleftrightarrow> core s' \<and> still (s'\<lparr>to_remove := to_remove s\<rparr>) = still s \<and> loaded_queue s' = loaded_queue s \<and>
     object_removal s' = object_removal s \<and>
     map_of (registry s') = map_of (registry s) |` (- D) \<and>
     set (to_remove s') = set (to_remove s) \<union> (D \<inter> registered s) \<and>
     dom (map_of (children_map s')) \<inter> D = {} \<and>
     (\<forall>v. children_at (children_map s') v = (if v \<in> D then {} else
        children_at (children_map s) v - {i \<in> D. parent_in s i = Some v \<and> \<not> is_nil v}))"

lemma core_children: "core s \<Longrightarrow> children_ok m \<Longrightarrow> core (s\<lparr>children_map := m\<rparr>)"
  by (simp add: core_def registered_def)

lemma remove_tree_ok:
  assumes "core s"
  shows "yields (remove_tree u s) (remove_tree_post ((child_rel (children_map s))\<^sup>* `` {u}) s)"
proof -
  let ?ids = "collect_descendants u s"
  have "remove_tree_post (set ?ids) s (s'\<lparr>children_map := foldl (\<lambda>m i. dm_erase i m) (children_map s') ?ids\<rparr>)"
    if p: "remove_post ?ids s s'" for s'
  proof -
    have c: "core s'" using p by (simp add: remove_post_def)
    note e = dm_erase_all [OF coreD(2) [OF c], of ?ids]
    have "core (s'\<lparr>children_map := foldl (\<lambda>m i. dm_erase i m) (children_map s') ?ids\<rparr>)" using e by (simp add: core_children [OF c])
    then show ?thesis using p e by (auto simp: remove_tree_post_def remove_post_def still_def)
  qed
  from yields_weaken [OF remove_each_ok [OF assms distinct_collect_descendants] this]
  show ?thesis by (simp add: remove_tree_def Let_def set_collect_descendants)
qed

text \<open>C6: Removing an object removes its subtree, and nothing else. The walk over the children ends and
  meets every object reachable from the root of the removal once, cycles included; afterwards exactly
  the others stay registered, each removed object that was registered is filed for deletion in the
  database, none of the removed ones has children any more, and the lists of children of the others
  lose exactly the removed objects they were the registered parents of.\<close>

theorem remove_object_removes_subtree:
  assumes "core s"
  shows "\<exists>s'. remove_tree u s = Some s' \<and> (let D = (child_rel (children_map s))\<^sup>* `` {u} in
    map_of (registry s') = map_of (registry s) |` (- D) \<and>
    set (to_remove s') = set (to_remove s) \<union> (D \<inter> registered s) \<and>
    (\<forall>v. children_at (children_map s') v = (if v \<in> D then {} else
        children_at (children_map s) v - {i \<in> D. parent_in s i = Some v \<and> \<not> is_nil v})) \<and>
    set (collect_descendants u s) = D \<and> distinct (collect_descendants u s))"
  using remove_tree_ok [OF assms, of u] distinct_collect_descendants [of u s]
  unfolding yields_iff remove_tree_post_def Let_def set_collect_descendants by blast

theorem remove_object_removes_subtree_witness:
  "\<exists>s'. remove_tree (sample_uuid 1) sample_tree = Some s' \<and> map_of (registry s') (sample_uuid 2) = None \<and>
    map_of (registry s') (sample_uuid 3) \<noteq> None \<and> sample_uuid 2 \<in> set (to_remove s')"
proof -
  let ?D = "(child_rel (children_map sample_tree))\<^sup>* `` {sample_uuid 1}"
  have r: "child_rel (children_map sample_tree) = {(sample_uuid 1, sample_uuid 2)}"
    by (auto simp: child_rel_def sample_tree_def split: if_splits)
  have D: "sample_uuid 2 \<in> ?D" "sample_uuid 3 \<notin> ?D" unfolding r by (auto elim: rtranclE)
  have reg: "map_of (registry sample_tree) (sample_uuid 3) \<noteq> None" "sample_uuid 2 \<in> registered sample_tree"
    by (simp_all add: sample_tree_def sample_leaf_def registered_def)
  show ?thesis using remove_object_removes_subtree [OF core_sample(3), of "sample_uuid 1"] D reg
    unfolding Let_def by (elim exE conjE) (simp add: restrict_map_def)
qed

section \<open>The answer of a query\<close>

lemma set_new_set: "set (foldl (\<lambda>a p. ds_insert (fst p) a) a ps) = set a \<union> fst ` set ps"
  by (induction ps arbitrary: a) auto

lemma merge_one_parent: "map_option parent_uuid (map_of (merge_one r p) u) =
    (if u = fst p then Some (parent_uuid (snd p)) else map_option parent_uuid (map_of r u))"
  by (auto simp: merge_one_def split: option.split)

lemma merge_one_root: "map_option node_root (map_of (merge_one r p) u) =
    (if u = fst p \<and> map_of r u = None then Some (node_root (snd p)) else map_option node_root (map_of r u))"
  by (auto simp: merge_one_def split: option.split)

lemma dm_inv_merge_one [simp]: "dm_inv r \<Longrightarrow> dm_inv (merge_one r p)"
  by (simp add: merge_one_def split: option.split)

lemma dm_inv_merge: "dm_inv r \<Longrightarrow> dm_inv (foldl merge_one r ps)"
  by (induction ps arbitrary: r) auto

lemma merge_parent: "dm_inv ps \<Longrightarrow> map_option parent_uuid (map_of (foldl merge_one r ps) u) =
    (case map_of ps u of Some d \<Rightarrow> Some (parent_uuid d) | None \<Rightarrow> map_option parent_uuid (map_of r u))"
proof (induction ps arbitrary: r)
  case (Cons p ps)
  have "dm_inv ps" "map_of ps (fst p) = None" using Cons.prems by (auto simp: dm_inv_def map_of_eq_None_iff)
  with Cons.IH show ?case by (cases p) (auto simp: merge_one_parent split: option.split)
qed simp

lemma merge_root:
  assumes "\<forall>p \<in> set ps. node_root (snd p) = 0"
  shows "(\<exists>d. map_of (foldl merge_one r ps) u = Some d \<and> node_root d \<noteq> 0) \<longleftrightarrow> (\<exists>d. map_of r u = Some d \<and> node_root d \<noteq> 0)"
  using assms
proof (induction ps arbitrary: r)
  case (Cons p ps)
  have "(\<exists>d. map_of (merge_one r p) u = Some d \<and> node_root d \<noteq> 0) \<longleftrightarrow> (\<exists>d. map_of r u = Some d \<and> node_root d \<noteq> 0)"
    using Cons.prems by (auto simp: merge_one_def split: option.split)
  then show ?case using Cons by simp
qed simp

lemma rebuild_step:
  "children_at (foldl (\<lambda>m p. if is_nil (parent_uuid (snd p)) then m else child_insert (parent_uuid (snd p)) (fst p) m) m r) v =
    children_at m v \<union> {u. \<exists>d. (u, d) \<in> set r \<and> parent_uuid d = v \<and> \<not> is_nil v}"
proof (induction r arbitrary: m)
  case (Cons p r)
  obtain u d where p: "p = (u, d)" by (cases p)
  show ?case
  proof (cases "is_nil (parent_uuid d)")
    case True
    then show ?thesis unfolding p foldl_Cons Cons.IH by auto
  next
    case False
    then show ?thesis unfolding p foldl_Cons Cons.IH by (auto simp: child_list_insert)
  qed
qed simp

lemma children_ok_rebuild: "children_ok (rebuild_children r)"
proof -
  have "children_ok m \<Longrightarrow> children_ok (foldl (\<lambda>m p. if is_nil (parent_uuid (snd p)) then m
     else child_insert (parent_uuid (snd p)) (fst p) m) m r)" for m
    by (induction r arbitrary: m) auto
  then show ?thesis by (simp add: rebuild_children_def)
qed

lemma children_at_rebuild:
  assumes "dm_inv r"
  shows "children_at (rebuild_children r) v = {u. map_option parent_uuid (map_of r u) = Some v \<and> \<not> is_nil v}"
  using assms by (auto simp: rebuild_children_def rebuild_step dm_inv_def)

lemma set_roots_to_load:
  assumes "dm_inv r"
  shows "set (roots_to_load r) = {u. \<exists>d. map_of r u = Some d \<and> is_nil (parent_uuid d) \<and> node_root d = 0}"
  using assms by (force simp: roots_to_load_def dm_inv_def)

definition query_post :: "(uuid, ObjectData) a_hashmap \<Rightarrow> 'sc StreamManager \<Rightarrow> 'sc StreamManager \<Rightarrow> bool" where
  "query_post db_objects s s' \<longleftrightarrow> core s' \<and> pending_removal s' = [] \<and> loaded_queue s' = loaded_queue s \<and>
     query_process s' = query_process s \<and>
     (\<forall>u. parent_in s u \<noteq> None \<and> u \<notin> live s \<and> map_of db_objects u = None \<longrightarrow> parent_in s' u = parent_in s u) \<and>
     (\<forall>u d. map_of db_objects u = Some d \<longrightarrow> parent_in s' u = Some (parent_uuid d)) \<and>
     ((\<forall>p \<in> set db_objects. node_root (snd p) = 0) \<longrightarrow> live s' \<subseteq> live s \<inter> dom (map_of db_objects)) \<and>
     (\<forall>v. children_at (children_map s') v = {u. parent_in s' u = Some v \<and> \<not> is_nil v}) \<and>
     (\<exists>q. load_queue s' = load_queue s @ q \<and>
        set q = {u. \<exists>p. parent_in s' u = Some p \<and> is_nil p \<and> u \<notin> live s'})"

lemma on_query_result_ok:
  assumes "core s" "pending_removal s = []" "dm_inv db_objects"
  shows "yields (on_query_result db_objects s) (query_post db_objects s)"
proof -
  let ?U = "map fst (filter (\<lambda>p. fst p \<notin> set (foldl (\<lambda>a p. ds_insert (fst p) a) [] db_objects) \<and> node_root (snd p) \<noteq> 0) (registry s))"
  have U: "set ?U = live s - dom (map_of db_objects)"
    using coreD(1) [OF assms(1)] by (force simp: set_new_set live_def dm_inv_def dom_map_of_conv_image_fst)
  have "query_post db_objects s (s'\<lparr>registry := foldl merge_one (registry s') db_objects,
      children_map := rebuild_children (foldl merge_one (registry s') db_objects),
      load_queue := load_queue s' @ roots_to_load (foldl merge_one (registry s') db_objects)\<rparr>)"
    if e: "erase_post (set ?U) s s'" for s'
  proof -
    let ?r = "foldl merge_one (registry s') db_objects"
    have c: "core s'" using e by (simp add: erase_post_def)
    have inv: "dm_inv ?r" using coreD(1) [OF c] by (rule dm_inv_merge)
    have par: "map_option parent_uuid (map_of ?r u) = (case map_of db_objects u of Some d \<Rightarrow> Some (parent_uuid d)
        | None \<Rightarrow> parent_in s' u)" for u unfolding merge_parent [OF assms(3)] parent_in_def ..
    have sub: "registered s' \<subseteq> dom (map_of ?r)"
    proof
      fix u assume "u \<in> registered s'"
      then have "map_option parent_uuid (map_of ?r u) \<noteq> None" unfolding par by (auto simp: registered_parent split: option.split)
      then show "u \<in> dom (map_of ?r)" by auto
    qed
    have "set (to_upsert_uuids s') \<subseteq> dom (map_of ?r)" "set (dirty_aabb s') \<subseteq> dom (map_of ?r)"
      using coreD(10,11) [OF c] sub by blast+
    then have core: "core (s'\<lparr>registry := ?r, children_map := rebuild_children ?r, load_queue := q\<rparr>)" for q
      using c inv children_ok_rebuild by (simp add: core_def registered_def)
    have live: "{u. \<exists>d. map_of ?r u = Some d \<and> node_root d \<noteq> 0} \<subseteq> live s \<inter> dom (map_of db_objects)"
      if "\<forall>p \<in> set db_objects. node_root (snd p) = 0"
    proof -
      have "live s' \<subseteq> live s \<inter> dom (map_of db_objects)" using e unfolding U erase_post_def by blast
      then show ?thesis unfolding merge_root [OF that] live_def [symmetric] .
    qed
    have par': "parent_in (s'\<lparr>registry := ?r, children_map := m, load_queue := q\<rparr>) u = map_option parent_uuid (map_of ?r u)" for u m q
      by (simp add: parent_in_def)
    have st: "load_queue s' = load_queue s" "pending_removal s' = []" "loaded_queue s' = loaded_queue s"
      "query_process s' = query_process s" using e assms(2) by (simp_all add: erase_post_def still_def)
    have keep: "parent_in s' u = parent_in s u" if "parent_in s u \<noteq> None" "u \<notin> live s" for u
      using e that unfolding erase_post_def U by (metis DiffE)
    show ?thesis unfolding query_post_def
    proof (intro conjI allI impI)
      show "parent_in (s'\<lparr>registry := ?r, children_map := rebuild_children ?r, load_queue := load_queue s' @ roots_to_load ?r\<rparr>) u =
        Some (parent_uuid d)" if "map_of db_objects u = Some d" for u d unfolding par' par using that by simp
      show "\<exists>q. load_queue (s'\<lparr>registry := ?r, children_map := rebuild_children ?r, load_queue := load_queue s' @ roots_to_load ?r\<rparr>) =
          load_queue s @ q \<and> set q = {u. \<exists>p. parent_in (s'\<lparr>registry := ?r, children_map := rebuild_children ?r,
            load_queue := load_queue s' @ roots_to_load ?r\<rparr>) u = Some p \<and> is_nil p \<and> u \<notin> live (s'\<lparr>registry := ?r,
            children_map := rebuild_children ?r, load_queue := load_queue s' @ roots_to_load ?r\<rparr>)}"
        unfolding par' using set_roots_to_load [OF inv] st by (auto simp: live_def)
    qed (use core live st keep in \<open>simp_all add: par' par children_at_rebuild [OF inv] live_def\<close>)
  qed
  then have "yields (unload_and_erase ?U s) (\<lambda>s'. query_post db_objects s (s'\<lparr>registry := foldl merge_one (registry s') db_objects,
      children_map := rebuild_children (foldl merge_one (registry s') db_objects),
      load_queue := load_queue s' @ roots_to_load (foldl merge_one (registry s') db_objects)\<rparr>))"
    by (rule yields_weaken [OF unload_and_erase_ok [OF assms(1,2)]])
  then show ?thesis by (simp only: on_query_result_def Let_def yields_bind yields_Some)
qed

text \<open>C3: The answer of a query. Whatever was registered, the handler has a result; afterwards every object
  of the answer is registered under the parent the database names, the objects that keep a live node are
  in the answer, the lists of children are exactly the parent relation of the registry, and the load
  queue grows by exactly the registered objects without parent and without a live node.\<close>

theorem query_result_reconciles:
  assumes "core s" "pending_removal s = []" "dm_inv db_objects" "\<forall>p \<in> set db_objects. node_root (snd p) = 0"
  shows "\<exists>s' q. on_query_result db_objects s = Some s' \<and>
    (\<forall>u d. map_of db_objects u = Some d \<longrightarrow> parent_in s' u = Some (parent_uuid d)) \<and>
    live s' \<subseteq> live s \<inter> dom (map_of db_objects) \<and>
    (\<forall>v. children_at (children_map s') v = {u. parent_in s' u = Some v \<and> \<not> is_nil v}) \<and>
    load_queue s' = load_queue s @ q \<and>
    set q = {u. \<exists>p. parent_in s' u = Some p \<and> is_nil p \<and> u \<notin> live s'}"
  using on_query_result_ok [OF assms(1,2,3)] assms(4) unfolding yields_iff query_post_def by blast

theorem query_result_reconciles_witness:
  "\<exists>s' q. on_query_result [(sample_uuid 2, \<lparr>parent_uuid = sample_uuid 1, node_root = 0\<rparr>)] sample_leaf = Some s' \<and>
    parent_in s' (sample_uuid 2) = Some (sample_uuid 1) \<and> live s' = {} \<and> load_queue s' = load_queue sample_leaf @ q"
proof -
  have "pending_removal sample_leaf = []" "sample_uuid 2 \<notin> live sample_leaf"
    by (auto simp: sample_leaf_def sample_new_def StreamManager_new_def live_def ObjectData_new_def split: if_splits)
  with query_result_reconciles [OF core_sample(2), of "[(sample_uuid 2, \<lparr>parent_uuid = sample_uuid 1, node_root = 0\<rparr>)]"]
  show ?thesis by (fastforce simp: dm_inv_def)
qed

section \<open>Frames\<close>

definition manager_ok :: "'sc StreamManager \<Rightarrow> bool" where
  "manager_ok s \<longleftrightarrow> core s \<and> pending_removal s = [] \<and> loaded_queue s = [] \<and> query_process s < 4"

lemma remove_requested_ok:
  "core s \<Longrightarrow> yields (remove_requested us s) (\<lambda>s'. core s' \<and> still (s'\<lparr>to_remove := to_remove s\<rparr>) = still s \<and> loaded_queue s' = loaded_queue s)"
proof (induction us arbitrary: s)
  case (Cons u us)
  have "yields (remove_requested us s1) (\<lambda>s'. core s' \<and> still (s'\<lparr>to_remove := to_remove s\<rparr>) = still s \<and> loaded_queue s' = loaded_queue s)"
    if p: "remove_tree_post D s s1" for D s1
    by (rule yields_weaken [OF Cons.IH]) (use p in \<open>auto simp: remove_tree_post_def still_def\<close>)
  then show ?case using yields_weaken [OF remove_tree_ok [OF Cons.prems, of u]] by simp
qed simp

lemma core_flush: "core s \<Longrightarrow> core (flush_pending_db_ops s)"
  by (simp add: flush_pending_db_ops_def push_db_task_def Let_def core_def registered_def split: option.split)

definition flush_tasks :: "'sc StreamManager \<Rightarrow> (string \<times> db_task) list" where
  "flush_tasks s = (case db_worker s of None \<Rightarrow> []
     | Some path \<Rightarrow> if upsert_snapshot s = [] \<and> to_remove s = [] \<and> dirty_snapshot s = [] then []
         else [(path, FlushTask (upsert_snapshot s) (to_remove s) (dirty_snapshot s))])"

lemma flush_pending:
  "pushed_tasks (flush_pending_db_ops s) = pushed_tasks s @ flush_tasks s"
  "db_worker s \<noteq> None \<Longrightarrow> to_upsert_uuids (flush_pending_db_ops s) = []"
  "db_worker s \<noteq> None \<Longrightarrow> to_remove (flush_pending_db_ops s) = []"
  "db_worker s \<noteq> None \<Longrightarrow> dirty_aabb (flush_pending_db_ops s) = []"
  "db_worker (flush_pending_db_ops s) = db_worker s" "load_queue (flush_pending_db_ops s) = load_queue s"
  "loaded_queue (flush_pending_db_ops s) = loaded_queue s" "pending_removal (flush_pending_db_ops s) = pending_removal s"
  "registered_probes (flush_pending_db_ops s) = registered_probes s" "query_process (flush_pending_db_ops s) = query_process s"
  "self_inside (flush_pending_db_ops s) = self_inside s"
  by (auto simp: flush_pending_db_ops_def flush_tasks_def push_db_task_def Let_def upsert_snapshot_def dirty_snapshot_def
      List.map_filter_def split: option.split)

lemma probe_boxes_alive: "probe_boxes box ns = (if \<forall>n \<in> set ns. box n \<noteq> None then Some (map (the \<circ> box) ns) else None)"
  by (induction ns) (auto split: option.split)

definition query_tasks :: "'sc Engine \<Rightarrow> 'sc StreamManager \<Rightarrow> (string \<times> db_task) list" where
  "query_tasks eng s = (case db_worker s of None \<Rightarrow> []
     | Some path \<Rightarrow> if query_process s = 3 \<and> registered_probes s \<noteq> []
         then [(path, QueryTask (map (the \<circ> probe_box eng) (registered_probes s)))] else [])"

definition probes_alive :: "'sc Engine \<Rightarrow> 'sc StreamManager \<Rightarrow> bool" where
  "probes_alive eng s \<longleftrightarrow> (\<forall>n \<in> set (registered_probes s). probe_box eng n \<noteq> None)"

lemma byte_counter: "(q :: 8 word) < 4 \<Longrightarrow> q = 0 \<or> q = 1 \<or> q = 2 \<or> q = 3"
proof -
  assume "q < 4"
  then have "unat q = 0 \<or> unat q = 1 \<or> unat q = 2 \<or> unat q = 3" by (auto simp: word_less_nat_alt)
  then show ?thesis by (simp add: word_unat_eq_iff)
qed

lemma query_frame_ok:
  assumes "core s" "query_process s < 4" "query_process s = 3 \<longrightarrow> probes_alive eng s" "db_worker s \<noteq> None"
  shows "yields (query_frame eng s) (\<lambda>s'. core s' \<and> query_process s' = (if query_process s = 3 then 0 else query_process s + 1) \<and>
    still (s'\<lparr>pushed_tasks := pushed_tasks s, query_process := query_process s\<rparr>) = still s \<and> loaded_queue s' = loaded_queue s \<and>
    pushed_tasks s' = pushed_tasks s @ query_tasks eng s)"
proof -
  have c: "core (s\<lparr>pushed_tasks := p, query_process := q\<rparr>)" "core (s\<lparr>query_process := q\<rparr>)" for q p
    using assms(1) by (simp_all add: core_def registered_def)
  show ?thesis using byte_counter [OF assms(2)] assms(3,4) c
    by (auto simp: query_frame_def probe_boxes_alive probes_alive_def query_aabb_def push_db_task_def query_tasks_def still_def Let_def word_le_nat_alt)
qed

text \<open>What a frame files for the database thread, when there is one.\<close>

definition frame_post :: "'sc Engine \<Rightarrow> 'sc StreamManager \<Rightarrow> 'sc StreamManager \<Rightarrow> bool" where
  "frame_post eng s s' \<longleftrightarrow> manager_ok s' \<and> self_inside s' = self_inside s \<and> db_worker s' = db_worker s \<and>
     registered_probes s' = registered_probes s \<and>
     (self_inside s \<longrightarrow>
       (\<exists>again. subseq again (take max_loads_per_frame (load_queue s)) \<and>
          load_queue s' = drop max_loads_per_frame (load_queue s) @ again) \<and>
       (db_worker s \<noteq> None \<longrightarrow> query_process s' = (if query_process s = 3 then 0 else query_process s + 1)) \<and>
       (\<exists>s1. remove_requested (object_removal s) s = Some s1 \<and>
          pushed_tasks s' = pushed_tasks s @ flush_tasks (s1\<lparr>object_removal := []\<rparr>) @ query_tasks eng s))"

lemma process_frame_ok:
  assumes "manager_ok s" "db_worker s \<noteq> None \<and> query_process s = 3 \<longrightarrow> self_inside s \<longrightarrow> probes_alive eng s"
  shows "yields (process_frame eng s) (frame_post eng s)"
proof (cases "self_inside s")
  case False
  then show ?thesis using assms(1) by (simp add: process_frame_def frame_post_def)
next
  case True
  have core: "core s" "pending_removal s = []" "loaded_queue s = []" "query_process s < 4"
    using assms(1) by (simp_all add: manager_ok_def)
  obtain s1 where s1: "remove_requested (object_removal s) s = Some s1" "core s1"
    "still (s1\<lparr>to_remove := to_remove s\<rparr>) = still s" "loaded_queue s1 = []"
    using remove_requested_ok [OF core(1), of "object_removal s"] core(3) by (auto simp: yields_iff)
  let ?s2 = "s1\<lparr>object_removal := []\<rparr>"
  have c2: "core ?s2" using s1(2) by (simp add: core_def registered_def)
  have e2: "pending_removal ?s2 = []" "load_queue ?s2 = load_queue s" "loaded_queue ?s2 = []" "db_worker ?s2 = db_worker s"
    "registered_probes ?s2 = registered_probes s" "query_process ?s2 = query_process s" "self_inside ?s2 = self_inside s"
    "pushed_tasks ?s2 = pushed_tasks s"
    using s1 core(2) by (simp_all add: still_def)
  have "yields (if db_worker ?s2 \<noteq> None then query_frame eng (flush_pending_db_ops ?s2) else Some ?s2)
    (\<lambda>s3. core s3 \<and> pending_removal s3 = [] \<and> load_queue s3 = load_queue s \<and> loaded_queue s3 = [] \<and> db_worker s3 = db_worker s \<and>
      registered_probes s3 = registered_probes s \<and> self_inside s3 = self_inside s \<and>
      query_process s3 = (if db_worker s = None then query_process s else if query_process s = 3 then 0 else query_process s + 1) \<and>
      pushed_tasks s3 = pushed_tasks s @ flush_tasks ?s2 @ query_tasks eng s)"
  proof (cases "db_worker s")
    case None
    then show ?thesis using c2 e2 by (simp add: flush_tasks_def query_tasks_def)
  next
    case (Some path)
    let ?f = "flush_pending_db_ops ?s2"
    have q: "query_tasks eng ?f = query_tasks eng s" unfolding query_tasks_def flush_pending e2 ..
    have "yields (query_frame eng ?f) (\<lambda>s'. core s' \<and> query_process s' = (if query_process ?f = 3 then 0 else query_process ?f + 1) \<and>
        still (s'\<lparr>pushed_tasks := pushed_tasks ?f, query_process := query_process ?f\<rparr>) = still ?f \<and> loaded_queue s' = loaded_queue ?f \<and>
        pushed_tasks s' = pushed_tasks ?f @ query_tasks eng ?f)"
      using core(4) assms(2) Some e2 by (intro query_frame_ok core_flush [OF c2]) (simp_all add: flush_pending probes_alive_def True)
    then have "yields (query_frame eng ?f) (\<lambda>s3. core s3 \<and> pending_removal s3 = [] \<and> load_queue s3 = load_queue s \<and> loaded_queue s3 = [] \<and> db_worker s3 = db_worker s \<and>
      registered_probes s3 = registered_probes s \<and> self_inside s3 = self_inside s \<and>
      query_process s3 = (if db_worker s = None then query_process s else if query_process s = 3 then 0 else query_process s + 1) \<and>
      pushed_tasks s3 = pushed_tasks s @ flush_tasks ?s2 @ query_tasks eng s)"
      by (rule yields_weaken) (use e2 Some in \<open>simp add: still_def flush_pending [of ?s2] q\<close>)
    then show ?thesis using Some e2(4) by simp
  qed
  then obtain s3 where s3: "(if db_worker ?s2 \<noteq> None then query_frame eng (flush_pending_db_ops ?s2) else Some ?s2) = Some s3"
    "core s3" "pending_removal s3 = []" "load_queue s3 = load_queue s" "loaded_queue s3 = []" "db_worker s3 = db_worker s"
    "registered_probes s3 = registered_probes s" "self_inside s3 = self_inside s"
    "query_process s3 = (if db_worker s = None then query_process s else if query_process s = 3 then 0 else query_process s + 1)"
    "pushed_tasks s3 = pushed_tasks s @ flush_tasks ?s2 @ query_tasks eng s"
    unfolding yields_iff by blast
  obtain c where c: "update (load_status_of eng) (load_result eng) (cache_obj s3) = Some c" "scenes_ok c"
    using update_ok [OF coreD(9) [OF s3(2)], of "load_status_of eng" "load_result eng"] by blast
  have c4: "core (s3\<lparr>cache_obj := c\<rparr>)" by (rule core_cache [OF s3(2) c(2)])
  have q4: "query_process s3 < 4" using byte_counter [OF core(4)] s3(9) by (auto simp: word_less_nat_alt)
  have "frame_post eng s (requeue s5)" if p: "core s5 \<and> still s5 = still ((s3\<lparr>cache_obj := c\<rparr>)\<lparr>load_queue := drop max_loads_per_frame (load_queue (s3\<lparr>cache_obj := c\<rparr>))\<rparr>) \<and>
      (\<exists>again. subseq again (take max_loads_per_frame (load_queue (s3\<lparr>cache_obj := c\<rparr>))) \<and> loaded_queue s5 = loaded_queue (s3\<lparr>cache_obj := c\<rparr>) @ again)" for s5
  proof -
    have "core (requeue s5)" using p by (simp add: requeue_def core_def registered_def)
    then have "manager_ok (requeue s5)" using p q4 s3(3) by (simp add: manager_ok_def requeue_def still_def)
    then show ?thesis using p s3 s1(1) by (auto simp: frame_post_def requeue_def still_def)
  qed
  from yields_weaken [OF load_loop_ok [OF c4] this] show ?thesis
    using True s1(1) s3(1) c(1) by (simp add: process_frame_def Let_def)
qed

lemma manager_ok_new: "objs 0 = None \<Longrightarrow> 0 < nxt \<Longrightarrow> (\<And>n. n \<ge> nxt \<Longrightarrow> objs n = None) \<Longrightarrow>
    manager_ok (StreamManager_new objs nxt)"
  by (simp add: manager_ok_def) (simp add: StreamManager_new_def)

lemma manager_okI: "core s' \<Longrightarrow> still s' = still s \<Longrightarrow> loaded_queue s' = loaded_queue s \<Longrightarrow> manager_ok s \<Longrightarrow> manager_ok s'"
  by (simp add: manager_ok_def still_def)

lemma init_database_ok: "manager_ok s \<Longrightarrow> manager_ok (init_database eng path s)"
  by (simp add: manager_ok_def core_def registered_def init_database_def push_db_task_def Let_def)

lemma exit_tree_ok: "manager_ok s \<Longrightarrow> manager_ok (manager_exit_tree s)"
proof -
  assume a: "manager_ok s"
  let ?s = "s\<lparr>signals_connected := False, processing := False, object_removal := [], dirty_aabb := [],
                to_upsert_uuids := [], load_queue := [], loaded_queue := []\<rparr>"
  have "core ?s" using a by (simp add: manager_ok_def core_def registered_def)
  then have "core (flush_pending_db_ops ?s)" by (rule core_flush)
  then have "core (manager_exit_tree s)" by (simp add: manager_exit_tree_def Let_def core_def registered_def)
  then show ?thesis using a by (simp add: manager_ok_def manager_exit_tree_def Let_def flush_pending)
qed

lemma still_objects [simp]: "still (add_object n s) = still s" "still (update_object n s) = still s" "still (request_remove u s) = still s"
  "loaded_queue (add_object n s) = loaded_queue s" "loaded_queue (update_object n s) = loaded_queue s"
  "loaded_queue (request_remove u s) = loaded_queue s" "loaded_queue (add_child gen n s) = loaded_queue s"
  by (simp_all add: add_object_def update_object_def request_remove_def add_child_def still_def Let_def split: option.split)

text \<open>The calls with a plain result.\<close>

lemma manager_step_plain:
  assumes "manager_ok s"
  shows "manager_ok (manager_enter_tree s)" "manager_ok (manager_ready eng s)" "manager_ok (set_database_path eng path s)"
    "manager_ok (add_object n s)" "manager_ok (request_remove u s)" "manager_ok (update_object n s)"
    "manager_ok (on_load_probe n s)" "manager_ok (on_unload_probe n s)" "manager_ok (on_object_aabb_changed n s)"
    "manager_ok (add_child gen n s)" "manager_ok (remove_child n s)" "manager_ok (on_object_entered gen n s)"
    "manager_ok (on_object_exited n s)" "manager_ok (s\<lparr>self_queued := b\<rparr>)"
    "manager_ok (s\<lparr>objects := (\<lambda>n. if n = 0 \<or> n \<ge> next_object s then None else objs n)\<rparr>)"
proof -
  have c: "core s" using assms by (simp add: manager_ok_def)
  show "manager_ok (manager_enter_tree s)" "manager_ok (on_load_probe n s)" "manager_ok (on_unload_probe n s)"
    "manager_ok (s\<lparr>self_queued := b\<rparr>)" "manager_ok (s\<lparr>objects := (\<lambda>n. if n = 0 \<or> n \<ge> next_object s then None else objs n)\<rparr>)"
    using assms by (simp_all add: manager_ok_def core_def registered_def manager_enter_tree_def on_load_probe_def on_unload_probe_def)
  have "manager_ok (s\<lparr>self_ready := True\<rparr>)" "manager_ok (s\<lparr>database_path := path\<rparr>)"
    using assms by (simp_all add: manager_ok_def core_def registered_def)
  then show "manager_ok (manager_ready eng s)" "manager_ok (set_database_path eng path s)"
    by (simp_all add: manager_ready_def set_database_path_def Let_def init_database_ok)
  show "manager_ok (on_object_aabb_changed n s)" using assms
    by (auto simp: on_object_aabb_changed_def manager_ok_def core_def registered_def split: option.split)
  show "manager_ok (add_object n s)" "manager_ok (request_remove u s)" "manager_ok (update_object n s)"
    "manager_ok (add_child gen n s)" "manager_ok (remove_child n s)" "manager_ok (on_object_entered gen n s)" "manager_ok (on_object_exited n s)"
    by (rule manager_okI [OF _ _ _ assms], simp_all add: c core_intros)+
qed

definition uuids_once :: "'sc manager_event \<Rightarrow> bool" where
  "uuids_once e \<longleftrightarrow> (case e of QueryResult m \<Rightarrow> dm_inv m | _ \<Rightarrow> True)"

text \<open>A frame that queries while a registered probe is gone.\<close>

definition dead_probe_frame :: "'sc manager_event \<Rightarrow> 'sc StreamManager \<Rightarrow> bool" where
  "dead_probe_frame e s \<longleftrightarrow> (case e of Frame eng \<Rightarrow> processing s \<and> self_inside s \<and> db_worker s \<noteq> None \<and>
     query_process s = 3 \<and> \<not> probes_alive eng s | _ \<Rightarrow> False)"

lemma dead_probe_frame_undefined:
  assumes "manager_ok s" "dead_probe_frame e s"
  shows "manager_step e s = None"
proof -
  obtain eng where e: "e = Frame eng" "processing s" "self_inside s" "db_worker s \<noteq> None" "query_process s = 3"
    "\<not> probes_alive eng s" using assms(2) by (auto simp: dead_probe_frame_def split: manager_event.splits)
  obtain s1 where s1: "remove_requested (object_removal s) s = Some s1" "still (s1\<lparr>to_remove := to_remove s\<rparr>) = still s"
    using remove_requested_ok [of s "object_removal s"] assms(1) by (auto simp: yields_iff manager_ok_def)
  have "query_frame eng (flush_pending_db_ops (s1\<lparr>object_removal := []\<rparr>)) = None"
    using e s1(2) by (auto simp: query_frame_def Let_def flush_pending probe_boxes_alive probes_alive_def still_def word_le_nat_alt)
  then show ?thesis using e s1 by (simp add: process_frame_def still_def Let_def)
qed

lemma manager_step_ok:
  assumes "manager_ok s" "uuids_once e" "\<not> dead_probe_frame e s"
  shows "yields (manager_step e s) manager_ok"
proof (cases e)
  case (Frame eng)
  have p: "yields (process_frame eng s) (frame_post eng s)"
    if "processing s" using assms(3) Frame that by (intro process_frame_ok [OF assms(1)]) (auto simp: dead_probe_frame_def)
  have "yields (process_frame eng s) manager_ok" if "processing s"
    by (rule yields_weaken [OF p [OF that]]) (simp add: frame_post_def)
  then show ?thesis using Frame assms(1) by simp
next
  case (QueryResult m)
  have "yields (on_query_result m s) (query_post m s)"
    using assms(1,2) QueryResult by (intro on_query_result_ok) (simp_all add: manager_ok_def uuids_once_def)
  then have "yields (on_query_result m s) manager_ok"
    by (rule yields_weaken) (use assms(1) in \<open>simp add: query_post_def manager_ok_def\<close>)
  then show ?thesis using QueryResult by simp
next
  case Predelete
  obtain c where "free_all_node (cache_obj s) = Some c" "scenes_ok c"
    using free_all_node_ok [of "cache_obj s"] assms(1) by (auto simp: manager_ok_def coreD)
  then show ?thesis using Predelete assms(1)
    by (simp add: manager_predelete_def manager_ok_def core_def registered_def)
qed (simp_all add: manager_step_plain [OF assms(1)] exit_tree_ok [OF assms(1)] assms(1))

lemma manager_run_ok:
  "manager_run es s = Some s' \<Longrightarrow> manager_ok s \<Longrightarrow> list_all uuids_once es \<Longrightarrow> manager_ok s'"
proof (induction es arbitrary: s)
  case (Cons e es)
  obtain s1 where s1: "manager_step e s = Some s1" "manager_run es s1 = Some s'"
    using Cons.prems(1) by (auto simp: bind_eq_Some_conv)
  have "\<not> dead_probe_frame e s" using dead_probe_frame_undefined [OF Cons.prems(2)] s1(1) by auto
  then have "manager_ok s1" using manager_step_ok [OF Cons.prems(2), of e] s1(1) Cons.prems(3) by simp
  then show ?case using Cons.IH [OF s1(2)] Cons.prems(3) by simp
qed simp





section \<open>Unloading and loading again\<close>

lemma collect_leaf: "children_at (children_map s) u = {} \<Longrightarrow> collect_descendants u s = [u]"
proof -
  assume a: "children_at (children_map s) u = {}"
  have "(child_rel (children_map s))\<^sup>* `` {u} = {u}"
    using a by (auto simp: child_rel_image [symmetric] elim: converse_rtranclE)
  then show ?thesis using set_collect_descendants [of u s] distinct_collect_descendants [of u s]
    by (metis (no_types, lifting) distinct_length_2_or_more empty_set insert_not_empty list.set_intros(1) list.set_intros(2) neq_Nil_conv singletonD)
qed

text \<open>A streamed object without children, under its live node in the tree.\<close>

definition attached :: "uuid \<Rightarrow> nat \<Rightarrow> Node \<Rightarrow> 'sc StreamManager \<Rightarrow> bool" where
  "attached u n nd s \<longleftrightarrow> \<not> is_nil u \<and> children_at (children_map s) u = {} \<and>
     map_of (registry s) u = Some \<lparr>parent_uuid = the (parent_in s u), node_root = n\<rparr> \<and>
     objects s n = Some nd \<and> is_stream_object nd \<and> placement nd = UnderManager \<and> node_uuid nd = u \<and>
     \<not> queued_for_deletion nd"

lemma unload_attached:
  assumes "manager_ok s" "attached u n nd s" "signals_connected s" "self_inside s"
  shows "yields (unload_object u s) (\<lambda>s'. manager_ok s' \<and>
    map_of (registry s') = (map_of (registry s))(u \<mapsto> \<lparr>parent_uuid = the (parent_in s u), node_root = 0\<rparr>) \<and>
    objects s' = (objects s)(n \<mapsto> nd\<lparr>placement := NoParent\<rparr>) \<and>
    FindElem (node_cache (cache_obj s')) u = Some n \<and> file_log s' = file_log s @ [SaveScene u n] \<and>
    signals_connected s' \<and> self_inside s' \<and> self_queued s' = self_queued s \<and> next_object s' = next_object s)"
proof -
  let ?d = "\<lparr>parent_uuid = the (parent_in s u), node_root = n\<rparr>"
  note a = assms(2) [unfolded attached_def]
  have c: "core s" "pending_removal s = []" using assms(1) by (simp_all add: manager_ok_def)
  have n: "n \<noteq> 0" using a coreD(12) [OF c(1)] by (metis option.distinct(1))
  let ?s1 = "s\<lparr>pending_removal := [u], registry := dm_put u ?d (registry s)\<rparr>"
  have c1: "core ?s1" using c(1) by (auto simp: core_def registered_def)
  have r: "remove_child n ?s1 = ?s1\<lparr>file_log := file_log s @ [SaveScene u n], dirty_aabb := ds_erase u (dirty_aabb s),
      objects := (objects s)(n \<mapsto> nd\<lparr>placement := NoParent\<rparr>)\<rparr>" (is "_ = ?s2")
    using a assms(3,4) by (simp add: remove_child_def on_object_exited_def save_object_to_file_def)
  have c2: "core ?s2" using core_remove_child [OF c1, of n] r by simp
  obtain cc where cc: "release u n (cache_obj s) = Some cc" "scenes_ok cc" "FindElem (node_cache cc) u = Some n"
    using release_ok [OF coreD(9) [OF c(1)], of u n] n by blast
  let ?s3 = "?s2\<lparr>cache_obj := cc, registry := dm_put u (?d\<lparr>node_root := 0\<rparr>) (registry ?s2)\<rparr>"
  have "unload_one u (s\<lparr>pending_removal := [u]\<rparr>) = Some ?s3"
    using a n cc(1) r by (simp add: unload_one_def registry_at_def)
  then have e: "unload_object u s = Some (?s3\<lparr>pending_removal := []\<rparr>)"
    using a collect_leaf [of s u] c(2) by (simp add: unload_object_def ds_insert_def ds_erase_def swap_remove_def)
  have "core (?s3\<lparr>pending_removal := []\<rparr>)"
    using core_cache [OF c2 cc(2)] by (auto simp: core_def registered_def)
  then have "manager_ok (?s3\<lparr>pending_removal := []\<rparr>)" using assms(1) by (simp add: manager_ok_def)
  then show ?thesis using e cc(3) assms(3,4) by simp
qed

lemma load_cached:
  assumes "manager_ok s" "\<not> is_nil u" "map_of (registry s) u = Some d" "node_root d = 0" "n \<noteq> 0"
    "FindElem (node_cache (cache_obj s)) u = Some n" "objects s n = Some nd" "is_stream_object nd"
    "placement nd = NoParent" "node_uuid nd = u" "\<not> queued_for_deletion nd"
    "self_inside s" "\<not> self_queued s" "signals_connected s"
  shows "yields (load_object_scene eng u s) (\<lambda>s'. map_of (registry s') = (map_of (registry s))(u \<mapsto> d\<lparr>node_root := n\<rparr>) \<and>
    objects s' = (objects s)(n \<mapsto> nd\<lparr>placement := UnderManager\<rparr>) \<and> FindElem (node_cache (cache_obj s')) u = None \<and>
    loaded_queue s' = loaded_queue s \<and> children_map s' = children_map s)"
proof -
  have "usable_node s n" using assms by (simp add: usable_node_def)
  then obtain c where c: "acquire (usable_node s) (instantiate_in (instance_of eng)) u (cache_obj s) (objects s, next_object s) =
      Some (n, c, objects s, next_object s)" "FindElem (node_cache c) u = None"
    using acquire_ok [of "cache_obj s" u "usable_node s" "instantiate_in (instance_of eng)" "(objects s, next_object s)"] assms
    by (auto simp: manager_ok_def coreD)
  have nn: "\<not> is_nil (node_uuid nd)" using assms by simp
  show ?thesis using assms c nn
    by (simp add: load_object_scene_def attach_node_def add_child_def on_object_entered_def registry_at_def Let_def)
qed


lemma sample_attached: "manager_ok sample_leaf" "attached (sample_uuid 1) 1 sample_node sample_leaf"
  "signals_connected sample_leaf" "self_inside sample_leaf" "\<not> self_queued sample_leaf"
proof -
  show "manager_ok sample_leaf" using core_sample(2)
    by (simp add: manager_ok_def) (simp add: sample_leaf_def sample_new_def StreamManager_new_def)
qed (simp_all add: attached_def sample_leaf_def sample_new_def StreamManager_new_def sample_node_def parent_in_def)


section \<open>Orders of events the handlers do not foresee\<close>

lemma remove_requested_gone:
  "core s \<Longrightarrow> yields (remove_requested us s) (\<lambda>s'. registered s' \<subseteq> registered s - set us \<and>
    registered s \<subseteq> registered s' \<union> set (to_remove s') \<and> set (to_remove s) \<subseteq> set (to_remove s'))"
proof (induction us arbitrary: s)
  case (Cons u us)
  have "yields (remove_requested us s1) (\<lambda>s'. registered s' \<subseteq> registered s - set (u # us) \<and>
      registered s \<subseteq> registered s' \<union> set (to_remove s') \<and> set (to_remove s) \<subseteq> set (to_remove s'))"
    if p: "remove_tree_post ((child_rel (children_map s))\<^sup>* `` {u}) s s1" for s1
  proof -
    have "core s1" using p by (simp add: remove_tree_post_def)
    moreover have "registered s1 = registered s - (child_rel (children_map s))\<^sup>* `` {u}"
      "set (to_remove s1) = set (to_remove s) \<union> ((child_rel (children_map s))\<^sup>* `` {u} \<inter> registered s)"
      using p by (auto simp: remove_tree_post_def registered_def)
    ultimately show ?thesis by (intro yields_weaken [OF Cons.IH]) auto
  qed
  then show ?case using yields_weaken [OF remove_tree_ok [OF Cons.prems, of u]] by simp
qed simp

text \<open>A child that is taken out of the tree and put back before the next frame (as when it is moved among
  its siblings or reparented by a script) is removed all the same: it hangs in the tree again and is registered, and
  the first thing the frame does is to drop it from the registry and file its deletion in the database.\<close>

theorem reentered_child_is_removed:
  assumes "manager_ok s" "attached u n nd s" "signals_connected s" "self_inside s" "\<not> self_queued s"
  shows "let s1 = add_child gen n (remove_child n s) in objects s1 n = Some nd \<and> u \<in> registered s1 \<and>
    (\<exists>s2. remove_requested (object_removal s1) s1 = Some s2 \<and> u \<notin> registered s2 \<and> u \<in> set (to_remove s2) \<and>
      objects s1 n = Some nd)"
proof -
  let ?s1 = "add_child gen n (remove_child n s)"
  note a = assms(2) [unfolded attached_def]
  have c: "core s" "pending_removal s = []" using assms(1) by (simp_all add: manager_ok_def)
  have c1: "core ?s1" by (intro core_intros c)
  have e: "?s1 = s\<lparr>object_removal := ds_insert u (object_removal s), objects := (objects s)(n \<mapsto> nd\<lparr>placement := UnderManager\<rparr>),
      registry := dm_put u ((registry_at u s)\<lparr>node_root := n\<rparr>) (registry s)\<rparr>"
    using a assms(3-5) c(2) by (auto simp: add_child_def remove_child_def on_object_entered_def on_object_exited_def
        request_remove_def registry_at_def Let_def)
  have o: "objects ?s1 n = Some nd" unfolding e using a by simp
  have r: "u \<in> registered ?s1" "u \<in> set (object_removal ?s1)" unfolding e by (simp_all add: registered_def)
  show ?thesis using remove_requested_gone [OF c1, of "object_removal ?s1"] o r by (auto simp: Let_def yields_iff)
qed

theorem reentered_child_is_removed_witness:
  "let s1 = add_child (sample_uuid 9) 1 (remove_child 1 sample_leaf) in objects s1 1 = Some sample_node \<and>
    (\<exists>s2. remove_requested (object_removal s1) s1 = Some s2 \<and> sample_uuid 1 \<in> set (to_remove s2))"
  using reentered_child_is_removed [OF sample_attached, of "sample_uuid 9"] unfolding Let_def by blast

text \<open>What a query no longer finds is loaded nevertheless if it was not loaded yet: a registered root
  without a live node that is missing in the answer stays registered, and the handler puts it into the
  load queue.\<close>

theorem stale_root_is_queued:
  assumes "core s" "pending_removal s = []" "dm_inv db_objects" "\<forall>p \<in> set db_objects. node_root (snd p) = 0"
    "parent_in s u = Some uuid_nil" "u \<notin> live s" "map_of db_objects u = None"
  shows "\<exists>s' q. on_query_result db_objects s = Some s' \<and> load_queue s' = load_queue s @ q \<and> u \<in> set q"
proof -
  obtain s' where s': "on_query_result db_objects s = Some s'" "query_post db_objects s s'"
    using on_query_result_ok [OF assms(1,2,3)] by (auto simp: yields_iff)
  have "parent_in s' u = Some uuid_nil" "u \<notin> live s'" using s'(2) assms(4-7) by (auto simp: query_post_def)
  moreover have "is_nil uuid_nil" by simp
  ultimately show ?thesis using s' unfolding query_post_def by blast
qed

theorem stale_root_is_queued_witness:
  "\<exists>s' q. on_query_result [] sample_leaf = Some s' \<and> load_queue s' = load_queue sample_leaf @ q \<and> sample_uuid 3 \<in> set q"
  by (rule stale_root_is_queued [OF core_sample(2)])
    (simp_all add: sample_leaf_def sample_new_def StreamManager_new_def parent_in_def live_def ObjectData_new_def)

text \<open>A manager that leaves the tree and enters it again no longer follows its children: \<open>_exit_tree\<close> disconnects
  the signals and \<open>_enter_tree\<close> connects nothing. A node added then hangs in the tree, and the registry
  does not know it.\<close>

theorem reentered_manager_ignores_children:
  assumes "objects s n = Some nd" "placement nd = NoParent"
  shows "let s1 = manager_enter_tree (manager_exit_tree s); s2 = add_child gen n s1 in
    self_inside s2 \<and> processing s2 \<and> objects s2 n = Some (nd\<lparr>placement := UnderManager\<rparr>) \<and> registry s2 = registry s1"
proof -
  let ?s1 = "manager_enter_tree (manager_exit_tree s)"
  have f: "objects (flush_pending_db_ops s) = objects s" "signals_connected (flush_pending_db_ops s) = signals_connected s" for s :: "'a StreamManager"
    by (simp_all add: flush_pending_db_ops_def push_db_task_def Let_def split: option.split)
  have "\<not> signals_connected ?s1" "self_inside ?s1" "processing ?s1" "objects ?s1 = objects s"
    by (simp_all add: manager_enter_tree_def manager_exit_tree_def Let_def f)
  then show ?thesis using assms by (simp add: add_child_def Let_def)
qed

theorem reentered_manager_ignores_children_witness:
  "let s1 = manager_enter_tree (manager_exit_tree (sample_leaf\<lparr>objects := (\<lambda>_. Some (sample_node\<lparr>placement := NoParent\<rparr>))\<rparr>));
       s2 = add_child (sample_uuid 9) 1 s1
   in processing s2 \<and> registry s2 = registry s1"
  using reentered_manager_ignores_children [of "sample_leaf\<lparr>objects := (\<lambda>_. Some (sample_node\<lparr>placement := NoParent\<rparr>))\<rparr>"
    1 "sample_node\<lparr>placement := NoParent\<rparr>" "sample_uuid 9"] by (simp add: Let_def)

text \<open>A root with a child below it, the child first in the registry.\<close>

definition sample_family :: "nat StreamManager" where
  "sample_family = sample_new\<lparr>self_inside := True,
     objects := (\<lambda>n. if n = 1 then Some sample_node else if n = 2 then Some (sample_node\<lparr>node_uuid := sample_uuid 2,
       node_parent_uuid := sample_uuid 1, placement := UnderOther True\<rparr>) else None), next_object := 3,
     children_map := [(sample_uuid 1, [sample_uuid 2])],
     registry := [(sample_uuid 2, \<lparr>parent_uuid = sample_uuid 1, node_root = 2\<rparr>), (sample_uuid 1, \<lparr>parent_uuid = uuid_nil, node_root = 1\<rparr>)]\<rparr>"

text \<open>An unloaded child comes back as a root. When neither a root nor its child is in the answer and the child
  is unloaded first, unloading the root registers the child again, without its parent; it is the only
  object left, and it is put into the load queue.\<close>

theorem unloaded_child_comes_back:
  "\<exists>s'. on_query_result [] sample_family = Some s' \<and> registry s' = [(sample_uuid 2, ObjectData_new)] \<and>
    load_queue s' = [sample_uuid 2] \<and> parent_in sample_family (sample_uuid 2) = Some (sample_uuid 1)"
proof -
  have "map_option (\<lambda>s'. (registry s', load_queue s')) (on_query_result [] sample_family) =
      Some ([(sample_uuid 2, ObjectData_new)], [sample_uuid 2])" by code_simp
  then show ?thesis by (auto simp: parent_in_def sample_family_def)
qed

section \<open>What a flush files\<close>

lemma map_fst_upsert_snapshot:
  assumes "set (to_upsert_uuids s) \<subseteq> registered s"
  shows "map fst (upsert_snapshot s) = to_upsert_uuids s"
proof -
  have "set us \<subseteq> registered s \<Longrightarrow> map fst (List.map_filter (\<lambda>u. map_option (Pair u) (map_of (registry s) u)) us) = us" for us
    by (induction us) (auto simp: map_filter_simps registered_def)
  then show ?thesis using assms by (simp add: upsert_snapshot_def)
qed

lemma upsert_snapshot_data: "(u, d) \<in> set (upsert_snapshot s) \<Longrightarrow> map_of (registry s) u = Some d"
  by (auto simp: upsert_snapshot_def List.map_filter_def)

lemma dirty_snapshot_lookup: "map_of (dirty_snapshot s) u = (if u \<in> set (dirty_aabb s) then dirty_box s u else None)"
proof -
  have "map_of (foldl (\<lambda>m u. case dirty_box s u of Some a \<Rightarrow> dm_put u a m | None \<Rightarrow> m) m us) u =
      (if u \<in> set us \<and> dirty_box s u \<noteq> None then dirty_box s u else map_of m u)" for m us
    by (induction us arbitrary: m) (auto split: option.split)
  then show ?thesis by (auto simp: dirty_snapshot_def)
qed

text \<open>Nothing filed is lost on the way to the database thread. With a database, a flush that has anything to
  do pushes one task: it upserts every identifier filed for it, with the data of the registry, removes
  every identifier filed for removal, and sets the current box of each changed object whose node is in the
  tree; and it empties the three queues.\<close>

theorem flush_snapshot:
  assumes "core s" "db_worker s = Some path"
    "to_upsert_uuids s \<noteq> [] \<or> to_remove s \<noteq> [] \<or> (\<exists>u \<in> set (dirty_aabb s). dirty_box s u \<noteq> None)"
  shows "\<exists>ups dirty. pushed_tasks (flush_pending_db_ops s) = pushed_tasks s @ [(path, FlushTask ups (to_remove s) dirty)] \<and>
    map fst ups = to_upsert_uuids s \<and> (\<forall>(u, d) \<in> set ups. map_of (registry s) u = Some d) \<and>
    (\<forall>u. map_of dirty u = (if u \<in> set (dirty_aabb s) then dirty_box s u else None)) \<and>
    to_upsert_uuids (flush_pending_db_ops s) = [] \<and> to_remove (flush_pending_db_ops s) = [] \<and>
    dirty_aabb (flush_pending_db_ops s) = []"
proof -
  have m: "map fst (upsert_snapshot s) = to_upsert_uuids s" by (rule map_fst_upsert_snapshot [OF coreD(10) [OF assms(1)]])
  have "dirty_snapshot s \<noteq> []" if "u \<in> set (dirty_aabb s)" "dirty_box s u \<noteq> None" for u
    using dirty_snapshot_lookup [of s u] that by auto
  then have "\<not> (upsert_snapshot s = [] \<and> to_remove s = [] \<and> dirty_snapshot s = [])" using assms(3) m by auto
  then have "flush_tasks s = [(path, FlushTask (upsert_snapshot s) (to_remove s) (dirty_snapshot s))]"
    using assms(2) by (simp add: flush_tasks_def)
  then show ?thesis using m upsert_snapshot_data [of _ _ s] dirty_snapshot_lookup [of s] assms(2)
    by (intro exI [of _ "upsert_snapshot s"] exI [of _ "dirty_snapshot s"]) (auto simp: flush_pending)
qed

theorem flush_snapshot_witness:
  "\<exists>ups dirty. pushed_tasks (flush_pending_db_ops (add_object 1 sample_leaf)) = [(''world.db'', FlushTask ups [] dirty)] \<and>
    map fst ups = [sample_uuid 1] \<and> map_of dirty (sample_uuid 1) = Some AABB_new"
proof -
  have "db_worker (add_object 1 sample_leaf) = Some ''world.db''" "to_upsert_uuids (add_object 1 sample_leaf) = [sample_uuid 1]"
    "to_remove (add_object 1 sample_leaf) = []" "pushed_tasks (add_object 1 sample_leaf) = []"
    "sample_uuid 1 \<in> set (dirty_aabb (add_object 1 sample_leaf))" "dirty_box (add_object 1 sample_leaf) (sample_uuid 1) = Some AABB_new"
    by (simp_all add: add_object_def sample_leaf_def sample_new_def StreamManager_new_def sample_node_def ds_insert_def
        dirty_box_def inside_tree_def Let_def)
  with flush_snapshot [OF core_add_object [OF core_sample(2)], of 1 "''world.db''"] show ?thesis by auto
qed

end
