(* ===== verification/StreamFlush.thy ===== *)
theory StreamFlush
  imports StreamManagerProps StreamNodes StreamDbBoxes
begin

text \<open>
  The task that \<open>_flush_pending_db_ops\<close> (src/src/core/stream/stream_manager.cpp) hands to the database
  thread, and the two query tasks: the methods of \<open>StreamDb\<close> in the order the lambda calls them. Its
  last part files every changed object, and then its ancestors one after another up to a root, under the
  tile of the box that covers it and its direct children. That loop ends only if the parents do, so it
  is a partial function: \<open>None\<close> is a loop that never returns (every other call in it has a result, by the
  invariant of the database).
\<close>

section \<open>The task\<close>

fun remove_all :: "uuid list \<Rightarrow> StreamSqliteDB \<Rightarrow> StreamSqliteDB option" where
  "remove_all [] s = Some s"
| "remove_all (u # us) s = Option.bind (remove_object u s) (remove_all us)"

definition upsert_all :: "(uuid \<times> ObjectData) list \<Rightarrow> StreamSqliteDB \<Rightarrow> StreamSqliteDB" where
  "upsert_all ds s = foldl (\<lambda>s (u, data). upsert_object_uuids u data s) s ds"

fun set_boxes :: "(uuid \<times> AABB) list \<Rightarrow> StreamSqliteDB \<Rightarrow> StreamSqliteDB option" where
  "set_boxes [] s = Some s"
| "set_boxes ((u, a) # ds) s = Option.bind (set_object_aabb u a s) (set_boxes ds)"

definition merge_children :: "uuid \<Rightarrow> AABB \<Rightarrow> StreamSqliteDB \<Rightarrow> AABB" where
  "merge_children u a s = foldl (\<lambda>agg (child, ca). aabb_merge agg ca) a (query_children_aabb u s)"

definition file_object :: "(rat \<Rightarrow> rat) \<Rightarrow> uuid \<Rightarrow> AABB \<Rightarrow> StreamSqliteDB \<Rightarrow> (int \<times> StreamSqliteDB) option" where
  "file_object log2f u a s = do {
     let chunk = compute_chunk log2f (merge_children u a s);
     (k, s) \<leftarrow> query_chunk chunk s;
     Some (k, set_object_chunk u k s)
   }"

text \<open>One round of the loop over the ancestors, and the loop.\<close>

definition climb_step :: "(rat \<Rightarrow> rat) \<Rightarrow> uuid \<Rightarrow> (uuid, int) a_hashmap \<Rightarrow> StreamSqliteDB \<Rightarrow>
    (uuid \<times> (uuid, int) a_hashmap \<times> StreamSqliteDB) option" where
  "climb_step log2f parent result s =
     (let parent_data = query_object parent s in do {
        (a, s) \<leftarrow> get_object_aabb parent s;
        (k, s) \<leftarrow> file_object log2f parent a s;
        Some (parent_uuid parent_data, dm_put parent k result, s)
      })"

partial_function (option) climb :: "(rat \<Rightarrow> rat) \<Rightarrow> uuid \<Rightarrow> (uuid, int) a_hashmap \<Rightarrow> StreamSqliteDB \<Rightarrow>
    ((uuid, int) a_hashmap \<times> StreamSqliteDB) option" where
  [code]: "climb log2f parent result s =
     (if is_nil parent then Some (result, s)
      else Option.bind (climb_step log2f parent result s) (\<lambda>(p, r, s). climb log2f p r s))"

fun file_dirty :: "(rat \<Rightarrow> rat) \<Rightarrow> (uuid \<times> AABB) list \<Rightarrow> (uuid, int) a_hashmap \<Rightarrow> StreamSqliteDB \<Rightarrow>
    ((uuid, int) a_hashmap \<times> StreamSqliteDB) option" where
  "file_dirty log2f [] result s = Some (result, s)"
| "file_dirty log2f ((u, a) # ds) result s = do {
     (k, s) \<leftarrow> file_object log2f u a s;
     let obj_data = query_object u s;
     (result, s) \<leftarrow> climb log2f (parent_uuid obj_data) (dm_put u k result) s;
     file_dirty log2f ds result s
   }"

definition flush_work :: "(rat \<Rightarrow> rat) \<Rightarrow> (uuid \<times> ObjectData) list \<Rightarrow> uuid a_hashset \<Rightarrow> (uuid, AABB) a_hashmap \<Rightarrow>
    StreamSqliteDB \<Rightarrow> ((uuid, int) a_hashmap \<times> StreamSqliteDB) option" where
  "flush_work log2f upsert_data remove dirty_data s = do {
     s \<leftarrow> remove_all remove s;
     let s = upsert_all upsert_data s;
     s \<leftarrow> set_boxes dirty_data s;
     file_dirty log2f dirty_data [] s
   }"

text \<open>What a task of the manager does on the database thread: its database afterwards and the objects it hands to
  \<open>_on_query_result\<close>, if it is a query.\<close>

definition run_db_task :: "(rat \<Rightarrow> rat) \<Rightarrow> db_task \<Rightarrow> StreamSqliteDB \<Rightarrow>
    (StreamSqliteDB \<times> (uuid, ObjectData) a_hashmap option) option" where
  "run_db_task log2f t s = (case t of MaintenanceTask \<Rightarrow> Some (s, None)
     | QueryTask aabbs \<Rightarrow> Some (s, Some (query_objects aabbs s))
     | QueryOneTask a \<Rightarrow> Some (s, Some (query_objects_of_aabb a s))
     | FlushTask upsert_data remove dirty_data \<Rightarrow>
         map_option (\<lambda>(r, s). (s, None)) (flush_work log2f upsert_data remove dirty_data s))"

section \<open>The links the loop follows\<close>

text \<open>What \<open>query_object\<close> reads: it is left alone by every call in the loop, whatever the state.\<close>

definition links :: "StreamSqliteDB \<Rightarrow> bool \<times> (uuid \<times> uuid option) list" where
  "links s = (connected s, map (\<lambda>ob. (row_uuid ob, row_parent ob)) (object_uuid (db s)))"

definition parent_of :: "StreamSqliteDB \<Rightarrow> uuid \<Rightarrow> uuid" where
  "parent_of s u = parent_uuid (query_object u s)"

definition read_parent :: "uuid option \<Rightarrow> uuid" where
  "read_parent p = (case p of None \<Rightarrow> uuid_nil | Some b \<Rightarrow> if b = [] then uuid_nil else b)"

lemma read_parent_view: "read_nullable_uuid (row_view (row_columns ob) :: 'db Stmt) 2 = read_parent (row_parent ob)"
  by (simp add: read_nullable_uuid_def accessors_column row_simps row_columns_def read_parent_def sql_opt_blob_def split: option.split)

lemma hd_filter_map_of: "map_of (map (\<lambda>ob. (row_uuid ob, row_parent ob)) os) u =
    (case filter (\<lambda>ob. row_uuid ob = u) os of [] \<Rightarrow> None | ob # _ \<Rightarrow> Some (row_parent ob))"
  by (induction os) auto

lemma parent_of_links: "parent_of s u = (if fst (links s) then (case map_of (snd (links s)) u of None \<Rightarrow> uuid_nil
    | Some p \<Rightarrow> read_parent p) else uuid_nil)"
proof (cases "connected s")
  case True
  have r: "run sql_query_object [(1, SqlBlob u)] (db s) = (map row_columns (filter (\<lambda>ob. row_uuid ob = u) (object_uuid (db s))), db s)"
    by (simp add: run_def sql_query_object_def params_def put_param_def eq_commute [of u])
  show ?thesis using True
    by (simp add: parent_of_def query_object_def select_stmt_def query_first_run [OF reads_nullable] r read_parent_view
        links_def hd_filter_map_of ObjectData_new_def del: One_nat_def split: list.split)
next
  case False
  then show ?thesis by (simp add: parent_of_def query_object_def select_stmt_def query_null links_def ObjectData_new_def)
qed

lemma links_parent_of: "links s = links s' \<Longrightarrow> parent_of s = parent_of s'"
  by (simp add: fun_eq_iff parent_of_links)

lemma objects_upsert_chunk: "object_uuid (snd (run sql_upsert_chunk bs d)) = object_uuid d"
  by (auto simp: run_def sql_upsert_chunk_def Let_def split: option.splits prod.splits sql_value.splits if_splits)

lemma objects_query_chunk: "snd (run sql_query_chunk bs d) = d"
  by (simp add: run_def sql_query_chunk_def)

lemma links_query_chunk: "query_chunk ch s = Some (k, s') \<Longrightarrow> links s' = links s"
proof -
  assume "query_chunk ch s = Some (k, s')"
  then show ?thesis
    by (cases "connected s")
      (auto simp: query_chunk_def select_stmt_def write_stmt_def query_null query_first_run [OF reads_int] objects_query_chunk
        objects_upsert_chunk links_def Let_def split_beta bind_eq_Some_conv split: if_splits option.splits list.splits)
qed

lemma links_set_chunk: "links (set_object_chunk u k s) = links s"
proof (cases "ready s")
  case True
  then show ?thesis
    by (auto simp: set_object_chunk_def execute_ready set_object_chunk_run links_def simp del: One_nat_def)
qed (simp add: set_object_chunk_def execute_other)

lemma links_get_aabb: "get_object_aabb u s = Some (a, s') \<Longrightarrow> links s' = links s"
  by (auto simp: get_object_aabb_def links_def Let_def split_beta bind_eq_Some_conv split: if_splits)

lemma climb_step_links:
  assumes "climb_step log2f p r s = Some (p', r', s')"
  shows "p' = parent_of s p \<and> links s' = links s"
proof -
  obtain a s1 k s2 where "get_object_aabb p s = Some (a, s1)" "query_chunk (compute_chunk log2f (merge_children p a s1)) s1 = Some (k, s2)"
    "p' = parent_of s p" "s' = set_object_chunk p k s2"
    using assms by (auto simp: climb_step_def file_object_def parent_of_def bind_eq_Some_conv)
  then show ?thesis using links_get_aabb links_query_chunk links_set_chunk by metis
qed

section \<open>When the loop returns\<close>

lemma climb_returns:
  "climb log2f p r s = Some y \<Longrightarrow> \<exists>k. is_nil ((parent_of s ^^ k) p)"
proof (induction rule: climb.raw_induct [rotated 1, consumes 1, case_names step])
  case (step climb log2f p r s y)
  show ?case
  proof (cases "is_nil p")
    case True
    then have "is_nil ((parent_of s ^^ 0) p)" by simp
    then show ?thesis ..
  next
    case False
    then obtain p' r' s' where c: "climb_step log2f p r s = Some (p', r', s')" "climb log2f p' r' s' = Some y"
      using step(2) by (simp only: if_False bind_eq_Some_conv) auto
    obtain k where k: "is_nil ((parent_of s' ^^ k) p')" using step(1) [OF c(2)] by blast
    have "p' = parent_of s p" "parent_of s' = parent_of s" using climb_step_links [OF c(1)] links_parent_of [of s' s] by blast+
    then have "is_nil ((parent_of s ^^ Suc k) p)" using k by (simp add: funpow_swap1)
    then show ?thesis ..
  qed
qed

text \<open>C16: A loop among the parents hangs the database thread. When following the parents from an object never
  reaches a nil identifier, the loop over its ancestors does not return.\<close>

theorem ancestor_loop_hangs:
  assumes "\<forall>k. \<not> is_nil ((parent_of s ^^ k) p)"
  shows "climb log2f p r s = None"
  using climb_returns [of log2f p r s] assms by (cases "climb log2f p r s") auto

text \<open>An object can be made its own parent: the foreign key accepts it.\<close>

definition own_parent :: StreamSqliteDB where
  "own_parent = upsert_object_uuids (replicate 16 1) (ObjectData_new\<lparr>parent_uuid := replicate 16 1\<rparr>) (StreamSqliteDB_new True False None)"

lemma parent_of_own: "parent_of own_parent (replicate 16 1) = replicate 16 1"
  by code_simp

theorem ancestor_loop_hangs_witness: "climb log2_floor (replicate 16 1) [] own_parent = None"
proof (rule ancestor_loop_hangs, rule allI)
  fix k
  have "(parent_of own_parent ^^ k) (replicate 16 1) = replicate 16 1" by (induction k) (simp_all add: parent_of_own)
  then show "\<not> is_nil ((parent_of own_parent ^^ k) (replicate 16 1))" by (simp add: is_nil_def list.pred_set)
qed

section \<open>What a round does\<close>

text \<open>\<open>based s0 s\<close>: \<open>s\<close> has the rows of \<open>s0\<close> up to their tiles, and cached boxes that \<open>s0\<close> had in its cache or in
  the row.\<close>

definition bare :: "StreamSqliteDB \<Rightarrow> object_row list" where
  "bare s = map (\<lambda>ob. ob\<lparr>row_chunk := None\<rparr>) (object_uuid (db s))"

definition row_value :: "StreamSqliteDB \<Rightarrow> uuid \<Rightarrow> AABB" where
  "row_value s u = (case filter (\<lambda>ob. row_uuid ob = u) (bare s) of ob # _ \<Rightarrow> box_of_row ob | [] \<Rightarrow> AABB_new)"

definition known_boxes :: "StreamSqliteDB \<Rightarrow> uuid \<Rightarrow> AABB set" where
  "known_boxes s u = insert (row_value s u) {a. FindElem (aabb_cache s) u = Some a}"

definition based :: "StreamSqliteDB \<Rightarrow> StreamSqliteDB \<Rightarrow> bool" where
  "based s0 s \<longleftrightarrow> sdb_ok s \<and> bare s = bare s0 \<and> (\<forall>u. known_boxes s u \<subseteq> known_boxes s0 u)"

definition child_boxes :: "StreamSqliteDB \<Rightarrow> uuid \<Rightarrow> AABB list" where
  "child_boxes s u = map box_of_row (filter (\<lambda>ob. row_parent ob = Some u) (bare s))"

lemma box_of_row_chunk [simp]: "box_of_row (ob\<lparr>row_chunk := c\<rparr>) = box_of_row ob"
  by (simp add: box_of_row_def)

lemma filter_bare: "(\<And>ob. P (ob\<lparr>row_chunk := None\<rparr>) = P ob) \<Longrightarrow>
    filter P (bare s) = map (\<lambda>ob. ob\<lparr>row_chunk := None\<rparr>) (filter P (object_uuid (db s)))"
  by (simp add: bare_def filter_map o_def)

lemma row_value_rows: "row_value s u = (case filter (\<lambda>ob. row_uuid ob = u) (object_uuid (db s)) of ob # _ \<Rightarrow> box_of_row ob | [] \<Rightarrow> AABB_new)"
  by (simp add: row_value_def filter_bare split: list.split)

lemma merge_children_boxes:
  assumes "sdb_ok s" "u \<noteq> []"
  shows "merge_children u a s = foldl aabb_merge a (child_boxes s u)"
proof -
  have "foldl (\<lambda>agg (child, ca). aabb_merge agg ca) a (map (\<lambda>ob. (row_uuid ob, box_of_row ob)) os) =
      foldl aabb_merge a (map box_of_row os)" for os a by (induction os arbitrary: a) auto
  then show ?thesis unfolding merge_children_def query_children_effect [OF assms]
    by (simp add: child_boxes_def filter_bare o_def)
qed

text \<open>\<open>filed d u ch\<close>: every row of \<open>u\<close> is under the tile \<open>ch\<close>.\<close>

definition filed :: "database \<Rightarrow> uuid \<Rightarrow> Chunk \<Rightarrow> bool" where
  "filed d u ch \<longleftrightarrow> (\<forall>ob \<in> set (object_uuid d). row_uuid ob = u \<longrightarrow> (\<exists>k. row_chunk ob = Some k \<and> chunk_agrees d ch k))"

definition tiles :: "StreamSqliteDB \<Rightarrow> nat" where
  "tiles s = length (chunk_metadata (db s))"

definition file_post :: "uuid \<Rightarrow> Chunk \<Rightarrow> StreamSqliteDB \<Rightarrow> StreamSqliteDB \<Rightarrow> bool" where
  "file_post u ch s s' \<longleftrightarrow> sdb_ok s' \<and> bare s' = bare s \<and> aabb_cache s' = aabb_cache s \<and> tiles s' \<le> Suc (tiles s) \<and>
     filed (db s') u ch \<and> (\<forall>v ch'. v \<noteq> u \<longrightarrow> filed (db s) v ch' \<longrightarrow> filed (db s') v ch')"

lemma chunk_agrees_ids: "chunk_agrees d ch k \<Longrightarrow> k \<in> c_id ` set (chunk_metadata d)"
  by (auto simp: chunk_agrees_def)

lemma set_tile_post:
  assumes "sdb_ok s1" "chunk_agrees (db s1) ch k" "bare s1 = bare s" "object_uuid (db s1) = object_uuid (db s)"
    "aabb_cache s1 = aabb_cache s" "set (chunk_metadata (db s)) \<subseteq> set (chunk_metadata (db s1))" "tiles s1 \<le> Suc (tiles s)"
  shows "file_post u ch s (set_object_chunk u k s1)"
proof -
  obtain t where t: "set_object_chunk u k s1 = t" by simp
  have k: "k \<in> c_id ` set (chunk_metadata (db s1))" by (rule chunk_agrees_ids [OF assms(2)])
  have e: "t = s1\<lparr>db := (db s1)\<lparr>object_uuid := map (\<lambda>ob. if row_uuid ob = u then ob\<lparr>row_chunk := Some k\<rparr> else ob) (object_uuid (db s1))\<rparr>\<rparr>"
    using set_chunk_effect [OF assms(1), of u k] k t by simp
  have f: "object_uuid (db t) = map (\<lambda>ob. if row_uuid ob = u then ob\<lparr>row_chunk := Some k\<rparr> else ob) (object_uuid (db s))"
    "chunk_metadata (db t) = chunk_metadata (db s1)" "aabb_cache t = aabb_cache s" "tiles t = tiles s1"
    unfolding e by (simp_all add: assms(4,5) tiles_def)
  have "chunk_agrees (db t) ch k" using assms(2) unfolding chunk_agrees_def f .
  moreover have "row_chunk ob = Some k" if ob: "ob \<in> set (object_uuid (db t))" "row_uuid ob = u" for ob
  proof -
    obtain b where "ob = (if row_uuid b = u then b\<lparr>row_chunk := Some k\<rparr> else b)"
      using ob(1) unfolding f set_map by blast
    then show ?thesis using ob(2) by (cases "row_uuid b = u") simp_all
  qed
  ultimately have "filed (db t) u ch" unfolding filed_def by blast
  moreover have "filed (db t) v ch'" if v: "v \<noteq> u" "filed (db s) v ch'" for v ch'
    unfolding filed_def
  proof (intro ballI impI)
    fix ob assume "ob \<in> set (object_uuid (db t))" "row_uuid ob = v"
    then have "ob \<in> set (object_uuid (db s))" using v(1) unfolding f by (auto split: if_splits)
    then obtain i where i: "row_chunk ob = Some i" "chunk_agrees (db s) ch' i" using v(2) \<open>row_uuid ob = v\<close> unfolding filed_def by blast
    then have "chunk_agrees (db t) ch' i" using assms(6) unfolding chunk_agrees_def f by blast
    with i(1) show "\<exists>i. row_chunk ob = Some i \<and> chunk_agrees (db t) ch' i" by blast
  qed
  moreover have "bare t = bare s" unfolding bare_def f by simp
  moreover have "sdb_ok t" using set_chunk_sdb_ok [OF assms(1), of u k] t by simp
  ultimately show ?thesis using f(3,4) assms(7) unfolding t file_post_def by simp
qed

lemma file_object_ok:
  assumes "sdb_ok s" "tiles s < 2 ^ 31 - 1"
  shows "\<exists>k s'. file_object log2f u a s = Some (k, s') \<and> file_post u (compute_chunk log2f (merge_children u a s)) s s'"
proof -
  obtain ch where ch: "compute_chunk log2f (merge_children u a s) = ch" by simp
  obtain k s1 where q: "query_chunk ch s = Some (k, s1)" "sdb_ok s1" "chunk_agrees (db s1) ch k"
    "db s1 = (if \<exists>c \<in> set (chunk_metadata (db s)). tile_of c = tile_key ch then db s else add_tile (db s) ch)"
    "aabb_cache s1 = aabb_cache s"
    using query_chunk_ok [OF assms(1), of ch] assms(2) unfolding tiles_def by blast
  have o: "object_uuid (db s1) = object_uuid (db s)" "set (chunk_metadata (db s)) \<subseteq> set (chunk_metadata (db s1))"
    "length (chunk_metadata (db s1)) \<le> Suc (length (chunk_metadata (db s)))"
    unfolding q(4) by (auto simp: add_tile_def)
  have "file_post u ch s (set_object_chunk u k s1)"
    by (rule set_tile_post [OF q(2,3)]) (use o q(5) in \<open>simp_all add: bare_def tiles_def\<close>)
  then show ?thesis using q(1) ch by (intro exI [of _ k] exI [of _ "set_object_chunk u k s1"]) (simp add: file_object_def)
qed

text \<open>A tile for the box of \<open>u\<close> merged with the boxes of its children; the box is one the database knows.\<close>

definition cover :: "(rat \<Rightarrow> rat) \<Rightarrow> StreamSqliteDB \<Rightarrow> uuid \<Rightarrow> AABB \<Rightarrow> Chunk" where
  "cover log2f s u a = compute_chunk log2f (foldl aabb_merge a (child_boxes s u))"

definition covered :: "(rat \<Rightarrow> rat) \<Rightarrow> StreamSqliteDB \<Rightarrow> (uuid \<Rightarrow> AABB set) \<Rightarrow> StreamSqliteDB \<Rightarrow> uuid \<Rightarrow> bool" where
  "covered log2f s0 D s u \<longleftrightarrow> (\<exists>a \<in> D u \<union> known_boxes s0 u. filed (db s) u (cover log2f s0 u a))"

lemma bare_links: "bare s = bare s' \<Longrightarrow> connected s = connected s' \<Longrightarrow> links s = links s'"
proof -
  assume a: "bare s = bare s'" "connected s = connected s'"
  have "map (\<lambda>ob. (row_uuid ob, row_parent ob)) (object_uuid (db t)) = map (\<lambda>ob. (row_uuid ob, row_parent ob)) (bare t)" for t
    by (simp add: bare_def)
  then show ?thesis using a by (simp add: links_def)
qed

lemma cover_bare: "bare s = bare s' \<Longrightarrow> cover log2f s = cover log2f s'"
  by (simp add: cover_def child_boxes_def fun_eq_iff)

lemma get_aabb_based:
  assumes "based s0 s"
  shows "\<exists>a s'. get_object_aabb u s = Some (a, s') \<and> based s0 s' \<and> a \<in> known_boxes s0 u \<and> db s' = db s \<and> tiles s' = tiles s"
proof -
  have ok: "sdb_ok s" "bare s = bare s0" "\<And>v. known_boxes s v \<subseteq> known_boxes s0 v" using assms by (auto simp: based_def)
  obtain ac where ac: "get_object_aabb u s = Some (case FindElem (aabb_cache s) u of Some a \<Rightarrow> a | None \<Rightarrow> row_value s u,
      s\<lparr>aabb_cache := ac\<rparr>)" "lru_ok ac"
    "\<forall>v w. FindElem ac v = Some w \<longrightarrow> FindElem (aabb_cache s) v = Some w \<or> FindElem (aabb_cache s) u = None \<and> v = u \<and> w = row_value s u"
    unfolding row_value_rows by (rule get_aabb_effect [OF ok(1), of u])
  let ?a = "case FindElem (aabb_cache s) u of Some a \<Rightarrow> a | None \<Rightarrow> row_value s u" and ?s = "s\<lparr>aabb_cache := ac\<rparr>"
  have "?a \<in> known_boxes s u" by (simp add: known_boxes_def split: option.split)
  moreover have b: "bare ?s = bare s" by (simp add: bare_def)
  then have "known_boxes ?s v \<subseteq> known_boxes s v" for v using ac(3) by (auto simp: known_boxes_def row_value_def)
  ultimately have "based s0 ?s" "?a \<in> known_boxes s0 u"
    using ok sdb_ok_aabb_cache [OF ok(1) ac(2)] b unfolding based_def by (metis subset_trans, blast)
  then show ?thesis using ac(1) by (intro exI [of _ ?a] exI [of _ ?s]) (simp add: tiles_def)
qed

lemma file_object_based:
  assumes "based s0 s" "tiles s < 2 ^ 31 - 1" "u \<noteq> []" "a \<in> D u \<union> known_boxes s0 u"
  shows "\<exists>k s'. file_object log2f u a s = Some (k, s') \<and> based s0 s' \<and> tiles s' \<le> Suc (tiles s) \<and>
    covered log2f s0 D s' u \<and> (\<forall>v. covered log2f s0 D s v \<longrightarrow> covered log2f s0 D s' v)"
proof -
  have ok: "sdb_ok s" "bare s = bare s0" using assms(1) by (auto simp: based_def)
  have c: "compute_chunk log2f (merge_children u a s) = cover log2f s0 u a"
    unfolding cover_def merge_children_boxes [OF ok(1) assms(3)] child_boxes_def ok(2) ..
  obtain k s' where f: "file_object log2f u a s = Some (k, s')" "file_post u (cover log2f s0 u a) s s'"
    using file_object_ok [OF ok(1) assms(2), of log2f u a] unfolding c by blast
  have b: "bare s' = bare s" "aabb_cache s' = aabb_cache s" using f(2) by (simp_all add: file_post_def)
  have "known_boxes s' = known_boxes s" unfolding known_boxes_def row_value_def b ..
  then have "based s0 s'" using f(2) assms(1) b by (simp add: based_def file_post_def)
  moreover have cu: "covered log2f s0 D s' u" using f(2) assms(4) unfolding covered_def file_post_def by blast
  moreover have "covered log2f s0 D s' v" if v: "covered log2f s0 D s v" for v
  proof (cases "v = u")
    case False
    then show ?thesis using f(2) v unfolding covered_def file_post_def by blast
  qed (use cu in simp)
  ultimately show ?thesis using f by (intro exI [of _ k] exI [of _ s']) (simp add: file_post_def)
qed

lemma based_parents: "based s0 s \<Longrightarrow> sdb_ok s0 \<Longrightarrow> parent_of s = parent_of s0"
  by (rule links_parent_of, rule bare_links) (simp_all add: based_def sdb_okD)

definition climb_post :: "(rat \<Rightarrow> rat) \<Rightarrow> StreamSqliteDB \<Rightarrow> (uuid \<Rightarrow> AABB set) \<Rightarrow> uuid set \<Rightarrow> nat \<Rightarrow> StreamSqliteDB \<Rightarrow> StreamSqliteDB \<Rightarrow> bool" where
  "climb_post log2f s0 D U n s s' \<longleftrightarrow> based s0 s' \<and> tiles s' \<le> tiles s + n \<and>
     (\<forall>u. u \<in> U \<or> covered log2f s0 D s u \<longrightarrow> covered log2f s0 D s' u)"

lemma climb_step_ok:
  assumes "based s0 s" "sdb_ok s0" "tiles s < 2 ^ 31 - 1" "\<not> is_nil p"
  shows "\<exists>k s'. climb_step log2f p r s = Some (parent_of s0 p, dm_put p k r, s') \<and> climb_post log2f s0 D {p} 1 s s'"
proof -
  obtain a s1 where a: "get_object_aabb p s = Some (a, s1)" "based s0 s1" "a \<in> known_boxes s0 p" "db s1 = db s" "tiles s1 = tiles s"
    using get_aabb_based [OF assms(1), of p] by blast
  have p: "p \<noteq> []" using assms(4) by (auto simp: is_nil_def)
  have "tiles s1 < 2 ^ 31 - 1" "a \<in> D p \<union> known_boxes s0 p" using a(3,5) assms(3) by simp_all
  from file_object_based [OF a(2) this(1) p, of a D, OF this(2), of log2f]
  obtain k s' where f: "file_object log2f p a s1 = Some (k, s')" "based s0 s'" "tiles s' \<le> Suc (tiles s1)"
    "covered log2f s0 D s' p" "\<forall>v. covered log2f s0 D s1 v \<longrightarrow> covered log2f s0 D s' v" by blast
  have "parent_uuid (query_object p s) = parent_of s0 p"
    using based_parents [OF assms(1,2)] by (simp add: parent_of_def [symmetric])
  moreover have "covered log2f s0 D s1 v = covered log2f s0 D s v" for v by (simp add: covered_def a(4))
  ultimately show ?thesis using a(1,5) f
    by (intro exI [of _ k] exI [of _ s']) (auto simp: climb_step_def climb_post_def)
qed

text \<open>The first \<open>n\<close> identifiers on the way up from \<open>p\<close>, up to a nil one.\<close>

fun ancestors :: "(uuid \<Rightarrow> uuid) \<Rightarrow> nat \<Rightarrow> uuid \<Rightarrow> uuid list" where
  "ancestors par 0 p = []"
| "ancestors par (Suc n) p = (if is_nil p then [] else p # ancestors par n (par p))"

lemma climb_ok:
  assumes "sdb_ok s0"
  shows "based s0 s \<Longrightarrow> tiles s + n < 2 ^ 31 \<Longrightarrow> is_nil ((parent_of s0 ^^ n) p) \<Longrightarrow>
    \<exists>r' s'. climb log2f p r s = Some (r', s') \<and> climb_post log2f s0 D (set (ancestors (parent_of s0) n p)) n s s'"
proof (induction n arbitrary: p r s)
  case 0
  then show ?case by (subst climb.simps) (simp add: climb_post_def)
next
  case (Suc n)
  show ?case
  proof (cases "is_nil p")
    case True
    then show ?thesis using Suc.prems(1) by (subst climb.simps) (simp add: climb_post_def)
  next
    case False
    have "tiles s < 2 ^ 31 - 1" using Suc.prems(2) by simp
    then obtain k s1 where s1: "climb_step log2f p r s = Some (parent_of s0 p, dm_put p k r, s1)" "climb_post log2f s0 D {p} 1 s s1"
      using climb_step_ok [OF Suc.prems(1) assms _ False] by blast
    have "based s0 s1" "tiles s1 + n < 2 ^ 31" "is_nil ((parent_of s0 ^^ n) (parent_of s0 p))"
      using s1(2) Suc.prems(2,3) by (simp_all add: climb_post_def funpow_swap1)
    from Suc.IH [OF this, of "dm_put p k r"] obtain r' s' where r: "climb log2f (parent_of s0 p) (dm_put p k r) s1 = Some (r', s')"
      "climb_post log2f s0 D (set (ancestors (parent_of s0) n (parent_of s0 p))) n s1 s'" by blast
    have "climb log2f p r s = Some (r', s')" using False s1(1) r(1) by (subst climb.simps) simp
    then show ?thesis using s1(2) r(2) False unfolding climb_post_def
      by (intro exI [of _ r'] exI [of _ s']) auto
  qed
qed

section \<open>The whole task\<close>

lemma file_dirty_ok:
  assumes "sdb_ok s0" "\<forall>u. is_nil ((parent_of s0 ^^ n) u)"
  shows "based s0 s \<Longrightarrow> tiles s + length ds * Suc n < 2 ^ 31 \<Longrightarrow> \<forall>p \<in> set ds. fst p \<noteq> [] \<and> snd p \<in> D (fst p) \<Longrightarrow>
    \<exists>r' s'. file_dirty log2f ds r s = Some (r', s') \<and> based s0 s' \<and>
      (\<forall>v. (\<exists>p \<in> set ds. v = fst p \<or> v \<in> set (ancestors (parent_of s0) n (parent_of s0 (fst p)))) \<or> covered log2f s0 D s v \<longrightarrow>
        covered log2f s0 D s' v)"
proof (induction ds arbitrary: r s)
  case Nil
  then show ?case by simp
next
  case (Cons p ds)
  obtain u a where p: "p = (u, a)" by (cases p)
  have "tiles s < 2 ^ 31 - 1" "u \<noteq> []" "a \<in> D u \<union> known_boxes s0 u" using Cons.prems p by auto
  then obtain k s1 where f: "file_object log2f u a s = Some (k, s1)" "based s0 s1" "tiles s1 \<le> Suc (tiles s)"
    "covered log2f s0 D s1 u" "\<forall>v. covered log2f s0 D s v \<longrightarrow> covered log2f s0 D s1 v"
    using file_object_based [OF Cons.prems(1), of u a D log2f] by blast
  have pu: "parent_uuid (query_object u s1) = parent_of s0 u"
    using based_parents [OF f(2) assms(1)] by (simp add: parent_of_def [symmetric])
  have "tiles s1 + n < 2 ^ 31" using f(3) Cons.prems(2) by simp
  then obtain r1 s2 where c: "climb log2f (parent_of s0 u) (dm_put u k r) s1 = Some (r1, s2)"
    "climb_post log2f s0 D (set (ancestors (parent_of s0) n (parent_of s0 u))) n s1 s2"
    using climb_ok [OF assms(1) f(2), of n "parent_of s0 u" log2f] assms(2) by blast
  have "based s0 s2" "tiles s2 + length ds * Suc n < 2 ^ 31" using c(2) f(3) Cons.prems(2) by (auto simp: climb_post_def)
  then obtain r2 s3 where d: "file_dirty log2f ds r1 s2 = Some (r2, s3)" "based s0 s3"
      "\<forall>v. (\<exists>p \<in> set ds. v = fst p \<or> v \<in> set (ancestors (parent_of s0) n (parent_of s0 (fst p)))) \<or> covered log2f s0 D s2 v \<longrightarrow>
        covered log2f s0 D s3 v"
    using Cons.IH [of s2 r1] Cons.prems(3) by auto
  have "file_dirty log2f (p # ds) r s = Some (r2, s3)" using f(1) c(1) d(1) by (simp add: p pu)
  then show ?case using f(4,5) c(2) d(2,3) p by (intro exI [of _ r2] exI [of _ s3]) (auto simp: climb_post_def)
qed

lemma remove_all_ok: "sdb_ok s \<Longrightarrow> \<exists>s'. remove_all us s = Some s' \<and> sdb_ok s' \<and> tiles s' = tiles s"
proof (induction us arbitrary: s)
  case (Cons u us)
  obtain s1 where s1: "remove_object u s = Some s1" "sdb_ok s1" "chunk_metadata (db s1) = chunk_metadata (db s)"
    using remove_sdb_ok [OF Cons.prems] .
  then show ?case using Cons.IH [OF s1(2)] by (simp add: tiles_def)
qed simp

lemma upsert_all_ok: "sdb_ok s \<Longrightarrow> \<forall>p \<in> set ds. uuid_ok (fst p) \<Longrightarrow> sdb_ok (upsert_all ds s) \<and> tiles (upsert_all ds s) = tiles s"
proof (induction ds arbitrary: s)
  case (Cons p ds)
  obtain u d where p: "p = (u, d)" by (cases p)
  have "sdb_ok (upsert_object_uuids u d s)" using Cons.prems p by (simp add: upsert_sdb_ok)
  moreover have "tiles (upsert_object_uuids u d s) = tiles s" by (simp add: upsert_effect [OF Cons.prems(1)] tiles_def)
  ultimately show ?case using Cons.IH [of "upsert_object_uuids u d s"] Cons.prems p by (simp add: upsert_all_def)
qed (simp add: upsert_all_def)

lemma set_boxes_ok: "sdb_ok s \<Longrightarrow> \<exists>s'. set_boxes ds s = Some s' \<and> sdb_ok s' \<and> tiles s' = tiles s \<and> parent_of s' = parent_of s"
proof (induction ds arbitrary: s)
  case (Cons p ds)
  obtain u a where p: "p = (u, a)" by (cases p)
  obtain s1 where s1: "set_object_aabb u a s = Some s1" "sdb_ok s1" "chunk_metadata (db s1) = chunk_metadata (db s)"
    "map (\<lambda>ob. (row_uuid ob, row_parent ob)) (object_uuid (db s1)) = map (\<lambda>ob. (row_uuid ob, row_parent ob)) (object_uuid (db s))"
    using set_aabb_sdb_ok [OF Cons.prems] .
  have "parent_of s1 = parent_of s"
    by (rule links_parent_of) (simp add: links_def s1(4) sdb_okD(2) [OF s1(2)] sdb_okD(2) [OF Cons.prems])
  then show ?case using Cons.IH [OF s1(2)] s1(1,3) p by (simp add: tiles_def)
qed simp


definition new_row :: "uuid" where
  "new_row = replicate 16 1"

lemma parents_of_new_row: "parent_of (upsert_all [(new_row, ObjectData_new)] (StreamSqliteDB_new True False None)) u = uuid_nil"
proof -
  have "map (\<lambda>ob. (row_uuid ob, row_parent ob))
      (object_uuid (db (upsert_all [(new_row, ObjectData_new)] (StreamSqliteDB_new True False None)))) = [(new_row, None)]"
    by code_simp
  then show ?thesis by (simp add: parent_of_links links_def read_parent_def)
qed


section \<open>From the index to the scene tree\<close>

lemma in_dm_put: "p \<in> set (dm_put k d m) \<Longrightarrow> snd p = d \<or> p \<in> set m"
  by (auto simp: dm_put_def split: if_splits)

lemma collect_objects_roots: "dm_inv (collect_objects rs) \<and>
    ((\<forall>p. Some p \<in> set rs \<longrightarrow> node_root (snd p) = 0) \<longrightarrow> (\<forall>p \<in> set (collect_objects rs). node_root (snd p) = 0))"
proof (induction rs rule: rev_induct)
  case Nil
  then show ?case by (simp add: collect_objects_def)
next
  case (snoc r rs)
  have e: "collect_objects (rs @ [r]) = (case r of None \<Rightarrow> collect_objects rs | Some (k, d) \<Rightarrow> dm_put k d (collect_objects rs))"
    by (cases r) (auto simp: collect_objects_def)
  show ?case
  proof (cases r)
    case None
    then show ?thesis using snoc unfolding e by simp
  next
    case (Some p)
    obtain k d where p: "p = (k, d)" by (cases p)
    have "node_root (snd q) = 0" if a: "\<forall>p. Some p \<in> set (rs @ [r]) \<longrightarrow> node_root (snd p) = 0"
      "q \<in> set (dm_put k d (collect_objects rs))" for q
    proof -
      have d: "node_root d = 0" using a(1) [rule_format, of "(k, d)"] Some p by simp
      have "\<forall>p. Some p \<in> set rs \<longrightarrow> node_root (snd p) = 0" using a(1) by simp
      then have m: "\<forall>q \<in> set (collect_objects rs). node_root (snd q) = 0" using snoc by blast
      from in_dm_put [OF a(2)] show ?thesis
      proof
        assume "snd q = d"
        then show ?thesis using d by simp
      next
        assume "q \<in> set (collect_objects rs)"
        then show ?thesis using m by blast
      qed
    qed
    moreover have "collect_objects (rs @ [r]) = dm_put k d (collect_objects rs)" using e Some p by simp
    moreover have "dm_inv (dm_put k d (collect_objects rs))" using snoc by simp
    ultimately show ?thesis by metis
  qed
qed

lemma query_objects_wf:
  assumes "connected s" "db_ok (db s)"
  shows "dm_inv (query_objects aabbs s)" "\<forall>p \<in> set (query_objects aabbs s). node_root (snd p) = 0"
proof -
  have "dm_inv (query_objects aabbs s) \<and> (\<forall>p \<in> set (query_objects aabbs s). node_root (snd p) = 0)"
  proof (cases "aabbs = []")
    case True
    then show ?thesis by (simp add: query_objects_def)
  next
    case False
    show ?thesis unfolding query_objects_rows [OF assms False]
      using collect_objects_roots [of "map (\<lambda>ob. Some (row_uuid ob, row_data ob)) (join_rtree (\<lambda>r. \<exists>a \<in> set aabbs. meets a r) (db s))"]
      by (auto simp: row_data_def)
  qed
  then show "dm_inv (query_objects aabbs s)" "\<forall>p \<in> set (query_objects aabbs s). node_root (snd p) = 0" by simp_all
qed

text \<open>C4: A query from the boxes of the probes to the registry. When the query task of the manager runs on the database
  and its answer comes back, every stored object whose tile meets one of the boxes is registered, under
  its stored parent; every object that keeps its node has such a tile; and every registered root without a
  node waits in the load queue.\<close>

theorem query_round_trip:
  assumes "core s" "pending_removal s = []" "connected d" "db_ok (db d)"
  shows "\<exists>m s'. run_db_task log2f (QueryTask aabbs) d = Some (d, Some m) \<and> on_query_result m s = Some s' \<and>
    (\<forall>ob \<in> set (object_uuid (db d)). indexed_by (db d) (\<lambda>r. \<exists>a \<in> set aabbs. meets a r) ob \<longrightarrow>
      parent_in s' (row_uuid ob) = Some (parent_uuid (row_data ob)) \<and>
      (row_parent ob = None \<and> row_uuid ob \<notin> live s' \<longrightarrow> row_uuid ob \<in> set (load_queue s'))) \<and>
    (\<forall>u \<in> live s'. \<exists>ob \<in> set (object_uuid (db d)). row_uuid ob = u \<and> indexed_by (db d) (\<lambda>r. \<exists>a \<in> set aabbs. meets a r) ob)"
proof -
  let ?m = "query_objects aabbs d"
  note wf = query_objects_wf [OF assms(3,4), of aabbs]
  have look: "map_of ?m u = Some dt \<longleftrightarrow> (\<exists>ob \<in> set (object_uuid (db d)). row_uuid ob = u \<and> dt = row_data ob \<and>
        indexed_by (db d) (\<lambda>r. \<exists>a \<in> set aabbs. meets a r) ob)" for u dt
    using query_objects_lookup [OF assms(3,4)] by blast
  obtain s' where s': "on_query_result ?m s = Some s'" "query_post ?m s s'"
    using on_query_result_ok [OF assms(1,2) wf(1)] by (auto simp: yields_iff)
  have "parent_in s' (row_uuid ob) = Some (parent_uuid (row_data ob)) \<and>
      (row_parent ob = None \<and> row_uuid ob \<notin> live s' \<longrightarrow> row_uuid ob \<in> set (load_queue s'))"
    if "ob \<in> set (object_uuid (db d))" "indexed_by (db d) (\<lambda>r. \<exists>a \<in> set aabbs. meets a r) ob" for ob
  proof -
    have "map_of ?m (row_uuid ob) = Some (row_data ob)" using look that by blast
    then have p: "parent_in s' (row_uuid ob) = Some (parent_uuid (row_data ob))" using s'(2) by (simp add: query_post_def)
    moreover have "row_uuid ob \<in> set (load_queue s')" if "row_parent ob = None" "row_uuid ob \<notin> live s'"
    proof -
      have "is_nil (parent_uuid (row_data ob))" using that(1) by (simp add: row_data_def)
      then show ?thesis using s'(2) p that(2) unfolding query_post_def by (metis (mono_tags, lifting) UnCI mem_Collect_eq set_append)
    qed
    ultimately show ?thesis by blast
  qed
  moreover have "\<exists>ob \<in> set (object_uuid (db d)). row_uuid ob = u \<and> indexed_by (db d) (\<lambda>r. \<exists>a \<in> set aabbs. meets a r) ob"
    if "u \<in> live s'" for u
  proof -
    have "u \<in> dom (map_of ?m)" using s'(2) wf(2) that unfolding query_post_def by blast
    then show ?thesis using look by blast
  qed
  ultimately show ?thesis using s'(1) by (intro exI [of _ ?m] exI [of _ s']) (simp add: run_db_task_def)
qed

theorem query_round_trip_witness:
  "\<exists>m s'. run_db_task log2_floor (QueryTask [box_of (Vector3i 2 2 2) (Vector3i 9 9 9)]) example_sdb = Some (example_sdb, Some m) \<and>
    on_query_result m sample_leaf = Some s' \<and> parent_in s' (replicate 16 1) = Some uuid_nil"
proof -
  obtain ob where ob: "ob \<in> set (object_uuid example_db)" "row_uuid ob = replicate 16 1" "parent_uuid (row_data ob) = uuid_nil"
    by (simp add: example_db_def row_data_def)
  have "pending_removal sample_leaf = []" by (simp add: sample_leaf_def sample_new_def StreamManager_new_def)
  from query_round_trip [OF core_sample(2) this example_db_ok(1,2), of log2_floor "[box_of (Vector3i 2 2 2) (Vector3i 9 9 9)]"]
  obtain m s' where m: "run_db_task log2_floor (QueryTask [box_of (Vector3i 2 2 2) (Vector3i 9 9 9)]) example_sdb = Some (example_sdb, Some m)"
    "on_query_result m sample_leaf = Some s'" "parent_in s' (row_uuid ob) = Some (parent_uuid (row_data ob))"
    using ob(1) example_hit [OF ob(1)] unfolding example_db_ok(3) by blast
  then show ?thesis unfolding ob(2,3) by blast
qed

end
