(* ===== verification/StreamSystem.thy ===== *)
theory StreamSystem
  imports StreamFlush AsyncWorker
begin

text \<open>
  The parts together: the manager on the main thread, the worker thread with its queue, and the database
  (src/src/core/stream/stream_manager.cpp over src/src/core/components/async_db_worker.cpp). The main
  thread calls the manager, hands its tasks to the worker and runs the callbacks of finished tasks; the
  worker takes, runs and completes tasks; their steps interleave in any order. The tasks handed over and
  the answers delivered are recorded beside the state. The model follows one manager that lives and the
  worker \<open>make_db\<close> returns for one path; tasks for another path leave it, and what their worker answers
  is an arbitrary \<open>QueryResult\<close> call.
\<close>

section \<open>Tasks\<close>

type_synonym answer = "(uuid, ObjectData) a_hashmap option"

text \<open>The work of a task on the state of the database thread, \<open>None\<close> once a task hangs; its callback passes the
  objects of a query to \<open>_on_query_result\<close> and does nothing for the other tasks.\<close>

definition task_work :: "(rat \<Rightarrow> rat) \<Rightarrow> db_task \<Rightarrow> StreamSqliteDB option \<Rightarrow> StreamSqliteDB option \<times> answer" where
  "task_work log2f t d = (case Option.bind d (run_db_task log2f t) of None \<Rightarrow> (None, None)
     | Some (s, a) \<Rightarrow> (Some s, a))"

definition task_of :: "(rat \<Rightarrow> rat) \<Rightarrow> db_task \<Rightarrow> (StreamSqliteDB option, answer, answer) Task" where
  "task_of log2f t = \<lparr>work = Some (task_work log2f t), on_complete = Some (\<lambda>a. a), result_init = None\<rparr>"

fun deliver :: "answer list \<Rightarrow> 'sc StreamManager \<Rightarrow> 'sc StreamManager option" where
  "deliver [] m = Some m"
| "deliver (None # ans) m = deliver ans m"
| "deliver (Some objs # ans) m = Option.bind (on_query_result objs m) (deliver ans)"

text \<open>The specification, tasks one after the other with nobody else: the database afterwards, and one answer
  per task.\<close>

fun db_after :: "(rat \<Rightarrow> rat) \<Rightarrow> db_task list \<Rightarrow> StreamSqliteDB \<Rightarrow> StreamSqliteDB option" where
  "db_after log2f [] d = Some d"
| "db_after log2f (t # ts) d = Option.bind (run_db_task log2f t d) (\<lambda>(d, a). db_after log2f ts d)"

section \<open>Interleavings\<close>

record 'sc System =
  manager :: "'sc StreamManager"
  worker :: "(StreamSqliteDB option, answer, answer) AsyncDbWorker"
  history :: "db_task list"
  delivered :: "answer list"

definition System_new :: "'sc StreamManager \<Rightarrow> StreamSqliteDB \<Rightarrow> 'sc System" where
  "System_new m d = \<lparr>manager = m, worker = AsyncDbWorker_new (Some d), history = [], delivered = []\<rparr>"

text \<open>The tasks a call of the manager pushed lie in \<open>pushed_tasks\<close> until they reach the queue, before the main
  thread goes on to its next call. A worker whose task does not return takes no further step.\<close>

inductive system_step :: "(rat \<Rightarrow> rat) \<Rightarrow> string \<Rightarrow> 'sc System \<Rightarrow> 'sc System \<Rightarrow> bool" for log2f p where
  call: "pushed_tasks (manager y) = [] \<Longrightarrow> uuids_once e \<Longrightarrow> manager_step e (manager y) = Some m \<Longrightarrow>
    system_step log2f p y (y\<lparr>manager := m\<rparr>)"
| hand_over: "pushed_tasks (manager y) = (p, t) # rest \<Longrightarrow>
    system_step log2f p y (y\<lparr>manager := (manager y)\<lparr>pushed_tasks := rest\<rparr>,
      worker := push_task (task_of log2f t) (worker y), history := history y @ [t]\<rparr>)"
| elsewhere: "pushed_tasks (manager y) = (q, t) # rest \<Longrightarrow> q \<noteq> p \<Longrightarrow>
    system_step log2f p y (y\<lparr>manager := (manager y)\<lparr>pushed_tasks := rest\<rparr>\<rparr>)"
| thread: "worker_step (worker y) e w \<Longrightarrow> by_worker e \<Longrightarrow> db_state w \<noteq> None \<Longrightarrow>
    system_step log2f p y (y\<lparr>worker := w\<rparr>)"
| halt: "system_step log2f p y (y\<lparr>worker := request_stop (worker y)\<rparr>)"
| callbacks: "pushed_tasks (manager y) = [] \<Longrightarrow> flush_callbacks (worker y) = (ans, w) \<Longrightarrow>
    deliver ans (manager y) = Some m \<Longrightarrow>
    system_step log2f p y (y\<lparr>worker := w, manager := m, delivered := delivered y @ ans\<rparr>)"

inductive system_run :: "(rat \<Rightarrow> rat) \<Rightarrow> string \<Rightarrow> 'sc System \<Rightarrow> 'sc System \<Rightarrow> bool" for log2f p where
  here: "system_run log2f p y y"
| further: "system_run log2f p y y' \<Longrightarrow> system_step log2f p y' y'' \<Longrightarrow> system_run log2f p y y''"

section \<open>The tasks of the worker are the calls on the database\<close>

lemma task_of_run [simp]: "run_work (task_of log2f t) d = task_work log2f t d" "callback_of (task_of log2f t) a = [a]"
  by (simp_all add: run_work_def callback_of_def task_of_def)

lemma task_work_None [simp]: "task_work log2f t None = (None, None)"
  by (simp add: task_work_def)

lemma run_all_None [simp]: "run_all (map (task_of log2f) ts) None = None"
  by (induction ts) auto

lemma run_all_tasks: "run_all (map (task_of log2f) ts) (Some d) = db_after log2f ts d"
  by (induction ts arbitrary: d) (auto simp: task_work_def split: option.split)

lemma length_callbacks [simp]: "length (callbacks_all (map (task_of log2f) ts) d) = length ts"
  by (induction ts arbitrary: d) auto

lemma callbacks_nth:
  assumes "db_after log2f ts d = Some d'" "i < length ts"
  shows "\<exists>d1 d2. db_after log2f (take i ts) d = Some d1 \<and>
    run_db_task log2f (ts ! i) d1 = Some (d2, callbacks_all (map (task_of log2f) ts) (Some d) ! i)"
  using assms
proof (induction ts arbitrary: d i)
  case (Cons t ts)
  obtain d1 a where t: "run_db_task log2f t d = Some (d1, a)" "db_after log2f ts d1 = Some d'"
    using Cons.prems(1) by (auto simp: bind_eq_Some_conv)
  then have w: "task_work log2f t (Some d) = (Some d1, a)" by (simp add: task_work_def)
  show ?case
  proof (cases i)
    case 0
    then show ?thesis using t w by simp
  next
    case (Suc j)
    then have "j < length ts" using Cons.prems(2) by simp
    from Cons.IH [OF t(2) this] show ?thesis using Suc t(1) w by simp
  qed
qed simp

lemma query_objects_once: "dm_inv (query_objects aabbs s)" "dm_inv (query_objects_of_aabb a s)"
  using collect_objects_roots by (auto simp: query_objects_def query_objects_of_aabb_def Let_def split: option.split prod.split)

lemma answers_once: "Some objs \<in> set (callbacks_all (map (task_of log2f) ts) d) \<Longrightarrow> dm_inv objs"
proof (induction ts arbitrary: d)
  case (Cons t ts)
  have "dm_inv objs" if "Some objs = snd (task_work log2f t d)"
  proof (cases t)
    case (QueryTask aabbs)
    then show ?thesis using that query_objects_once(1) by (cases d) (auto simp: task_work_def run_db_task_def)
  next
    case (QueryOneTask a)
    then show ?thesis using that query_objects_once(2) by (cases d) (auto simp: task_work_def run_db_task_def)
  qed (use that in \<open>auto simp: task_work_def run_db_task_def bind_eq_Some_conv split: option.splits\<close>)
  then show ?case using Cons by auto
qed simp

lemma deliver_ok: "manager_ok m \<Longrightarrow> (\<And>objs. Some objs \<in> set ans \<Longrightarrow> dm_inv objs) \<Longrightarrow> yields (deliver ans m) manager_ok"
proof (induction ans arbitrary: m)
  case (Cons a ans)
  show ?case
  proof (cases a)
    case None
    then show ?thesis using Cons by simp
  next
    case (Some objs)
    have "yields (on_query_result objs m) (query_post objs m)"
      using Cons.prems Some by (intro on_query_result_ok) (simp_all add: manager_ok_def)
    then have "yields (on_query_result objs m) (\<lambda>m'. yields (deliver ans m') manager_ok)"
    proof (rule yields_weaken)
      fix m' assume "query_post objs m m'"
      then have "manager_ok m'" using Cons.prems(1) by (simp add: query_post_def manager_ok_def)
      then show "yields (deliver ans m') manager_ok" using Cons.prems(2) by (intro Cons.IH) simp_all
    qed
    then show ?thesis using Some by simp
  qed
qed simp

section \<open>Every interleaving is the tasks in order\<close>

definition system_inv :: "(rat \<Rightarrow> rat) \<Rightarrow> StreamSqliteDB \<Rightarrow> 'sc System \<Rightarrow> bool" where
  "system_inv log2f d0 y \<longleftrightarrow> manager_ok (manager y) \<and> db_state (worker y) \<noteq> None \<and>
     (\<exists>tr. worker_run (AsyncDbWorker_new (Some d0)) tr (worker y) \<and> pushed tr = map (task_of log2f) (history y) \<and>
        flushed tr = delivered y)"

lemma system_inv_worker:
  assumes "system_inv log2f d0 y"
  shows "\<exists>k d rest. k \<le> length (history y) \<and> db_after log2f (take k (history y)) d0 = Some d \<and>
    db_state (worker y) = Some d \<and>
    delivered y @ completed_callbacks (worker y) @ rest = callbacks_all (map (task_of log2f) (take k (history y))) (Some d0)"
proof -
  obtain tr where tr: "worker_run (AsyncDbWorker_new (Some d0)) tr (worker y)" "pushed tr = map (task_of log2f) (history y)"
    "flushed tr = delivered y" using assms unfolding system_inv_def by blast
  let ?k = "length (executed tr)"
  have p: "executed tr @ in_hand (worker y) @ task_queue (worker y) = map (task_of log2f) (history y)"
    using worker_run_invariant [OF tr(1)] tr(2) by simp
  have e: "executed tr = map (task_of log2f) (take ?k (history y))"
    using arg_cong [OF p, of "take ?k"] by (simp add: take_map)
  have "?k \<le> length (history y)" using arg_cong [OF p, of length] by simp
  moreover have "db_state (worker y) = db_after log2f (take ?k (history y)) d0"
    using worker_run_invariant [OF tr(1)] run_all_tasks [of log2f "take ?k (history y)" d0] e by simp
  moreover have "delivered y @ completed_callbacks (worker y) @ to_file (worker y) =
      callbacks_all (map (task_of log2f) (take ?k (history y))) (Some d0)"
    using worker_run_invariant [OF tr(1)] tr(3) e by simp
  ultimately show ?thesis using assms unfolding system_inv_def by (metis not_None_eq)
qed

lemma system_deliver_ok:
  assumes "system_inv log2f d0 y" "flush_callbacks (worker y) = (ans, w)"
  shows "yields (deliver ans (manager y)) manager_ok"
proof (rule deliver_ok)
  show "manager_ok (manager y)" using assms(1) by (simp add: system_inv_def)
  obtain k rest where "delivered y @ completed_callbacks (worker y) @ rest =
      callbacks_all (map (task_of log2f) (take k (history y))) (Some d0)" using system_inv_worker [OF assms(1)] by blast
  moreover have "ans = completed_callbacks (worker y)" using assms(2) by (simp add: flush_callbacks_def)
  ultimately show "dm_inv objs" if "Some objs \<in> set ans" for objs
    using that answers_once [of objs log2f "take k (history y)" "Some d0"] by (metis Un_iff set_append)
qed

lemma manager_ok_handed [simp]: "manager_ok (m\<lparr>pushed_tasks := ts\<rparr>) = manager_ok m"
  by (simp add: manager_ok_def core_def StreamManagerInv.registered_def)

lemma db_state_ops [simp]: "db_state (push_task t w) = db_state w" "db_state (request_stop w) = db_state w"
  "db_state (snd (flush_callbacks w)) = db_state w"
  by (simp_all add: push_task_def request_stop_def flush_callbacks_def)

lemma quiet_event: "by_worker e \<Longrightarrow> pushed (tr @ [e]) = pushed tr \<and> flushed (tr @ [e]) = flushed tr"
  by (cases e) (simp_all add: pushed_def)

lemma system_step_inv: "system_step log2f p y y' \<Longrightarrow> system_inv log2f d0 y \<Longrightarrow> system_inv log2f d0 y'"
proof (induction rule: system_step.induct)
  case (call y e m)
  have ok: "manager_ok (manager y)" using call(4) by (simp add: system_inv_def)
  have "\<not> dead_probe_frame e (manager y)" using dead_probe_frame_undefined [OF ok] call(3) by fastforce
  then have "manager_ok m" using manager_step_ok [OF ok call(2)] call(3) by (simp add: yields_iff)
  then show ?case using call(4) by (simp add: system_inv_def)
next
  case (hand_over y t rest)
  obtain tr where tr: "worker_run (AsyncDbWorker_new (Some d0)) tr (worker y)" "pushed tr = map (task_of log2f) (history y)"
    "flushed tr = delivered y" using hand_over(2) unfolding system_inv_def by blast
  from worker_run.step [OF tr(1) worker_step.push, of "task_of log2f t"] tr(2,3) show ?case using hand_over(2)
    by (auto simp: system_inv_def simp del: pushed_append intro!: exI [of _ "tr @ [Push (task_of log2f t)]"])
next
  case (elsewhere y q t rest)
  then show ?case by (simp add: system_inv_def)
next
  case (thread y e w)
  obtain tr where tr: "worker_run (AsyncDbWorker_new (Some d0)) tr (worker y)" "pushed tr = map (task_of log2f) (history y)"
    "flushed tr = delivered y" using thread(4) unfolding system_inv_def by blast
  from worker_run.step [OF tr(1) thread(1)] quiet_event [OF thread(2), of tr] tr(2,3) show ?case using thread(3,4)
    unfolding system_inv_def by auto
next
  case (halt y)
  obtain tr where tr: "worker_run (AsyncDbWorker_new (Some d0)) tr (worker y)" "pushed tr = map (task_of log2f) (history y)"
    "flushed tr = delivered y" using halt unfolding system_inv_def by blast
  from worker_run.step [OF tr(1) worker_step.stop] tr(2,3) show ?case using halt
    by (auto simp: system_inv_def simp del: pushed_append intro!: exI [of _ "tr @ [Stop]"])
next
  case (callbacks y ans w m)
  obtain tr where tr: "worker_run (AsyncDbWorker_new (Some d0)) tr (worker y)" "pushed tr = map (task_of log2f) (history y)"
    "flushed tr = delivered y" using callbacks(4) unfolding system_inv_def by blast
  have "manager_ok m" using system_deliver_ok [OF callbacks(4,2)] callbacks(3) by (simp add: yields_iff)
  with worker_run.step [OF tr(1) worker_step.flush [OF callbacks(2)]] tr(2,3) callbacks(2,4) db_state_ops(3) [of "worker y"] show ?case
    by (auto simp: system_inv_def simp del: pushed_append intro!: exI [of _ "tr @ [Flush ans]"])
qed

lemma system_run_inv: "system_run log2f p y y' \<Longrightarrow> system_inv log2f d0 y \<Longrightarrow> system_inv log2f d0 y'"
  by (induction rule: system_run.induct) (auto intro: system_step_inv)

lemma system_inv_new:
  assumes "manager_ok m"
  shows "system_inv log2f d (System_new m d)"
proof -
  have "db_state (AsyncDbWorker_new (Some d) :: (StreamSqliteDB option, answer, answer) AsyncDbWorker) = Some d"
    by (simp add: AsyncDbWorker_new_def)
  then show ?thesis using assms worker_run.start [of "AsyncDbWorker_new (Some d)"]
    unfolding system_inv_def System_new_def by (intro conjI exI [of _ "[]"]) simp_all
qed

text \<open>C5: However the manager, its worker and the callbacks interleave, the program is its tasks in order. The
  database is the result of the first tasks that were handed over, run one after the other; the answers
  delivered so far are the answers of the first tasks, each once and in order, each computed on the
  database exactly the tasks handed over before it leave; the manager is consistent, and running the
  callbacks that wait has a result.\<close>

theorem system_linearizes:
  assumes "system_run log2f p (System_new m d0) y" "manager_ok m"
  shows "(\<exists>k d. k \<le> length (history y) \<and> length (delivered y) \<le> k \<and>
      db_after log2f (take k (history y)) d0 = Some d \<and> db_state (worker y) = Some d) \<and>
    (\<forall>i < length (delivered y). \<exists>d1 d2. db_after log2f (take i (history y)) d0 = Some d1 \<and>
      run_db_task log2f (history y ! i) d1 = Some (d2, delivered y ! i)) \<and>
    manager_ok (manager y) \<and> deliver (fst (flush_callbacks (worker y))) (manager y) \<noteq> None"
proof -
  have inv: "system_inv log2f d0 y" by (rule system_run_inv [OF assms(1) system_inv_new [OF assms(2)]])
  obtain k d rest where k: "k \<le> length (history y)" "db_after log2f (take k (history y)) d0 = Some d" "db_state (worker y) = Some d"
    "delivered y @ completed_callbacks (worker y) @ rest = callbacks_all (map (task_of log2f) (take k (history y))) (Some d0)"
    using system_inv_worker [OF inv] by blast
  have len: "length (delivered y) \<le> k" using arg_cong [OF k(4), of length] k(1) by simp
  have "\<exists>d1 d2. db_after log2f (take i (history y)) d0 = Some d1 \<and> run_db_task log2f (history y ! i) d1 = Some (d2, delivered y ! i)"
    if "i < length (delivered y)" for i
  proof -
    have i: "i < length (take k (history y))" "i < k" using that len k(1) by simp_all
    have "callbacks_all (map (task_of log2f) (take k (history y))) (Some d0) ! i = delivered y ! i"
      using that unfolding k(4) [symmetric] by (simp add: nth_append)
    then show ?thesis using callbacks_nth [OF k(2) i(1)] i(2) by (simp add: min_def)
  qed
  moreover have "deliver (fst (flush_callbacks (worker y))) (manager y) \<noteq> None"
    using system_deliver_ok [OF inv surjective_pairing] unfolding yields_iff by blast
  ultimately show ?thesis using k(1-3) len inv unfolding system_inv_def by blast
qed

text \<open>One query, from the call of the manager to its callback.\<close>

lemma query_run:
  assumes "manager_ok m" "pushed_tasks m = [(p, QueryTask aabbs)]"
  shows "\<exists>y. system_run log2f p (System_new m d) y \<and> history y = [QueryTask aabbs] \<and> delivered y = [Some (query_objects aabbs d)]"
proof -
  let ?t = "task_of log2f (QueryTask aabbs)" and ?a = "Some (query_objects aabbs d)" and ?m = "m\<lparr>pushed_tasks := []\<rparr>"
  let ?w = "\<lambda>q cs ph. \<lparr>db_state = Some d, task_queue = q, completed_callbacks = cs, stop = False, thread_phase = ph\<rparr>"
  let ?y = "\<lambda>w ans. \<lparr>manager = ?m, worker = w, history = [QueryTask aabbs], delivered = ans\<rparr>"
  have w: "task_work log2f (QueryTask aabbs) (Some d) = (Some d, ?a)" by (simp add: task_work_def run_db_task_def)
  have "system_step log2f p (System_new m d) (?y (?w [?t] [] Waiting) [])"
    using system_step.hand_over [of "System_new m d" p "QueryTask aabbs" "[]" log2f] assms(2)
    by (simp add: System_new_def AsyncDbWorker_new_def push_task_def)
  moreover have "worker_step (?w [?t] [] Waiting) Take (?w [] [] (Holding ?t))"
    using worker_step.take [of "?w [?t] [] Waiting"] by (simp add: wait_done_def take_task_def)
  then have "system_step log2f p (?y (?w [?t] [] Waiting) []) (?y (?w [] [] (Holding ?t)) [])"
    using system_step.thread [of "?y (?w [?t] [] Waiting) []"] by simp
  moreover have "worker_step (?w [] [] (Holding ?t)) (Work ?t ?a) (?w [] [] (Worked ?t ?a))"
    using worker_step.work [of "?w [] [] (Holding ?t)" ?t] by (simp add: do_work_def w)
  then have "system_step log2f p (?y (?w [] [] (Holding ?t)) []) (?y (?w [] [] (Worked ?t ?a)) [])"
    using system_step.thread [of "?y (?w [] [] (Holding ?t)) []"] by simp
  moreover have "worker_step (?w [] [] (Worked ?t ?a)) Complete (?w [] [?a] Waiting)"
    using worker_step.complete [of "?w [] [] (Worked ?t ?a)" ?t ?a] by (simp add: complete_task_def)
  then have "system_step log2f p (?y (?w [] [] (Worked ?t ?a)) []) (?y (?w [] [?a] Waiting) [])"
    using system_step.thread [of "?y (?w [] [] (Worked ?t ?a)) []"] by simp
  ultimately have r: "system_run log2f p (System_new m d) (?y (?w [] [?a] Waiting) [])"
    by (intro system_run.further [OF system_run.further [OF system_run.further [OF system_run.further [OF system_run.here]]]])
  obtain m' where "deliver [?a] ?m = Some m'"
    using deliver_ok [of ?m "[?a]"] assms(1) query_objects_once(1) by (auto simp: yields_iff)
  then have "system_step log2f p (?y (?w [] [?a] Waiting) []) ((?y (?w [] [] Waiting) [?a])\<lparr>manager := m'\<rparr>)"
    using system_step.callbacks [of "?y (?w [] [?a] Waiting) []" "[?a]" "?w [] [] Waiting" m' log2f p] by (simp add: flush_callbacks_def)
  then show ?thesis using system_run.further [OF r] by (intro exI conjI) auto
qed

theorem system_linearizes_witness:
  "\<exists>y d1 d2. system_run log2_floor ''w.db'' (System_new (sample_leaf\<lparr>pushed_tasks := [(''w.db'', QueryTask [AABB_new])]\<rparr>) example_sdb) y \<and>
    db_after log2_floor [] example_sdb = Some d1 \<and> run_db_task log2_floor (QueryTask [AABB_new]) d1 = Some (d2, delivered y ! 0)"
proof -
  let ?m = "sample_leaf\<lparr>pushed_tasks := [(''w.db'', QueryTask [AABB_new])]\<rparr>"
  have ok: "manager_ok ?m" using core_sample(2) by (simp add: manager_ok_def)
    (simp add: sample_leaf_def sample_new_def StreamManager_new_def core_def StreamManagerInv.registered_def)
  obtain y where y: "system_run log2_floor ''w.db'' (System_new ?m example_sdb) y" "history y = [QueryTask [AABB_new]]"
    "length (delivered y) = 1" using query_run [OF ok, of "''w.db''" "[AABB_new]" log2_floor example_sdb] by auto
  then show ?thesis using system_linearizes [OF y(1) ok] by fastforce
qed

section \<open>Every task is answered\<close>

lemma db_after_take: "db_after log2f ts d = Some d' \<Longrightarrow> db_after log2f (take k ts) d \<noteq> None"
proof (induction ts arbitrary: d k)
  case (Cons t ts)
  then show ?case by (cases k) (auto simp: bind_eq_Some_conv)
qed simp

lemma busy_step:
  assumes "thread_phase s \<noteq> Exited" "\<not> (thread_phase s = Waiting \<and> task_queue s = [])"
  shows "\<exists>e s'. worker_step s e s' \<and> by_worker e \<and> thread_phase s' \<noteq> Exited"
proof (cases "thread_phase s")
  case Waiting
  then have q: "task_queue s \<noteq> []" using assms(2) by simp
  then have "worker_step s Take (take_task s)" using worker_step.take [OF Waiting] by (simp add: wait_done_def)
  moreover have "thread_phase (take_task s) \<noteq> Exited" using q by (simp add: take_task_def split: list.split)
  ultimately show ?thesis by (intro exI [of _ Take]) auto
next
  case (Holding t)
  then show ?thesis using worker_step.work [OF Holding] by (fastforce simp: do_work_def split_beta Let_def)
next
  case (Worked t r)
  then show ?thesis using worker_step.complete [OF Worked] by (fastforce simp: complete_task_def)
qed (use assms in simp)

lemma system_thread_step:
  assumes "system_inv log2f d0 y" "worker_step (worker y) e w" "by_worker e" "db_after log2f (history y) d0 = Some d"
  shows "system_step log2f p y (y\<lparr>worker := w\<rparr>)"
proof (rule system_step.thread [OF assms(2,3)])
  obtain tr where tr: "worker_run (AsyncDbWorker_new (Some d0)) tr (worker y)" "pushed tr = map (task_of log2f) (history y)"
    using assms(1) unfolding system_inv_def by blast
  note r = worker_run_invariant [OF worker_run.step [OF tr(1) assms(2)]]
  have "executed (tr @ [e]) @ in_hand w @ task_queue w = map (task_of log2f) (history y)"
    using r quiet_event [OF assms(3), of tr] tr(2) by simp
  then obtain k where k: "executed (tr @ [e]) = map (task_of log2f) (take k (history y))"
    unfolding append_eq_conv_conj take_map by blast
  have "db_state w = run_all (executed (tr @ [e])) (Some d0)" using r by blast
  then have "db_state w = db_after log2f (take k (history y)) d0" by (simp only: k run_all_tasks)
  then show "db_state w \<noteq> None" using db_after_take [OF assms(4)] by simp
qed

lemma system_run_trans: "system_run log2f p y y' \<Longrightarrow> system_run log2f p y' y'' \<Longrightarrow> system_run log2f p y y''"
  by (rotate_tac, induction rule: system_run.induct) (auto intro: system_run.further)

lemma system_idle:
  assumes "system_inv log2f d0 y" "thread_phase (worker y) \<noteq> Exited" "db_after log2f (history y) d0 = Some d"
  shows "\<exists>w. system_run log2f p y (y\<lparr>worker := w\<rparr>) \<and> system_inv log2f d0 (y\<lparr>worker := w\<rparr>) \<and> thread_phase w = Waiting \<and> task_queue w = []"
  using assms
proof (induction "work_left (worker y)" arbitrary: y rule: less_induct)
  case less
  show ?case
  proof (cases "thread_phase (worker y) = Waiting \<and> task_queue (worker y) = []")
    case True
    then show ?thesis using less.prems(1) system_run.here [of log2f p y] by (intro exI [of _ "worker y"]) simp
  next
    case False
    obtain e w where w: "worker_step (worker y) e w" "by_worker e" "thread_phase w \<noteq> Exited"
      using busy_step [OF less.prems(2) False] by blast
    note st = system_thread_step [OF less.prems(1) w(1,2) less.prems(3), of p]
    let ?y = "y\<lparr>worker := w\<rparr>"
    have "work_left (worker ?y) < work_left (worker y)" using worker_step_decreases [OF w(1,2)] by simp
    moreover have "system_inv log2f d0 ?y" by (rule system_step_inv [OF st less.prems(1)])
    ultimately obtain w' where w': "system_run log2f p ?y (?y\<lparr>worker := w'\<rparr>)" "system_inv log2f d0 (?y\<lparr>worker := w'\<rparr>)"
      "thread_phase w' = Waiting" "task_queue w' = []"
      using less.hyps [of ?y] w(3) less.prems(3) by auto
    have "system_run log2f p y (?y\<lparr>worker := w'\<rparr>)"
      by (rule system_run_trans [OF system_run.further [OF system_run.here st] w'(1)])
    then show ?thesis using w' by (intro exI [of _ w']) simp
  qed
qed

text \<open>C12: Every task is answered. As long as the worker has not returned, the tasks handed over return and the main
  thread is between two calls, the worker can go on and the callbacks run, so that every task handed over
  has delivered its answer, in order: the answer of a query is what it returns on the database the
  tasks before it leave.\<close>

theorem every_task_is_answered:
  assumes "system_run log2f p (System_new m d0) y" "manager_ok m" "pushed_tasks (manager y) = []"
    "thread_phase (worker y) \<noteq> Exited" "db_after log2f (history y) d0 = Some d"
  shows "\<exists>y'. system_run log2f p y y' \<and> history y' = history y \<and> length (delivered y') = length (history y) \<and>
    db_state (worker y') = Some d \<and> (\<forall>i < length (history y). \<exists>d1 d2. db_after log2f (take i (history y)) d0 = Some d1 \<and>
      run_db_task log2f (history y ! i) d1 = Some (d2, delivered y' ! i))"
proof -
  have inv: "system_inv log2f d0 y" by (rule system_run_inv [OF assms(1) system_inv_new [OF assms(2)]])
  obtain w where w: "system_run log2f p y (y\<lparr>worker := w\<rparr>)" "system_inv log2f d0 (y\<lparr>worker := w\<rparr>)"
    "thread_phase w = Waiting" "task_queue w = []" using system_idle [OF inv assms(4,5)] by blast
  obtain tr where tr: "worker_run (AsyncDbWorker_new (Some d0)) tr w" "pushed tr = map (task_of log2f) (history y)"
    "flushed tr = delivered y" using w(2) unfolding system_inv_def by auto
  have all: "delivered y @ completed_callbacks w = callbacks_all (map (task_of log2f) (history y)) (Some d0)"
    "db_state w = Some d"
    using worker_run_invariant [OF tr(1)] tr(2,3) w(3,4) run_all_tasks [of log2f "history y" d0] assms(5)
    by (simp_all add: in_hand_def to_file_def)
  let ?w = "snd (flush_callbacks w)"
  have f: "flush_callbacks w = (completed_callbacks w, ?w)" by (simp add: flush_callbacks_def)
  obtain m' where m': "deliver (completed_callbacks w) (manager y) = Some m'"
    using system_deliver_ok [OF w(2), of "completed_callbacks w" ?w] f by (auto simp: yields_iff)
  let ?y = "y\<lparr>worker := ?w, manager := m', delivered := delivered y @ completed_callbacks w\<rparr>"
  have "system_step log2f p (y\<lparr>worker := w\<rparr>) ?y"
    using system_step.callbacks [of "y\<lparr>worker := w\<rparr>" "completed_callbacks w" ?w m' log2f p] f m' assms(3) by simp
  then have r: "system_run log2f p y ?y" by (rule system_run.further [OF w(1)])
  have "db_state (worker ?y) = Some d" using all(2) by simp
  moreover have "length (delivered ?y) = length (history y)" using arg_cong [OF all(1), of length] by simp
  moreover have "delivered ?y = callbacks_all (map (task_of log2f) (history y)) (Some d0)" using all(1) by simp
  then have "\<forall>i < length (history y). \<exists>d1 d2. db_after log2f (take i (history y)) d0 = Some d1 \<and>
      run_db_task log2f (history y ! i) d1 = Some (d2, delivered ?y ! i)" using callbacks_nth [OF assms(5)] by (simp only:) blast
  moreover have "history ?y = history y" by simp
  ultimately show ?thesis using r by blast
qed

theorem every_task_is_answered_witness:
  "\<exists>y y'. system_run log2_floor ''w.db'' (System_new (sample_leaf\<lparr>pushed_tasks := [(''w.db'', QueryTask [AABB_new])]\<rparr>) example_sdb) y \<and>
    system_run log2_floor ''w.db'' y y' \<and> delivered y' = [Some (query_objects [AABB_new] example_sdb)]"
proof -
  let ?m = "sample_leaf\<lparr>pushed_tasks := [(''w.db'', QueryTask [AABB_new])]\<rparr>"
  let ?y = "\<lparr>manager = ?m\<lparr>pushed_tasks := []\<rparr>, worker = push_task (task_of log2_floor (QueryTask [AABB_new])) (AsyncDbWorker_new (Some example_sdb)),
    history = [QueryTask [AABB_new]], delivered = []\<rparr>"
  have ok: "manager_ok ?m" using core_sample(2) by (simp add: manager_ok_def)
    (simp add: sample_leaf_def sample_new_def StreamManager_new_def core_def StreamManagerInv.registered_def)
  have "system_step log2_floor ''w.db'' (System_new ?m example_sdb) ?y"
    using system_step.hand_over [of "System_new ?m example_sdb" "''w.db''" "QueryTask [AABB_new]" "[]" log2_floor] by (simp add: System_new_def)
  then have r: "system_run log2_floor ''w.db'' (System_new ?m example_sdb) ?y" by (rule system_run.further [OF system_run.here])
  have h: "pushed_tasks (manager ?y) = []" "thread_phase (worker ?y) \<noteq> Exited"
    "db_after log2_floor (history ?y) example_sdb = Some example_sdb"
    by (simp_all add: push_task_def AsyncDbWorker_new_def run_db_task_def)
  obtain y' where y': "system_run log2_floor ''w.db'' ?y y'" "length (delivered y') = length (history ?y)"
    "\<forall>i < length (history ?y). \<exists>d1 d2. db_after log2_floor (take i (history ?y)) example_sdb = Some d1 \<and>
      run_db_task log2_floor (history ?y ! i) d1 = Some (d2, delivered y' ! i)"
    using every_task_is_answered [OF r ok h] by blast
  have "delivered y' ! 0 = Some (query_objects [AABB_new] example_sdb)" using y'(3) by (simp add: run_db_task_def)
  then have "delivered y' = [Some (query_objects [AABB_new] example_sdb)]" using y'(2) by (cases "delivered y'") simp_all
  then show ?thesis using r y'(1) by blast
qed

section \<open>Answers come late\<close>

lemma singleton_list: "distinct xs \<Longrightarrow> set xs = {u} \<Longrightarrow> xs = [u]"
  by (cases xs; cases "tl xs") auto

text \<open>Unloading one identifier and erasing its entry leaves it out of the registry.\<close>

lemma unload_and_erase_single:
  assumes "core s" "pending_removal s = []" "unload_and_erase [u] s = Some s'"
  shows "core s' \<and> u \<notin> StreamManagerInv.registered s'"
proof -
  obtain s1 where s1: "unload_object u s = Some s1" "s' = erase_registry_entry u s1"
    using assms(3) by (auto simp: bind_eq_Some_conv)
  have "core s1" using unload_object_ok [OF assms(1,2), of u] s1(1) by (simp add: unload_post_def)
  then show ?thesis unfolding s1(2) using core_erase_entry by (simp add: registered_parent parent_in_erase)
qed





section \<open>Leaving the tree\<close>

text \<open>The manager leaves the tree and drops the last reference to its worker: the tasks its exit pushes reach the
  queue, then the worker is joined. \<open>None\<close> as the state of the database is a task that does not return, and
  with it a main thread that waits in \<open>join\<close> for ever.\<close>

definition push_all :: "(rat \<Rightarrow> rat) \<Rightarrow> db_task list \<Rightarrow> (StreamSqliteDB option, answer, answer) AsyncDbWorker \<Rightarrow>
    (StreamSqliteDB option, answer, answer) AsyncDbWorker" where
  "push_all log2f ts w = foldl (\<lambda>w t. push_task (task_of log2f t) w) w ts"

definition system_exit :: "(rat \<Rightarrow> rat) \<Rightarrow> string \<Rightarrow> 'sc System \<Rightarrow> 'sc System" where
  "system_exit log2f p y =
     (let m = manager_exit_tree (manager y); ts = map snd (filter (\<lambda>q. fst q = p) (pushed_tasks m))
      in y\<lparr>manager := m\<lparr>pushed_tasks := [], db_worker := None\<rparr>,
           worker := worker_predelete (push_all log2f ts (worker y)), history := history y @ ts\<rparr>)"

lemma push_all_run:
  "worker_run s tr w \<Longrightarrow> \<exists>tr'. worker_run s (tr @ tr') (push_all log2f ts w) \<and> pushed tr' = map (task_of log2f) ts \<and>
    flushed (tr @ tr') = flushed tr \<and> thread_phase (push_all log2f ts w) = thread_phase w"
proof (induction ts arbitrary: tr w)
  case Nil
  then show ?case by (auto simp: push_all_def intro!: exI [of _ "[]"])
next
  case (Cons t ts)
  note r = worker_run.step [OF Cons.prems worker_step.push, of "task_of log2f t"]
  obtain tr' where tr': "worker_run s ((tr @ [Push (task_of log2f t)]) @ tr') (push_all log2f ts (push_task (task_of log2f t) w))"
    "pushed tr' = map (task_of log2f) ts" "flushed ((tr @ [Push (task_of log2f t)]) @ tr') = flushed (tr @ [Push (task_of log2f t)])"
    "thread_phase (push_all log2f ts (push_task (task_of log2f t) w)) = thread_phase (push_task (task_of log2f t) w)"
    using Cons.IH [OF r] by blast
  have "pushed ([Push (task_of log2f t)] @ tr') = map (task_of log2f) (t # ts)"
    using tr'(2) pushed_append [of "[Push (task_of log2f t)]" tr'] by (simp add: pushed_def)
  then show ?case using tr' by (intro exI [of _ "[Push (task_of log2f t)] @ tr'"]) (simp add: push_all_def push_task_def del: pushed_append)
qed

lemma exit_tasks:
  assumes "db_worker s = Some p" "pushed_tasks s = []"
  shows "pushed_tasks (manager_exit_tree s) = (if to_remove s = [] then [] else [(p, FlushTask [] (to_remove s) [])])"
  using assms by (simp add: manager_exit_tree_def flush_pending_db_ops_def push_db_task_def Let_def upsert_snapshot_def
      dirty_snapshot_def List.map_filter_def)

text \<open>C15: Leaving the tree. Every task that was pushed runs before the worker is gone, and after them one task with the
  removals that were carried out; so the database ends as these tasks leave it. What was filed for an
  upsert or a box since the last frame is in none of them and is lost, and the callbacks that were not
  flushed yet never run.\<close>

theorem exit_runs_pushed_drops_pending:
  assumes "system_run log2f p (System_new m d0) y" "manager_ok m" "pushed_tasks (manager y) = []"
    "db_worker (manager y) = Some p" "thread_phase (worker y) \<noteq> Exited"
  shows "let y' = system_exit log2f p y;
      h = history y @ (if to_remove (manager y) = [] then [] else [FlushTask [] (to_remove (manager y)) []]) in
    history y' = h \<and> db_state (worker y') = db_after log2f h d0 \<and>
    to_upsert_uuids (manager y') = [] \<and> dirty_aabb (manager y') = [] \<and>
    length (delivered y') + length (completed_callbacks (worker y')) = length h"
proof -
  let ?ts = "if to_remove (manager y) = [] then [] else [FlushTask [] (to_remove (manager y)) []]"
  let ?h = "history y @ ?ts" and ?w = "push_all log2f ?ts (worker y)"
  have "system_inv log2f d0 y" by (rule system_run_inv [OF assms(1) system_inv_new [OF assms(2)]])
  then obtain tr where tr: "worker_run (AsyncDbWorker_new (Some d0)) tr (worker y)" "pushed tr = map (task_of log2f) (history y)"
    "flushed tr = delivered y" unfolding system_inv_def by blast
  obtain tr' where tr': "worker_run (AsyncDbWorker_new (Some d0)) (tr @ tr') ?w" "pushed tr' = map (task_of log2f) ?ts"
    "flushed (tr @ tr') = flushed tr" "thread_phase ?w = thread_phase (worker y)" using push_all_run [OF tr(1)] by blast
  have p: "pushed (tr @ tr') = map (task_of log2f) ?h" using tr(2) tr'(2) by simp
  note w = predelete_run [OF tr'(1), unfolded p tr'(3,4) tr(3), OF assms(5)]
  have "length (delivered y) + length (completed_callbacks (worker_predelete ?w)) = length ?h"
    using w by (metis length_append length_callbacks)
  moreover have "db_state (worker_predelete ?w) = db_after log2f ?h d0" using w run_all_tasks by metis
  moreover have "map snd (filter (\<lambda>q. fst q = p) (pushed_tasks (manager_exit_tree (manager y)))) = ?ts"
    by (simp add: exit_tasks [OF assms(4,3)])
  moreover have "to_upsert_uuids (manager_exit_tree (manager y)) = []" "dirty_aabb (manager_exit_tree (manager y)) = []"
    by (simp_all add: manager_exit_tree_def flush_pending_db_ops_def push_db_task_def Let_def split: option.split)
  ultimately show ?thesis unfolding system_exit_def Let_def by simp
qed

theorem exit_runs_pushed_drops_pending_witness:
  "let y = System_new (sample_leaf\<lparr>to_upsert_uuids := [sample_uuid 1], to_remove := [sample_uuid 4]\<rparr>) example_sdb;
       y' = system_exit log2_floor ''world.db'' y in
    sample_uuid 1 \<in> set (to_upsert_uuids (manager y)) \<and> history y' = [FlushTask [] [sample_uuid 4] []] \<and>
    db_state (worker y') = db_after log2_floor [FlushTask [] [sample_uuid 4] []] example_sdb"
proof -
  let ?m = "sample_leaf\<lparr>to_upsert_uuids := [sample_uuid 1], to_remove := [sample_uuid 4]\<rparr>"
  have ok: "manager_ok ?m" using core_sample(2) by (simp add: manager_ok_def)
    (simp add: sample_leaf_def sample_new_def StreamManager_new_def core_def StreamManagerInv.registered_def)
  have f: "pushed_tasks ?m = []" "db_worker ?m = Some ''world.db''" "thread_phase (worker (System_new ?m example_sdb)) \<noteq> Exited"
    "manager (System_new ?m example_sdb) = ?m" "history (System_new ?m example_sdb) = []"
    by (simp_all add: sample_leaf_def sample_new_def StreamManager_new_def System_new_def AsyncDbWorker_new_def)
  have r: "system_run log2_floor ''world.db'' (System_new ?m example_sdb) (System_new ?m example_sdb)" by (rule system_run.here)
  show ?thesis using exit_runs_pushed_drops_pending [OF r ok] f by (simp add: Let_def)
qed

end
