(* ===== verification/Variant.thy ===== *)
theory Variant
  imports SqliteDb "HOL-Library.Sublist"
begin

text \<open>
  The values that scripts exchange with the SQLite class (src/src/gdsqlite): \<open>Variant\<close> with the types the
  class distinguishes, arrays and dictionaries. A dictionary keeps its entries in the order of their
  insertion; a \<open>StringName\<close> is the same key as the string of its characters. A string is the list of its
  UTF-8 bytes, so \<open>utf8()\<close> and \<open>String::utf8\<close> are the identity on it. What the engine does with other
  values (printing them, testing them, reading them as bytes) is a record of functions.
\<close>

section \<open>Values\<close>

datatype Variant = VNil | VBool bool | VInt int | VFloat double | VString string | VStringName string
  | VBytes "byte list" | VArray "Variant list" | VDict "(Variant \<times> Variant) list" | VOther nat

type_synonym Dictionary = "(Variant, Variant) a_hashmap"

text \<open>The conversions of the engine from a value of another type.\<close>

record converter =
  stringify :: "Variant \<Rightarrow> string"
  truthy :: "Variant \<Rightarrow> bool"
  as_bytes :: "Variant \<Rightarrow> byte list"
  as_array :: "Variant \<Rightarrow> Variant list"
  as_dict :: "Variant \<Rightarrow> Dictionary"

text \<open>\<open>operator String\<close>, \<open>operator bool\<close>, \<open>operator PackedByteArray\<close>, \<open>operator Array\<close>, \<open>operator Dictionary\<close>.\<close>

definition to_str :: "converter \<Rightarrow> Variant \<Rightarrow> string" where
  "to_str cv v = (case v of VString s \<Rightarrow> s | VStringName s \<Rightarrow> s | _ \<Rightarrow> stringify cv v)"

definition to_bool :: "converter \<Rightarrow> Variant \<Rightarrow> bool" where
  "to_bool cv v = (case v of VNil \<Rightarrow> False | VBool b \<Rightarrow> b | VInt i \<Rightarrow> i \<noteq> 0 | _ \<Rightarrow> truthy cv v)"

definition to_bytes :: "converter \<Rightarrow> Variant \<Rightarrow> byte list" where
  "to_bytes cv v = (case v of VNil \<Rightarrow> [] | VBytes b \<Rightarrow> b | _ \<Rightarrow> as_bytes cv v)"

definition to_array :: "converter \<Rightarrow> Variant \<Rightarrow> Variant list" where
  "to_array cv v = (case v of VNil \<Rightarrow> [] | VArray xs \<Rightarrow> xs | _ \<Rightarrow> as_array cv v)"

definition to_dict :: "converter \<Rightarrow> Variant \<Rightarrow> Dictionary" where
  "to_dict cv v = (case v of VNil \<Rightarrow> [] | VDict d \<Rightarrow> d | _ \<Rightarrow> as_dict cv v)"

lemmas variant_conversions = to_str_def to_bool_def to_bytes_def to_array_def to_dict_def

section \<open>Dictionaries\<close>

definition dict_key :: "Variant \<Rightarrow> Variant" where
  "dict_key k = (case k of VStringName s \<Rightarrow> VString s | _ \<Rightarrow> k)"

lemma dict_key_simps [simp]: "dict_key (VString s) = VString s" "dict_key (VStringName s) = VString s"
  "dict_key (dict_key k) = dict_key k"
  by (simp_all add: dict_key_def split: Variant.split)

definition dict_put :: "Variant \<Rightarrow> Variant \<Rightarrow> Dictionary \<Rightarrow> Dictionary" where
  "dict_put k v d = dm_put (dict_key k) v d"

definition dict_find :: "Dictionary \<Rightarrow> Variant \<Rightarrow> Variant option" where
  "dict_find d k = map_of d (dict_key k)"

definition dict_has :: "Dictionary \<Rightarrow> Variant \<Rightarrow> bool" where
  "dict_has d k = (dict_find d k \<noteq> None)"

text \<open>\<open>d[k]\<close> of a key that is not there reads nil, \<open>get\<close> its default.\<close>

definition dict_get :: "Dictionary \<Rightarrow> Variant \<Rightarrow> Variant \<Rightarrow> Variant" where
  "dict_get d k dflt = (case dict_find d k of None \<Rightarrow> dflt | Some v \<Rightarrow> v)"

definition dict_at :: "Dictionary \<Rightarrow> Variant \<Rightarrow> Variant" where
  "dict_at d k = dict_get d k VNil"

text \<open>\<open>erase\<close> keeps the order of the other entries.\<close>

definition dict_erase :: "Variant \<Rightarrow> Dictionary \<Rightarrow> Dictionary" where
  "dict_erase k d = filter (\<lambda>e. fst e \<noteq> dict_key k) d"

lemma dict_find_put [simp]: "dict_find (dict_put k v d) k' = (if dict_key k' = dict_key k then Some v else dict_find d k')"
  by (simp add: dict_find_def dict_put_def)

lemma dict_find_erase [simp]:
  "dict_find (dict_erase k d) k' = (if dict_key k' = dict_key k then None else dict_find d k')"
  by (induction d) (auto simp: dict_find_def dict_erase_def)

lemma dict_has_put [simp]: "dict_has (dict_put k v d) k' \<longleftrightarrow> dict_key k' = dict_key k \<or> dict_has d k'"
  by (simp add: dict_has_def)

lemma dict_at_put [simp]: "dict_at (dict_put k v d) k' = (if dict_key k' = dict_key k then v else dict_at d k')"
  by (simp add: dict_at_def dict_get_def)

lemma dict_at_erase [simp]: "dict_key k' \<noteq> dict_key k \<Longrightarrow> dict_at (dict_erase k d) k' = dict_at d k'"
  by (simp add: dict_at_def dict_get_def)

lemma dict_has_erase [simp]: "dict_has (dict_erase k d) k' \<longleftrightarrow> dict_key k' \<noteq> dict_key k \<and> dict_has d k'"
  by (simp add: dict_has_def)

lemma dict_find_Nil [simp]: "dict_find [] k = None"
  by (simp add: dict_find_def)

section \<open>Latin-1\<close>

text \<open>\<open>String(const char *)\<close> (src/godot-cpp/src/variant/char_string.cpp) reads its bytes as Latin-1, one
  character per byte up to the first NUL; here that character is written in UTF-8 again.\<close>

definition latin1_char :: "char \<Rightarrow> string" where
  "latin1_char c = (let n = of_char c :: nat in
     if n < 128 then [c] else [char_of (192 + n div 64), char_of (128 + n mod 64)])"

definition String_of_chars :: "string \<Rightarrow> string" where
  "String_of_chars s = concat (map latin1_char s)"

lemma String_of_chars_ascii: "(\<forall>c \<in> set s. (of_char c :: nat) < 128) \<Longrightarrow> String_of_chars s = s"
  by (induction s) (simp_all add: String_of_chars_def latin1_char_def)

text \<open>Joining with a separator, as the code that builds SQL texts does with a test for the last element.\<close>

fun join_with :: "string \<Rightarrow> string list \<Rightarrow> string" where
  "join_with sep [] = []"
| "join_with sep [x] = x"
| "join_with sep (x # y # ys) = x @ sep @ join_with sep (y # ys)"

end
