(* ===== verification/SqliteApi.thy ===== *)
theory SqliteApi
  imports Variant "HOL-Library.Monad_Syntax"
begin

text \<open>
  The C interface of SQLite as the program calls it. The engine is a parameter: a record of functions on
  the state \<open>'w\<close> of the world, which holds the connections, the statements and the files. Connections and
  statements are pointers, 0 the null pointer; the functions also take null pointers where the code may
  pass them. An out parameter is a component of the result.
\<close>

abbreviation SQLITE_OK :: nat where "SQLITE_OK \<equiv> 0"
abbreviation SQLITE_ERROR :: nat where "SQLITE_ERROR \<equiv> 1"
abbreviation SQLITE_CANTOPEN :: nat where "SQLITE_CANTOPEN \<equiv> 14"
abbreviation SQLITE_ROW :: nat where "SQLITE_ROW \<equiv> 100"
abbreviation SQLITE_DONE :: nat where "SQLITE_DONE \<equiv> 101"

datatype open_mode = OpenReadonly | OpenReadwriteCreate | OpenReadwriteCreateUri

text \<open>What a function written in the host language gives back to SQLite. \<open>ResultStatic s\<close> is a text that
  SQLite does not copy (\<open>SQLITE_STATIC\<close>): it reads the memory after the function returned.\<close>

datatype function_result = Result sql_value | ResultStatic string

record 'w sqlite3_api =
  sqlite3_open_v2 :: "string \<Rightarrow> open_mode \<Rightarrow> string option \<Rightarrow> 'w \<Rightarrow> nat \<times> nat \<times> 'w"
  sqlite3_close_v2 :: "nat \<Rightarrow> 'w \<Rightarrow> nat \<times> 'w"
  sqlite3_close :: "nat \<Rightarrow> 'w \<Rightarrow> nat \<times> 'w"
  sqlite3_busy_timeout :: "nat \<Rightarrow> nat \<Rightarrow> 'w \<Rightarrow> 'w"
  sqlite3_vfs_register :: "'w \<Rightarrow> 'w"
  sqlite3_exec :: "nat \<Rightarrow> string \<Rightarrow> 'w \<Rightarrow> nat \<times> 'w"
  sqlite3_prepare_v2 :: "nat \<Rightarrow> string \<Rightarrow> 'w \<Rightarrow> nat \<times> nat \<times> string \<times> 'w"
  sqlite3_bind_parameter_count :: "nat \<Rightarrow> 'w \<Rightarrow> nat"
  sqlite3_bind_parameter_name :: "nat \<Rightarrow> nat \<Rightarrow> 'w \<Rightarrow> string option"
  sqlite3_bind :: "nat \<Rightarrow> nat \<Rightarrow> sql_value \<Rightarrow> 'w \<Rightarrow> 'w"
  sqlite3_column_count :: "nat \<Rightarrow> 'w \<Rightarrow> nat"
  sqlite3_column_name :: "nat \<Rightarrow> nat \<Rightarrow> 'w \<Rightarrow> string"
  sqlite3_step :: "nat \<Rightarrow> 'w \<Rightarrow> nat \<times> 'w"
  sqlite3_column :: "nat \<Rightarrow> nat \<Rightarrow> 'w \<Rightarrow> sql_value"
  sqlite3_finalize :: "nat \<Rightarrow> 'w \<Rightarrow> 'w"
  sqlite3_errcode :: "nat \<Rightarrow> 'w \<Rightarrow> nat"
  sqlite3_errmsg :: "nat \<Rightarrow> 'w \<Rightarrow> string"
  sqlite3_backup_init :: "nat \<Rightarrow> nat \<Rightarrow> 'w \<Rightarrow> nat \<times> 'w"
  sqlite3_backup_step :: "nat \<Rightarrow> 'w \<Rightarrow> 'w"
  sqlite3_backup_finish :: "nat \<Rightarrow> 'w \<Rightarrow> 'w"
  sqlite3_create_function :: "nat \<Rightarrow> string \<Rightarrow> int \<Rightarrow> (sql_value list \<Rightarrow> function_result) \<Rightarrow> 'w \<Rightarrow> nat \<times> 'w"
  sqlite3_set_last_insert_rowid :: "nat \<Rightarrow> int \<Rightarrow> 'w \<Rightarrow> 'w"
  sqlite3_last_insert_rowid :: "nat \<Rightarrow> 'w \<Rightarrow> int"
  sqlite3_get_autocommit :: "nat \<Rightarrow> 'w \<Rightarrow> int"
  sqlite3_compileoption_used :: "string \<Rightarrow> int"
  sqlite3_enable_load_extension :: "nat \<Rightarrow> bool \<Rightarrow> 'w \<Rightarrow> nat \<times> 'w"
  sqlite3_db_config_load_extension :: "nat \<Rightarrow> bool \<Rightarrow> 'w \<Rightarrow> 'w"
  sqlite3_load_extension :: "nat \<Rightarrow> string \<Rightarrow> string \<Rightarrow> 'w \<Rightarrow> nat \<times> 'w"

section \<open>What the documentation of SQLite says\<close>

text \<open>The tail of a prepared text starts behind its first statement.\<close>

definition tail_shrinks :: "'w sqlite3_api \<Rightarrow> bool" where
  "tail_shrinks api \<longleftrightarrow> (\<forall>h q w st tail w'. sqlite3_prepare_v2 api h q w = (SQLITE_OK, st, tail, w') \<longrightarrow>
     tail \<noteq> [] \<longrightarrow> length tail < length q)"

text \<open>A statement that ends: after finitely many rows \<open>sqlite3_step\<close> answers something else.\<close>

inductive stops :: "'w sqlite3_api \<Rightarrow> nat \<Rightarrow> 'w \<Rightarrow> bool" for api st where
  last_step: "fst (sqlite3_step api st w) \<noteq> SQLITE_ROW \<Longrightarrow> stops api st w"
| another_row: "fst (sqlite3_step api st w) = SQLITE_ROW \<Longrightarrow> stops api st (snd (sqlite3_step api st w)) \<Longrightarrow> stops api st w"



section \<open>The connection of the streaming database\<close>

text \<open>src/src/core/components/sqlite_db.{h,cpp}: the class \<open>SQLiteDB\<close>, an object that owns a connection. \<open>fs\<close> is
  \<open>globalize_path(strip_edges(path))\<close>.\<close>

definition SQLiteDB_exec :: "'w sqlite3_api \<Rightarrow> nat \<Rightarrow> string \<Rightarrow> 'w \<Rightarrow> 'w" where
  "SQLiteDB_exec api db sql w = (if db = 0 then w else snd (sqlite3_exec api db sql w))"

definition SQLiteDB_new :: "'w sqlite3_api \<Rightarrow> (string \<Rightarrow> string) \<Rightarrow> string \<Rightarrow> bool \<Rightarrow> 'w \<Rightarrow> nat \<times> 'w" where
  "SQLiteDB_new api fs db_path ro w =
     (let (rc, db, w) = (if ro then sqlite3_open_v2 api db_path OpenReadonly (Some ''godot'') w
        else sqlite3_open_v2 api (fs (String_of_chars db_path)) OpenReadwriteCreate None w) in
      if rc \<noteq> SQLITE_OK then (0, if db \<noteq> 0 then snd (sqlite3_close api db w) else w)
      else (db, SQLiteDB_exec api db ''PRAGMA cache_size=-20000;''
        (SQLiteDB_exec api db ''PRAGMA synchronous=NORMAL;''
          (SQLiteDB_exec api db ''PRAGMA journal_mode=WAL;'' (sqlite3_busy_timeout api db 5000 w)))))"

definition SQLiteDB_delete :: "'w sqlite3_api \<Rightarrow> nat \<Rightarrow> 'w \<Rightarrow> 'w" where
  "SQLiteDB_delete api db w = (if db \<noteq> 0 then snd (sqlite3_close api db w) else w)"

text \<open>The moves: the new handle of the source, the new handle of the target, the world.\<close>

definition SQLiteDB_move :: "nat \<Rightarrow> nat \<times> nat" where
  "SQLiteDB_move other = (0, other)"

definition SQLiteDB_move_assign :: "'w sqlite3_api \<Rightarrow> nat \<Rightarrow> nat \<Rightarrow> 'w \<Rightarrow> nat \<times> nat \<times> 'w" where
  "SQLiteDB_move_assign api other this w =
     (0, other, if this \<noteq> 0 then snd (sqlite3_close api this w) else w)"

definition is_connection_valid :: "'w sqlite3_api \<Rightarrow> nat \<Rightarrow> 'w \<Rightarrow> bool \<times> 'w" where
  "is_connection_valid api db w = (if db = 0 then (False, w) else
     (let (rc, st, tail, w) = sqlite3_prepare_v2 api db ''SELECT 1'' w in
      if rc \<noteq> SQLITE_OK then (False, w)
      else let (rc, w) = sqlite3_step api st w in (rc = SQLITE_ROW, sqlite3_finalize api st w)))"

text \<open>The life of a statement: the pair \<open>db_\<close>, \<open>stmt_\<close>.\<close>

definition Stmt_new :: "'w sqlite3_api \<Rightarrow> nat \<Rightarrow> string \<Rightarrow> 'w \<Rightarrow> (nat \<times> nat) \<times> 'w" where
  "Stmt_new api db sql w = (if db = 0 then ((db, 0), w) else
     (let (rc, st, tail, w) = sqlite3_prepare_v2 api db sql w in ((db, if rc \<noteq> SQLITE_OK then 0 else st), w)))"

definition Stmt_delete :: "'w sqlite3_api \<Rightarrow> nat \<times> nat \<Rightarrow> 'w \<Rightarrow> 'w" where
  "Stmt_delete api s w = (if snd s \<noteq> 0 then sqlite3_finalize api (snd s) w else w)"

definition Stmt_move :: "nat \<times> nat \<Rightarrow> (nat \<times> nat) \<times> (nat \<times> nat)" where
  "Stmt_move other = ((0, 0), other)"

definition Stmt_move_assign :: "'w sqlite3_api \<Rightarrow> nat \<times> nat \<Rightarrow> nat \<times> nat \<Rightarrow> 'w \<Rightarrow>
    (nat \<times> nat) \<times> (nat \<times> nat) \<times> 'w" where
  "Stmt_move_assign api other this w =
     ((0, 0), other, if snd this \<noteq> 0 then sqlite3_finalize api (snd this) w else w)"

end
