(* ===== verification/Gdsqlite.thy ===== *)
theory Gdsqlite
  imports SqliteApi
begin

text \<open>
  src/src/gdsqlite/gdsqlite.{hpp,cpp}: the class \<open>SQLite\<close> that scripts use. The state holds the members of
  the class and the world of \<open>SqliteApi\<close>; what the engine supplies (conversions of values, paths, JSON,
  base64, files, callables) is a record of functions. A method that returns a flag returns the flag and
  the new state. Executing a statement is a loop over its rows and a text of several statements a
  recursion over the rest of the text; either may run for ever, so their results are optional. What the
  code prints, on errors or by its level of verbosity, is left out. The arrays and dictionaries that the
  code shares by reference belong to one owner each wherever it changes them, so they are values here;
  \<open>get_query_result_by_reference\<close> is the one method that lets a script see the difference.
\<close>

section \<open>State\<close>

record ('w, 'c) engine =
  conv :: converter
  globalize_path :: "string \<Rightarrow> string"
  strip_edges :: "string \<Rightarrow> string"
  get_extension :: "string \<Rightarrow> string"
  to_lower :: "string \<Rightarrow> string"
  split_at_dots :: "string \<Rightarrow> string list"
  enable_fts5 :: bool
  json_parse :: "string \<Rightarrow> Variant option"
  json_stringify :: "Variant \<Rightarrow> string"
  raw_to_base64 :: "byte list \<Rightarrow> string"
  base64_to_raw :: "string \<Rightarrow> byte list"
  read_text :: "string \<Rightarrow> 'w \<Rightarrow> string option"
  write_text :: "string \<Rightarrow> string \<Rightarrow> 'w \<Rightarrow> bool \<times> 'w"
  callable_is_valid :: "'c \<Rightarrow> bool"
  callv :: "'c \<Rightarrow> Variant list \<Rightarrow> Variant"

record ('w, 'c) SQLite =
  db_ptr :: nat
  function_registry :: "'c list"
  verbosity_level :: int
  foreign_keys :: bool
  read_only :: bool
  path :: string
  error_message :: string
  default_extension :: string
  query_result :: "Dictionary list"
  world :: 'w

definition SQLite_new :: "'w \<Rightarrow> ('w, 'c) SQLite" where
  "SQLite_new w = \<lparr>db_ptr = 0, function_registry = [], verbosity_level = 1, foreign_keys = False,
     read_only = False, path = ''default'', error_message = '''', default_extension = ''db'',
     query_result = [], world = w\<rparr>"

section \<open>Opening and closing\<close>

definition in_memory :: "string \<Rightarrow> bool" where
  "in_memory p = sublist '':memory:'' p"

definition normalize_path :: "('w, 'c) engine \<Rightarrow> string \<Rightarrow> bool \<Rightarrow> string" where
  "normalize_path en p ro = (if ro then p else if in_memory p then p
     else globalize_path en (strip_edges en p))"

definition full_path :: "('w, 'c) engine \<Rightarrow> ('w, 'c) SQLite \<Rightarrow> string" where
  "full_path en S = (if \<not> in_memory (path S) \<and> get_extension en (path S) = [] \<and> default_extension S \<noteq> []
     then path S @ ''.'' @ default_extension S else path S)"

definition open_db :: "'w sqlite3_api \<Rightarrow> ('w, 'c) engine \<Rightarrow> ('w, 'c) SQLite \<Rightarrow> bool \<times> ('w, 'c) SQLite" where
  "open_db api en S = (if db_ptr S \<noteq> 0 then (False, S) else
     let S = S\<lparr>path := normalize_path en (full_path en S) (read_only S)\<rparr> in
     if read_only S \<and> in_memory (path S) then (False, S) else
     let (rc, h, w) = (if read_only S
           then sqlite3_open_v2 api (path S) OpenReadonly (Some ''godot'') (sqlite3_vfs_register api (world S))
           else sqlite3_open_v2 api (path S) OpenReadwriteCreateUri None (world S));
         S = S\<lparr>db_ptr := h, world := w\<rparr> in
     if rc \<noteq> SQLITE_OK then (False, S)
     else if foreign_keys S then
       (let (rc, w) = sqlite3_exec api (db_ptr S) ''PRAGMA foreign_keys=on;'' (world S) in
        (rc = SQLITE_OK, S\<lparr>world := w\<rparr>))
     else (True, S))"

definition close_db :: "'w sqlite3_api \<Rightarrow> ('w, 'c) SQLite \<Rightarrow> bool \<times> ('w, 'c) SQLite" where
  "close_db api S = (if db_ptr S \<noteq> 0 then
       (let (rc, w) = sqlite3_close_v2 api (db_ptr S) (world S) in
        if rc \<noteq> SQLITE_OK then (False, S\<lparr>world := w\<rparr>) else (True, S\<lparr>db_ptr := 0, world := w\<rparr>))
     else (False, S))"

definition SQLite_delete :: "'w sqlite3_api \<Rightarrow> ('w, 'c) SQLite \<Rightarrow> ('w, 'c) SQLite" where
  "SQLite_delete api S = (let S = S\<lparr>function_registry := []\<rparr> in
     if db_ptr S \<noteq> 0 then snd (close_db api S) else S)"

section \<open>Statements\<close>

text \<open>\<open>None\<close> when the text was not compiled, else the statement and the rest of the text.\<close>

definition prepare_statement :: "'w sqlite3_api \<Rightarrow> string \<Rightarrow> ('w, 'c) SQLite \<Rightarrow>
    (nat \<times> string) option \<times> ('w, 'c) SQLite" where
  "prepare_statement api q S =
     (let (rc, st, tail, w) = sqlite3_prepare_v2 api (db_ptr S) q (world S);
          S = S\<lparr>query_result := [], world := w, error_message := sqlite3_errmsg api (db_ptr S) w\<rparr> in
      if rc \<noteq> SQLITE_OK then (None, S\<lparr>world := sqlite3_finalize api st w\<rparr>) else (Some (st, tail), S))"

definition bound_value :: "Variant \<Rightarrow> sql_value option" where
  "bound_value v = (case v of
       VNil \<Rightarrow> Some SqlNull
     | VBool b \<Rightarrow> Some (SqlInt (if b then 1 else 0))
     | VInt i \<Rightarrow> Some (SqlInt i)
     | VFloat x \<Rightarrow> Some (SqlFloat x)
     | VString s \<Rightarrow> Some (SqlText s)
     | VStringName s \<Rightarrow> Some (SqlText s)
     | VBytes b \<Rightarrow> Some (if b = [] then SqlNull else SqlBlob b)
     | _ \<Rightarrow> None)"

definition bind_parameter :: "'w sqlite3_api \<Rightarrow> Variant \<Rightarrow> nat \<Rightarrow> nat \<Rightarrow> ('w, 'c) SQLite \<Rightarrow>
    bool \<times> ('w, 'c) SQLite" where
  "bind_parameter api v st i S = (case bound_value v of None \<Rightarrow> (False, S)
     | Some x \<Rightarrow> (True, S\<lparr>world := sqlite3_bind api st (i + 1) x (world S)\<rparr>))"

definition column_variant :: "sql_value \<Rightarrow> Variant" where
  "column_variant x = (case x of SqlInt i \<Rightarrow> VInt i | SqlFloat d \<Rightarrow> VFloat d | SqlText s \<Rightarrow> VString s
     | SqlBlob b \<Rightarrow> VBytes b | SqlNull \<Rightarrow> VNil)"

definition column_dict :: "string list \<Rightarrow> sql_value list \<Rightarrow> Dictionary" where
  "column_dict names vals = foldl (\<lambda>d (n, x). dict_put (VStringName n) (column_variant x) d) [] (zip names vals)"

definition current_row :: "'w sqlite3_api \<Rightarrow> nat \<Rightarrow> nat \<Rightarrow> 'w \<Rightarrow> sql_value list" where
  "current_row api st argc w = map (\<lambda>i. sqlite3_column api st i w) [0..<argc]"

partial_function (option) step_all :: "'w sqlite3_api \<Rightarrow> nat \<Rightarrow> string list \<Rightarrow> ('w, 'c) SQLite \<Rightarrow> ('w, 'c) SQLite option" where
  [code]: "step_all api st names S = (let (rc, w) = sqlite3_step api st (world S); S = S\<lparr>world := w\<rparr> in
     if rc = SQLITE_ROW then
       step_all api st names (S\<lparr>query_result := query_result S @
         [column_dict names (current_row api st (length names) w)]\<rparr>)
     else Some S)"

definition execute_statement :: "'w sqlite3_api \<Rightarrow> nat \<Rightarrow> ('w, 'c) SQLite \<Rightarrow> (bool \<times> ('w, 'c) SQLite) option" where
  "execute_statement api st S =
     (let names = map (\<lambda>i. sqlite3_column_name api st i (world S)) [0..<sqlite3_column_count api st (world S)] in
      Option.bind (step_all api st names S) (\<lambda>S.
        let S = S\<lparr>world := sqlite3_finalize api st (world S)\<rparr>;
            S = S\<lparr>error_message := sqlite3_errmsg api (db_ptr S) (world S)\<rparr> in
        Some (sqlite3_errcode api (db_ptr S) (world S) = SQLITE_OK, S)))"

definition finalize :: "'w sqlite3_api \<Rightarrow> nat \<Rightarrow> ('w, 'c) SQLite \<Rightarrow> ('w, 'c) SQLite" where
  "finalize api st S = S\<lparr>world := sqlite3_finalize api st (world S)\<rparr>"

fun bind_each :: "'w sqlite3_api \<Rightarrow> nat \<Rightarrow> nat \<Rightarrow> Variant list \<Rightarrow> ('w, 'c) SQLite \<Rightarrow> bool \<times> ('w, 'c) SQLite" where
  "bind_each api st i [] S = (True, S)"
| "bind_each api st i (v # vs) S = (let (ok, S) = bind_parameter api v st i S in
     if \<not> ok then (False, S) else bind_each api st (i + 1) vs S)"

partial_function (option) query_with_bindings :: "'w sqlite3_api \<Rightarrow> ('w, 'c) engine \<Rightarrow> string \<Rightarrow> Variant list \<Rightarrow>
    ('w, 'c) SQLite \<Rightarrow> (bool \<times> ('w, 'c) SQLite) option" where
  [code]: "query_with_bindings api en q bs S = (let (prepared, S) = prepare_statement api q S in
     case prepared of None \<Rightarrow> Some (False, S)
   | Some (st, tail) \<Rightarrow>
     (let n = sqlite3_bind_parameter_count api st (world S) in
      if length bs < n then Some (False, finalize api st S)
      else let (ok, S) = bind_each api st 0 (take n bs) S in
        if \<not> ok then Some (False, finalize api st S)
        else Option.bind (execute_statement api st S) (\<lambda>(ok, S).
            if \<not> ok then Some (False, S)
            else if strip_edges en tail \<noteq> [] then query_with_bindings api en (strip_edges en tail) (drop n bs) S
            else Some (True, S))))"

definition query :: "'w sqlite3_api \<Rightarrow> ('w, 'c) engine \<Rightarrow> string \<Rightarrow> ('w, 'c) SQLite \<Rightarrow>
    (bool \<times> ('w, 'c) SQLite) option" where
  "query api en q S = query_with_bindings api en q [] S"

text \<open>The name of a parameter without its first character; \<open>None\<close> for a parameter without a name. The name is
  given to \<open>has\<close> as \<open>const char *\<close>, so it is read as Latin-1.\<close>

fun bind_named :: "'w sqlite3_api \<Rightarrow> nat \<Rightarrow> Dictionary \<Rightarrow> nat list \<Rightarrow> ('w, 'c) SQLite \<Rightarrow> bool \<times> ('w, 'c) SQLite" where
  "bind_named api st d [] S = (True, S)"
| "bind_named api st d (i # is) S = (case sqlite3_bind_parameter_name api st (i + 1) (world S) of
     None \<Rightarrow> (False, S)
   | Some name \<Rightarrow> (let k = VString (String_of_chars (tl name)) in
       if \<not> dict_has d k then (False, S)
       else let (ok, S) = bind_parameter api (dict_at d k) st i S in
         if \<not> ok then (False, S) else bind_named api st d is S))"

partial_function (option) query_with_named_bindings :: "'w sqlite3_api \<Rightarrow> ('w, 'c) engine \<Rightarrow> string \<Rightarrow> Dictionary \<Rightarrow>
    ('w, 'c) SQLite \<Rightarrow> (bool \<times> ('w, 'c) SQLite) option" where
  [code]: "query_with_named_bindings api en q d S = (let (prepared, S) = prepare_statement api q S in
     case prepared of None \<Rightarrow> Some (False, S)
   | Some (st, tail) \<Rightarrow>
     (let (ok, S) = bind_named api st d [0..<sqlite3_bind_parameter_count api st (world S)] S in
      if \<not> ok then Some (False, finalize api st S)
      else Option.bind (execute_statement api st S) (\<lambda>(ok, S).
            if \<not> ok then Some (False, S)
            else if strip_edges en tail \<noteq> [] then query_with_named_bindings api en (strip_edges en tail) d S
            else Some (True, S))))"

end
