(* ===== verification/GdsqliteTables.thy ===== *)
theory GdsqliteTables
  imports Gdsqlite
begin

text \<open>
  The methods of \<open>SQLite\<close> (src/src/gdsqlite/gdsqlite.cpp) that write SQL for the script: tables from a
  dictionary of columns, rows from dictionaries, selections, updates and removals, each with the
  transaction the code puts around it; functions written in the host language; copies of a database; and
  the properties of the class.
\<close>

section \<open>Tables\<close>

text \<open>\<open>Variant::Type\<close>, the numbers of src/godot-cpp/include/godot_cpp/variant/variant.hpp.\<close>

definition get_type :: "Variant \<Rightarrow> nat" where
  "get_type v = (case v of VNil \<Rightarrow> 0 | VBool _ \<Rightarrow> 1 | VInt _ \<Rightarrow> 2 | VFloat _ \<Rightarrow> 3 | VString _ \<Rightarrow> 4
     | VStringName _ \<Rightarrow> 21 | VDict _ \<Rightarrow> 27 | VArray _ \<Rightarrow> 28 | VBytes _ \<Rightarrow> 29 | VOther n \<Rightarrow> n)"

definition type_of_data_type :: "string \<Rightarrow> nat \<Rightarrow> nat" where
  "type_of_data_type s dflt = (if s = ''int'' then 2 else if s = ''text'' then 4 else if s = ''real'' then 3 else dflt)"

fun validate_columns :: "('w, 'c) engine \<Rightarrow> Dictionary \<Rightarrow> Variant list \<Rightarrow> bool" where
  "validate_columns en td [] = True"
| "validate_columns en td (c # cs) =
     (if get_type (dict_at td c) \<noteq> 27 then False else
      let cd = to_dict (conv en) (dict_at td c) in
      if \<not> dict_has cd (VString ''data_type'') then False
      else if get_type (dict_at cd (VString ''data_type'')) \<noteq> 4 then False
      else if dict_has cd (VString ''default'') \<and>
        type_of_data_type (to_str (conv en) (dict_at cd (VString ''data_type'')))
          (get_type (dict_at cd (VString ''default''))) \<noteq> get_type (dict_at cd (VString ''default'')) then False
      else validate_columns en td cs)"

definition validate_table_dict :: "('w, 'c) engine \<Rightarrow> Dictionary \<Rightarrow> bool" where
  "validate_table_dict en td = validate_columns en td (map fst td)"

definition flag :: "('w, 'c) engine \<Rightarrow> Dictionary \<Rightarrow> string \<Rightarrow> bool" where
  "flag en cd f = to_bool (conv en) (dict_get cd (VString f) (VBool False))"

definition field :: "('w, 'c) engine \<Rightarrow> Dictionary \<Rightarrow> string \<Rightarrow> string" where
  "field en cd f = to_str (conv en) (dict_at cd (VString f))"

definition foreign_key_clause :: "('w, 'c) engine \<Rightarrow> string \<Rightarrow> Dictionary \<Rightarrow> string" where
  "foreign_key_clause en name cd = (case split_at_dots en (field en cd ''foreign_key'') of
       [t, c] \<Rightarrow> '', FOREIGN KEY ('' @ name @ '') REFERENCES '' @ t @ ''('' @ c @ '')'' @
         (if dict_has cd (VString ''on_delete'') then '' ON DELETE '' @ field en cd ''on_delete'' else '''') @
         (if dict_has cd (VString ''on_update'') then '' ON UPDATE '' @ field en cd ''on_update'' else '''')
     | _ \<Rightarrow> '''')"

text \<open>The body of the second loop of \<open>create_table\<close>, with the three strings it builds: the query, the foreign
  keys and the columns of a composite primary key. \<open>n\<close> is the number of primary key columns, \<open>follows\<close> says
  that another column follows.\<close>

definition column_step :: "('w, 'c) engine \<Rightarrow> bool \<Rightarrow> Dictionary \<Rightarrow> nat \<Rightarrow> Variant \<Rightarrow> bool \<Rightarrow>
    string \<times> string \<times> string \<Rightarrow> string \<times> string \<times> string" where
  "column_step en fk td n c follows = (\<lambda>(qs, ks, ps).
     (let cd = to_dict (conv en) (dict_at td c); name = to_str (conv en) c;
          qs = qs @ name @ '' '';
          ty = field en cd ''data_type'';
          qs = (if prefix ''int'' (to_lower en ty) then qs @ ''INTEGER'' else qs @ ty);
          pk = flag en cd ''primary_key'';
          qs = (if pk \<and> n = 1 then
                  (let qs = qs @ '' PRIMARY KEY'' in if flag en cd ''auto_increment'' then qs @ '' AUTOINCREMENT'' else qs)
                else qs);
          ps = (if pk \<and> n \<noteq> 1 then (if ps = [] then name else ps @ '', '' @ name) else ps);
          qs = (if flag en cd ''not_null'' then qs @ '' NOT NULL'' else qs);
          qs = (if flag en cd ''unique'' then qs @ '' UNIQUE'' else qs);
          qs = (if dict_has cd (VString ''default'') then qs @ '' DEFAULT '' @ field en cd ''default'' else qs);
          ks = (if fk \<and> flag en cd ''foreign_key'' then ks @ foreign_key_clause en name cd else ks);
          qs = (if follows then qs @ '','' else qs)
      in (qs, ks, ps)))"

fun column_loop :: "('w, 'c) engine \<Rightarrow> bool \<Rightarrow> Dictionary \<Rightarrow> nat \<Rightarrow> Variant list \<Rightarrow> string \<times> string \<times> string \<Rightarrow>
    string \<times> string \<times> string" where
  "column_loop en fk td n [] acc = acc"
| "column_loop en fk td n (c # cs) acc = column_loop en fk td n cs (column_step en fk td n c (cs \<noteq> []) acc)"

definition primary_key_columns :: "('w, 'c) engine \<Rightarrow> Dictionary \<Rightarrow> nat" where
  "primary_key_columns en td =
     foldl (\<lambda>n c. if flag en (to_dict (conv en) (dict_at td c)) ''primary_key'' then n + 1 else n) 0 (map fst td)"

definition create_table_query :: "('w, 'c) engine \<Rightarrow> bool \<Rightarrow> string \<Rightarrow> Dictionary \<Rightarrow> string" where
  "create_table_query en fk name td =
     (let n = primary_key_columns en td;
          (qs, ks, ps) = column_loop en fk td n (map fst td) (''CREATE TABLE IF NOT EXISTS '' @ name @ '' ('', '''', '''');
          qs = (if n > 1 then qs @ '', PRIMARY KEY ('' @ ps @ '')'' else qs)
      in qs @ ks @ '');'')"

definition create_table :: "'w sqlite3_api \<Rightarrow> ('w, 'c) engine \<Rightarrow> string \<Rightarrow> Dictionary \<Rightarrow> ('w, 'c) SQLite \<Rightarrow>
    (bool \<times> ('w, 'c) SQLite) option" where
  "create_table api en name td S = (if \<not> validate_table_dict en td then Some (False, S)
     else query api en (create_table_query en (foreign_keys S) name td) S)"

definition drop_table :: "'w sqlite3_api \<Rightarrow> ('w, 'c) engine \<Rightarrow> string \<Rightarrow> ('w, 'c) SQLite \<Rightarrow>
    (bool \<times> ('w, 'c) SQLite) option" where
  "drop_table api en name S = query api en (''DROP TABLE '' @ name @ '';'') S"

section \<open>Copies of a database\<close>

definition backup_database :: "'w sqlite3_api \<Rightarrow> nat \<Rightarrow> nat \<Rightarrow> 'w \<Rightarrow> nat \<times> 'w" where
  "backup_database api source destination w =
     (let (backup, w) = sqlite3_backup_init api destination source w;
          w = (if backup \<noteq> 0 then sqlite3_backup_finish api backup (sqlite3_backup_step api backup w) else w)
      in (sqlite3_errcode api destination w, w))"

definition backup_to :: "'w sqlite3_api \<Rightarrow> ('w, 'c) engine \<Rightarrow> string \<Rightarrow> ('w, 'c) SQLite \<Rightarrow> bool \<times> ('w, 'c) SQLite" where
  "backup_to api en p S =
     (let (rc, h, w) = sqlite3_open_v2 api (globalize_path en (strip_edges en p)) OpenReadwriteCreateUri None (world S);
          (rc, w) = (if rc = SQLITE_OK then backup_database api (db_ptr S) h w else (rc, w));
          (_, w) = sqlite3_close_v2 api h w
      in (rc = SQLITE_OK, S\<lparr>world := w\<rparr>))"

definition restore_from :: "'w sqlite3_api \<Rightarrow> ('w, 'c) engine \<Rightarrow> string \<Rightarrow> ('w, 'c) SQLite \<Rightarrow> bool \<times> ('w, 'c) SQLite" where
  "restore_from api en p S =
     (let (rc, h, w) = sqlite3_open_v2 api (globalize_path en (strip_edges en p)) OpenReadwriteCreateUri None (world S);
          (rc, w) = (if rc = SQLITE_OK then backup_database api h (db_ptr S) w else (rc, w));
          (_, w) = sqlite3_close_v2 api h w
      in (rc = SQLITE_OK, S\<lparr>world := w\<rparr>))"

section \<open>Rows\<close>

fun insert_loop :: "('w, 'c) engine \<Rightarrow> Variant list \<Rightarrow> string \<Rightarrow> string \<Rightarrow> string \<times> string" where
  "insert_loop en [] ks vs = (ks, vs)"
| "insert_loop en (k # rest) ks vs =
     (let ks = ks @ to_str (conv en) k; vs = vs @ ''?'' in
      if rest \<noteq> [] then insert_loop en rest (ks @ '','') (vs @ '','') else insert_loop en rest ks vs)"

definition insert_query :: "('w, 'c) engine \<Rightarrow> string \<Rightarrow> Dictionary \<Rightarrow> string" where
  "insert_query en name row = (let (ks, vs) = insert_loop en (map fst row) '''' '''' in
     ''INSERT INTO '' @ name @ '' ('' @ ks @ '') VALUES ('' @ vs @ '');'')"

definition insert_row :: "'w sqlite3_api \<Rightarrow> ('w, 'c) engine \<Rightarrow> string \<Rightarrow> Dictionary \<Rightarrow> ('w, 'c) SQLite \<Rightarrow>
    (bool \<times> ('w, 'c) SQLite) option" where
  "insert_row api en name row S = query_with_bindings api en (insert_query en name row) (map snd row) S"

text \<open>A query whose outcome the code ignores, and one after which it puts the message of the one before back.\<close>

definition query_then :: "'w sqlite3_api \<Rightarrow> ('w, 'c) engine \<Rightarrow> string \<Rightarrow> ('w, 'c) SQLite \<Rightarrow> ('w, 'c) SQLite option" where
  "query_then api en q S = Option.bind (query api en q S) (\<lambda>(_, S). Some S)"

definition end_transaction :: "'w sqlite3_api \<Rightarrow> ('w, 'c) engine \<Rightarrow> ('w, 'c) SQLite \<Rightarrow> ('w, 'c) SQLite option" where
  "end_transaction api en S = Option.bind (query_then api en ''END TRANSACTION;'' S)
     (\<lambda>S'. Some (S'\<lparr>error_message := error_message S\<rparr>))"

fun insert_each :: "'w sqlite3_api \<Rightarrow> ('w, 'c) engine \<Rightarrow> string \<Rightarrow> Variant list \<Rightarrow> ('w, 'c) SQLite \<Rightarrow>
    (bool \<times> ('w, 'c) SQLite) option" where
  "insert_each api en name [] S = Option.bind (query_then api en ''END TRANSACTION;'' S) (\<lambda>S. Some (True, S))"
| "insert_each api en name (r # rs) S =
     (if get_type r \<noteq> 27 then Option.bind (query_then api en ''END TRANSACTION;'' S) (\<lambda>S. Some (False, S))
      else Option.bind (insert_row api en name (to_dict (conv en) r) S) (\<lambda>(ok, S).
        if \<not> ok then Option.bind (end_transaction api en S) (\<lambda>S. Some (False, S))
        else insert_each api en name rs S))"

definition insert_rows :: "'w sqlite3_api \<Rightarrow> ('w, 'c) engine \<Rightarrow> string \<Rightarrow> Variant list \<Rightarrow> ('w, 'c) SQLite \<Rightarrow>
    (bool \<times> ('w, 'c) SQLite) option" where
  "insert_rows api en name rows S = Option.bind (query_then api en ''BEGIN TRANSACTION;'' S)
     (insert_each api en name rows)"

text \<open>\<open>None\<close> when an element is not a string.\<close>

fun select_loop :: "('w, 'c) engine \<Rightarrow> Variant list \<Rightarrow> string \<Rightarrow> string option" where
  "select_loop en [] qs = Some qs"
| "select_loop en (c # cs) qs = (if get_type c \<noteq> 4 then None else
     select_loop en cs (qs @ to_str (conv en) c @ (if cs \<noteq> [] then '', '' else '''')))"

definition select_rows :: "'w sqlite3_api \<Rightarrow> ('w, 'c) engine \<Rightarrow> string \<Rightarrow> string \<Rightarrow> Variant list \<Rightarrow>
    ('w, 'c) SQLite \<Rightarrow> (Dictionary list \<times> ('w, 'c) SQLite) option" where
  "select_rows api en name conditions columns S =
     (case select_loop en columns ''SELECT '' of
        None \<Rightarrow> Some (query_result S, S)
      | Some qs \<Rightarrow> Option.bind (query_then api en
          (qs @ '' FROM '' @ name @ (if conditions \<noteq> [] then '' WHERE '' @ conditions else '''') @ '';'') S)
          (\<lambda>S. Some (query_result S, S)))"

fun update_loop :: "('w, 'c) engine \<Rightarrow> Variant list \<Rightarrow> string \<Rightarrow> string" where
  "update_loop en [] qs = qs"
| "update_loop en (k # rest) qs = (let qs = qs @ to_str (conv en) k @ ''=?'' in
     if rest \<noteq> [] then update_loop en rest (qs @ '', '') else update_loop en rest qs)"

definition update_rows :: "'w sqlite3_api \<Rightarrow> ('w, 'c) engine \<Rightarrow> string \<Rightarrow> string \<Rightarrow> Dictionary \<Rightarrow>
    ('w, 'c) SQLite \<Rightarrow> (bool \<times> ('w, 'c) SQLite) option" where
  "update_rows api en name conditions row S =
     Option.bind (query_then api en ''BEGIN TRANSACTION;'' S) (\<lambda>S.
     Option.bind (query_with_bindings api en
       (update_loop en (map fst row) (''UPDATE '' @ name @ '' SET '') @ '' WHERE '' @ conditions @ '';'') (map snd row) S) (\<lambda>(ok, S).
     Option.bind (end_transaction api en S) (\<lambda>S. Some (ok, S))))"

definition delete_rows :: "'w sqlite3_api \<Rightarrow> ('w, 'c) engine \<Rightarrow> string \<Rightarrow> string \<Rightarrow>
    ('w, 'c) SQLite \<Rightarrow> (bool \<times> ('w, 'c) SQLite) option" where
  "delete_rows api en name conditions S =
     Option.bind (query_then api en ''BEGIN TRANSACTION;'' S) (\<lambda>S.
     Option.bind (query api en
       (''DELETE FROM '' @ name @ (if conditions \<noteq> [] \<and> conditions \<noteq> ''*'' then '' WHERE '' @ conditions else '''') @ '';'') S) (\<lambda>(ok, S).
     Option.bind (end_transaction api en S) (\<lambda>S. Some (ok, S))))"

section \<open>Functions of the host language\<close>

text \<open>\<open>function_callback\<close>. The variable \<open>argument_value\<close> is declared before the loop over the arguments; \<open>prev\<close> is what
  it holds.\<close>

fun callback_args :: "Variant \<Rightarrow> sql_value list \<Rightarrow> Variant list" where
  "callback_args prev [] = []"
| "callback_args prev (x # xs) =
     (let v = (case x of SqlInt i \<Rightarrow> VInt i | SqlFloat d \<Rightarrow> VFloat d | SqlText s \<Rightarrow> VString (String_of_chars s)
        | SqlBlob b \<Rightarrow> VBytes b | SqlNull \<Rightarrow> prev) in v # callback_args v xs)"

definition callback_output :: "Variant \<Rightarrow> function_result" where
  "callback_output v = (case v of
       VNil \<Rightarrow> Result SqlNull
     | VBool b \<Rightarrow> Result (SqlInt (if b then 1 else 0))
     | VInt i \<Rightarrow> Result (SqlInt i)
     | VFloat d \<Rightarrow> Result (SqlFloat d)
     | VString s \<Rightarrow> ResultStatic s
     | VStringName s \<Rightarrow> ResultStatic s
     | VBytes b \<Rightarrow> Result (if b = [] then SqlNull else SqlBlob b)
     | _ \<Rightarrow> Result SqlNull)"

definition function_callback :: "('w, 'c) engine \<Rightarrow> 'c \<Rightarrow> sql_value list \<Rightarrow> function_result" where
  "function_callback en f args = (if \<not> callable_is_valid en f then Result SqlNull
     else callback_output (callv en f (callback_args VNil args)))"

definition create_function :: "'w sqlite3_api \<Rightarrow> ('w, 'c) engine \<Rightarrow> string \<Rightarrow> 'c \<Rightarrow> int \<Rightarrow>
    ('w, 'c) SQLite \<Rightarrow> bool \<times> ('w, 'c) SQLite" where
  "create_function api en name f argc S =
     (let S = S\<lparr>function_registry := function_registry S @ [f]\<rparr>;
          (rc, w) = sqlite3_create_function api (db_ptr S) name argc (function_callback en f) (world S)
      in (rc = 0, S\<lparr>world := w\<rparr>))"

section \<open>Properties of the class\<close>

definition set_last_insert_rowid :: "'w sqlite3_api \<Rightarrow> int \<Rightarrow> ('w, 'c) SQLite \<Rightarrow> ('w, 'c) SQLite" where
  "set_last_insert_rowid api i S = (if db_ptr S \<noteq> 0
     then S\<lparr>world := sqlite3_set_last_insert_rowid api (db_ptr S) i (world S)\<rparr> else S)"

definition get_last_insert_rowid :: "'w sqlite3_api \<Rightarrow> ('w, 'c) SQLite \<Rightarrow> int" where
  "get_last_insert_rowid api S = (if db_ptr S \<noteq> 0 then sqlite3_last_insert_rowid api (db_ptr S) (world S) else 0)"

definition set_verbosity_level :: "int \<Rightarrow> ('w, 'c) SQLite \<Rightarrow> ('w, 'c) SQLite" where
  "set_verbosity_level v S = S\<lparr>verbosity_level := v\<rparr>"

definition set_foreign_keys :: "bool \<Rightarrow> ('w, 'c) SQLite \<Rightarrow> ('w, 'c) SQLite" where
  "set_foreign_keys v S = S\<lparr>foreign_keys := v\<rparr>"

definition set_read_only :: "bool \<Rightarrow> ('w, 'c) SQLite \<Rightarrow> ('w, 'c) SQLite" where
  "set_read_only v S = S\<lparr>read_only := v\<rparr>"

definition set_path :: "string \<Rightarrow> ('w, 'c) SQLite \<Rightarrow> ('w, 'c) SQLite" where
  "set_path v S = S\<lparr>path := v\<rparr>"

definition set_error_message :: "string \<Rightarrow> ('w, 'c) SQLite \<Rightarrow> ('w, 'c) SQLite" where
  "set_error_message v S = S\<lparr>error_message := v\<rparr>"

definition set_default_extension :: "string \<Rightarrow> ('w, 'c) SQLite \<Rightarrow> ('w, 'c) SQLite" where
  "set_default_extension v S = S\<lparr>default_extension := v\<rparr>"

definition set_query_result :: "Dictionary list \<Rightarrow> ('w, 'c) SQLite \<Rightarrow> ('w, 'c) SQLite" where
  "set_query_result v S = S\<lparr>query_result := v\<rparr>"

definition get_query_result :: "('w, 'c) SQLite \<Rightarrow> Dictionary list" where
  "get_query_result S = query_result S"

definition get_autocommit :: "'w sqlite3_api \<Rightarrow> ('w, 'c) SQLite \<Rightarrow> int" where
  "get_autocommit api S = (if db_ptr S \<noteq> 0 then sqlite3_get_autocommit api (db_ptr S) (world S) else 1)"

definition compileoption_used :: "'w sqlite3_api \<Rightarrow> string \<Rightarrow> int" where
  "compileoption_used api name = sqlite3_compileoption_used api name"

definition enable_load_extension :: "'w sqlite3_api \<Rightarrow> bool \<Rightarrow> ('w, 'c) SQLite \<Rightarrow> nat \<times> ('w, 'c) SQLite" where
  "enable_load_extension api onoff S =
     (let (rc, w) = sqlite3_enable_load_extension api (db_ptr S) onoff (world S) in (rc, S\<lparr>world := w\<rparr>))"

definition load_extension :: "'w sqlite3_api \<Rightarrow> ('w, 'c) engine \<Rightarrow> string \<Rightarrow> string \<Rightarrow> ('w, 'c) SQLite \<Rightarrow>
    nat \<times> ('w, 'c) SQLite" where
  "load_extension api en p entrypoint S =
     (let w = sqlite3_db_config_load_extension api (db_ptr S) True (world S);
          (rc, w) = sqlite3_load_extension api (db_ptr S) (globalize_path en (strip_edges en p)) entrypoint w;
          w = sqlite3_db_config_load_extension api (db_ptr S) False w
      in (rc, S\<lparr>world := w\<rparr>))"

end
