(* ===== verification/GdsqliteJson.thy ===== *)
theory GdsqliteJson
  imports GdsqliteTables
begin

text \<open>
  Export and import of a whole database as JSON (src/src/gdsqlite/gdsqlite.cpp, \<open>export_to_buffer\<close>,
  \<open>import_from_buffer\<close> and the methods around them). The text of a JSON buffer is its bytes in UTF-8. A
  dictionary that the code takes out of an array and changes is the one in the array, so the array
  changes with it.
\<close>

section \<open>The objects of a database\<close>

datatype OBJECT_TYPE = TABLE | INDEX | VIEW | TRIGGER

record object_struct =
  obj_name :: string
  obj_sql :: string
  obj_type :: OBJECT_TYPE
  base64_columns :: "Variant list"
  row_array :: "Variant list"

text \<open>\<open>v == String(s)\<close> on variants.\<close>

definition is_text :: "Variant \<Rightarrow> string \<Rightarrow> bool" where
  "is_text v s = (case v of VString t \<Rightarrow> t = s | VStringName t \<Rightarrow> t = s | _ \<Rightarrow> False)"

definition validate_object :: "('w, 'c) engine \<Rightarrow> Dictionary \<Rightarrow> object_struct option" where
  "validate_object en d =
     (if \<not> dict_has d (VString ''name'') then None
      else if \<not> dict_has d (VString ''sql'') then None
      else if \<not> dict_has d (VString ''type'') then None
      else let ty = dict_at d (VString ''type'');
               new_object = \<lparr>obj_name = field en d ''name'', obj_sql = field en d ''sql'', obj_type = TABLE,
                 base64_columns = [], row_array = []\<rparr> in
        if is_text ty ''table'' then
          (let new_object = new_object\<lparr>base64_columns :=
                 to_array (conv en) (dict_get d (VString ''base64_columns'') (VArray []))\<rparr> in
           if \<not> dict_has d (VString ''row_array'') then None
           else if get_type (dict_at d (VString ''row_array'')) \<noteq> 28 then None
           else Some (new_object\<lparr>row_array := to_array (conv en) (dict_at d (VString ''row_array''))\<rparr>))
        else if is_text ty ''index'' then Some (new_object\<lparr>obj_type := INDEX\<rparr>)
        else if is_text ty ''view'' then Some (new_object\<lparr>obj_type := TRIGGER\<rparr>)
        else if is_text ty ''trigger'' then Some (new_object\<lparr>obj_type := TRIGGER\<rparr>)
        else None)"

fun validate_json :: "('w, 'c) engine \<Rightarrow> Variant list \<Rightarrow> object_struct list \<Rightarrow> object_struct list option" where
  "validate_json en [] objs = Some objs"
| "validate_json en (v # vs) objs = (case validate_object en (to_dict (conv en) v) of None \<Rightarrow> None
     | Some ob \<Rightarrow> validate_json en vs (objs @ [ob]))"

text \<open>The names of the tables that FTS5 keeps for the virtual tables.\<close>

definition shadow_table_names :: "('w, 'c) engine \<Rightarrow> Dictionary list \<Rightarrow> string list" where
  "shadow_table_names en rows = concat (map (\<lambda>d. let v = field en d ''name'' in
     [v @ ''_config'', v @ ''_content'', v @ ''_data'', v @ ''_docsize'', v @ ''_idx'']) rows)"

definition clean_array :: "('w, 'c) engine \<Rightarrow> string list \<Rightarrow> Dictionary list \<Rightarrow> Dictionary list" where
  "clean_array en shadows ds = filter (\<lambda>d.
     if is_text (dict_at d (VString ''type'')) ''table'' then field en d ''name'' \<notin> set shadows
     else is_text (dict_at d (VString ''type'')) ''trigger'') ds"

definition remove_shadow_tables :: "'w sqlite3_api \<Rightarrow> ('w, 'c) engine \<Rightarrow> Dictionary list \<Rightarrow> ('w, 'c) SQLite \<Rightarrow>
    (Dictionary list \<times> ('w, 'c) SQLite) option" where
  "remove_shadow_tables api en ds S = Option.bind
     (query_then api en ''SELECT name FROM sqlite_master WHERE type = 'table' AND rootpage = 0;'' S)
     (\<lambda>S. Some (clean_array en (shadow_table_names en (query_result S)) ds, S))"

section \<open>Import\<close>

text \<open>For every element of a list, a query whose outcome is ignored.\<close>

fun query_each :: "'w sqlite3_api \<Rightarrow> ('w, 'c) engine \<Rightarrow> string list \<Rightarrow> ('w, 'c) SQLite \<Rightarrow> ('w, 'c) SQLite option" where
  "query_each api en [] S = Some S"
| "query_each api en (q # qs) S = Option.bind (query_then api en q S) (query_each api en qs)"

definition drop_views :: "('w, 'c) engine \<Rightarrow> Dictionary list \<Rightarrow> string list" where
  "drop_views en views = map (\<lambda>d. ''DROP VIEW '' @ field en d ''name'' @ '';'') views"

definition drop_tables :: "('w, 'c) engine \<Rightarrow> Dictionary list \<Rightarrow> string list" where
  "drop_tables en tables = map (\<lambda>d. ''DROP TABLE '' @ field en d ''name'' @ '';'') tables"

fun create_objects :: "'w sqlite3_api \<Rightarrow> ('w, 'c) engine \<Rightarrow> object_struct list \<Rightarrow> ('w, 'c) SQLite \<Rightarrow>
    ('w, 'c) SQLite option" where
  "create_objects api en [] S = Some S"
| "create_objects api en (ob # obs) S = Option.bind (query api en (obj_sql ob) S) (\<lambda>(ok, S).
     if \<not> ok then Option.bind (end_transaction api en S) (create_objects api en obs)
     else create_objects api en obs S)"

definition decode_row :: "('w, 'c) engine \<Rightarrow> string \<Rightarrow> Variant \<Rightarrow> Variant" where
  "decode_row en key v = (case v of
       VDict row \<Rightarrow> VDict (if dict_has row (VString key)
         then dict_put (VString key) (VBytes (base64_to_raw en (field en row key))) row else row)
     | _ \<Rightarrow> v)"

definition decode_rows :: "('w, 'c) engine \<Rightarrow> Variant list \<Rightarrow> Variant list \<Rightarrow> Variant list" where
  "decode_rows en cols rows = foldl (\<lambda>rows c. map (decode_row en (to_str (conv en) c)) rows) rows cols"

text \<open>The loop over the rows of one object: whether it went through.\<close>

fun fill_rows :: "'w sqlite3_api \<Rightarrow> ('w, 'c) engine \<Rightarrow> string \<Rightarrow> Variant list \<Rightarrow> ('w, 'c) SQLite \<Rightarrow>
    (bool \<times> ('w, 'c) SQLite) option" where
  "fill_rows api en name [] S = Some (True, S)"
| "fill_rows api en name (r # rs) S =
     (if get_type r \<noteq> 27 then Some (False, S)
      else Option.bind (insert_row api en name (to_dict (conv en) r) S) (\<lambda>(ok, S).
        if \<not> ok then Option.bind (end_transaction api en S) (\<lambda>S. Some (False, S))
        else fill_rows api en name rs S))"

fun fill_objects :: "'w sqlite3_api \<Rightarrow> ('w, 'c) engine \<Rightarrow> object_struct list \<Rightarrow> ('w, 'c) SQLite \<Rightarrow>
    (bool \<times> ('w, 'c) SQLite) option" where
  "fill_objects api en [] S = Option.bind (query_then api en ''END TRANSACTION;'' S) (\<lambda>S. Some (True, S))"
| "fill_objects api en (ob # obs) S =
     (if obj_type ob \<noteq> TABLE then fill_objects api en obs S
      else Option.bind (fill_rows api en (obj_name ob) (decode_rows en (base64_columns ob) (row_array ob)) S) (\<lambda>(ok, S).
        if \<not> ok then Some (False, S) else fill_objects api en obs S))"

definition drop_everything :: "'w sqlite3_api \<Rightarrow> ('w, 'c) engine \<Rightarrow> ('w, 'c) SQLite \<Rightarrow> ('w, 'c) SQLite option" where
  "drop_everything api en S =
     Option.bind (query_then api en ''SELECT name FROM sqlite_master WHERE type = 'view';'' S) (\<lambda>S.
     Option.bind (query_each api en (drop_views en (query_result S)) S) (\<lambda>S.
     Option.bind (query_then api en ''SELECT name,type FROM sqlite_master WHERE type = 'table';'' S) (\<lambda>S.
     Option.bind (if enable_fts5 en then remove_shadow_tables api en (query_result S) S
                  else Some (query_result S, S)) (\<lambda>(tables, S).
     query_each api en (drop_tables en tables) S))))"

definition import_objects :: "'w sqlite3_api \<Rightarrow> ('w, 'c) engine \<Rightarrow> object_struct list \<Rightarrow> ('w, 'c) SQLite \<Rightarrow>
    (bool \<times> ('w, 'c) SQLite) option" where
  "import_objects api en obs S =
     Option.bind (query_then api en ''BEGIN TRANSACTION;'' S) (\<lambda>S.
     Option.bind (query_then api en ''PRAGMA defer_foreign_keys=on;'' S) (\<lambda>S.
     Option.bind (create_objects api en obs S) (fill_objects api en obs)))"

definition get_string_from_utf8 :: "byte list \<Rightarrow> string" where
  "get_string_from_utf8 b = map (\<lambda>x. char_of (unat x)) b"

definition to_utf8_buffer :: "string \<Rightarrow> byte list" where
  "to_utf8_buffer s = map (\<lambda>c. of_nat (of_char c)) s"

lemma utf8_buffer [simp]: "get_string_from_utf8 (to_utf8_buffer s) = s"
proof -
  have "char_of (unat (of_nat (of_char c) :: byte)) = c" for c
  proof -
    have "of_char c < (256::nat)" by (simp add: of_char_def horner_sum_simps split: char.split)
    then show ?thesis by (simp add: unat_of_nat)
  qed
  then show ?thesis by (simp add: get_string_from_utf8_def to_utf8_buffer_def comp_def)
qed

definition import_from_buffer :: "'w sqlite3_api \<Rightarrow> ('w, 'c) engine \<Rightarrow> byte list \<Rightarrow> ('w, 'c) SQLite \<Rightarrow>
    (bool \<times> ('w, 'c) SQLite) option" where
  "import_from_buffer api en buf S =
     (case json_parse en (get_string_from_utf8 buf) of None \<Rightarrow> Some (False, S)
      | Some data \<Rightarrow> (case validate_json en (to_array (conv en) data) [] of None \<Rightarrow> Some (False, S)
          | Some obs \<Rightarrow>
            (let (ok, S) = (if db_ptr S = 0 then open_db api en S else (True, S)) in
             if \<not> ok then Some (False, S)
             else Option.bind (drop_everything api en S) (import_objects api en obs))))"

definition json_path :: "string \<Rightarrow> string" where
  "json_path p = (if \<not> suffix ''.json'' p then p @ ''.json'' else p)"

definition import_from_json :: "'w sqlite3_api \<Rightarrow> ('w, 'c) engine \<Rightarrow> string \<Rightarrow> ('w, 'c) SQLite \<Rightarrow>
    (bool \<times> ('w, 'c) SQLite) option" where
  "import_from_json api en p S =
     (case read_text en (globalize_path en (strip_edges en (json_path p))) (world S) of
        None \<Rightarrow> Some (False, S)
      | Some str \<Rightarrow> import_from_buffer api en (to_utf8_buffer (takeWhile (\<lambda>c. c \<noteq> char_of (0::nat)) str)) S)"

section \<open>Export\<close>

definition binary_columns :: "('w, 'c) engine \<Rightarrow> Dictionary \<Rightarrow> string list" where
  "binary_columns en row = filter (\<lambda>key. get_type (dict_at row (VString key)) = 29)
     (map (\<lambda>k. to_str (conv en) k) (map fst row))"

definition encode_row :: "('w, 'c) engine \<Rightarrow> string \<Rightarrow> Dictionary \<Rightarrow> Dictionary" where
  "encode_row en key row =
     dict_put (VString key) (VString (raw_to_base64 en (to_bytes (conv en) (dict_at row (VString key)))))
       (dict_erase (VString key) row)"

definition encode_rows :: "('w, 'c) engine \<Rightarrow> string list \<Rightarrow> Dictionary list \<Rightarrow> Dictionary list" where
  "encode_rows en cols rows = foldl (\<lambda>rows key. map (encode_row en key) rows) rows cols"

text \<open>One turn of the loop: the dictionary of the object with its rows.\<close>

definition export_object :: "'w sqlite3_api \<Rightarrow> ('w, 'c) engine \<Rightarrow> Dictionary \<Rightarrow> ('w, 'c) SQLite \<Rightarrow>
    (Dictionary \<times> ('w, 'c) SQLite) option" where
  "export_object api en d S =
     (if is_text (dict_at d (VString ''type'')) ''table'' then
        Option.bind (query_then api en (''SELECT * FROM '' @ field en d ''name'' @ '';'') S) (\<lambda>S.
          let cols = (if query_result S \<noteq> [] then binary_columns en (hd (query_result S)) else []);
              S = S\<lparr>query_result := encode_rows en cols (query_result S)\<rparr>;
              d = (if cols \<noteq> [] then dict_put (VString ''base64_columns'') (VArray (map VString cols)) d else d)
          in Some (dict_put (VString ''row_array'') (VArray (map VDict (query_result S))) d, S))
      else Some (d, S))"

fun export_objects :: "'w sqlite3_api \<Rightarrow> ('w, 'c) engine \<Rightarrow> Dictionary list \<Rightarrow> ('w, 'c) SQLite \<Rightarrow>
    (Dictionary list \<times> ('w, 'c) SQLite) option" where
  "export_objects api en [] S = Some ([], S)"
| "export_objects api en (d # ds) S = Option.bind (export_object api en d S) (\<lambda>(d, S).
     Option.bind (export_objects api en ds S) (\<lambda>(ds, S). Some (d # ds, S)))"

definition export_to_buffer :: "'w sqlite3_api \<Rightarrow> ('w, 'c) engine \<Rightarrow> ('w, 'c) SQLite \<Rightarrow>
    (byte list \<times> ('w, 'c) SQLite) option" where
  "export_to_buffer api en S =
     Option.bind (query_then api en ''SELECT name,sql,type FROM sqlite_master;'' S) (\<lambda>S.
     Option.bind (if enable_fts5 en then remove_shadow_tables api en (query_result S) S
                  else Some (query_result S, S)) (\<lambda>(database_array, S).
     Option.bind (export_objects api en database_array S) (\<lambda>(database_array, S).
       Some (to_utf8_buffer (json_stringify en (VArray (map VDict database_array))), S))))"

definition export_to_json :: "'w sqlite3_api \<Rightarrow> ('w, 'c) engine \<Rightarrow> string \<Rightarrow> ('w, 'c) SQLite \<Rightarrow>
    (bool \<times> ('w, 'c) SQLite) option" where
  "export_to_json api en p S = Option.bind (export_to_buffer api en S) (\<lambda>(buf, S).
     let (ok, w) = write_text en (globalize_path en (strip_edges en (json_path p)))
           (get_string_from_utf8 buf) (world S)
     in Some (ok, S\<lparr>world := w\<rparr>))"

end
