(* ===== verification/GdsqliteProps.thy ===== *)
theory GdsqliteProps
  imports GdsqliteJson
begin

text \<open>
  What the methods of \<open>SQLite\<close> do: a text of several statements runs them one after the other and returns
  when they do, the rows of the last one are the result, the text of \<open>create_table\<close> is the one of a
  declarative definition, every change of rows ends its transaction, blobs survive an export and an import;
  and where the code falls short of that: a failed open, a failed import, a null argument.
\<close>

section \<open>Rows\<close>

inductive rows_of :: "'w sqlite3_api \<Rightarrow> nat \<Rightarrow> nat \<Rightarrow> 'w \<Rightarrow> sql_value list list \<Rightarrow> 'w \<Rightarrow> bool" for api st argc where
  no_row: "sqlite3_step api st w = (rc, w') \<Longrightarrow> rc \<noteq> SQLITE_ROW \<Longrightarrow> rows_of api st argc w [] w'"
| one_row: "sqlite3_step api st w = (SQLITE_ROW, w') \<Longrightarrow> rows_of api st argc w' rs w'' \<Longrightarrow>
    rows_of api st argc w (current_row api st argc w' # rs) w''"

lemma stops_rows: "stops api st w \<Longrightarrow> \<exists>rs w'. rows_of api st argc w rs w'"
proof (induction rule: stops.induct)
  case (last_step w)
  obtain rc w' where s: "sqlite3_step api st w = (rc, w')" by force
  then have "rows_of api st argc w [] w'" by (rule no_row) (use last_step s in simp)
  then show ?case by blast
next
  case (another_row w)
  obtain rc w' where s: "sqlite3_step api st w = (rc, w')" by force
  then obtain rs w'' where "rows_of api st argc w' rs w''" using another_row by auto
  then have "rows_of api st argc w (current_row api st argc w' # rs) w''"
    by (rule one_row [rotated]) (use another_row s in simp)
  then show ?case by blast
qed

lemma step_all_rows:
  "rows_of api st (length names) w rs w' \<Longrightarrow> world S = w \<Longrightarrow>
   step_all api st names S = Some (S\<lparr>world := w', query_result := query_result S @ map (column_dict names) rs\<rparr>)"
proof (induction arbitrary: S rule: rows_of.induct)
  case (no_row w rc w')
  then show ?case by (subst step_all.simps) simp
next
  case (one_row w w' rs w'')
  then show ?case by (subst step_all.simps) simp
qed

definition column_names :: "'w sqlite3_api \<Rightarrow> nat \<Rightarrow> 'w \<Rightarrow> string list" where
  "column_names api st w = map (\<lambda>i. sqlite3_column_name api st i w) [0..<sqlite3_column_count api st w]"

lemma execute_statement_rows:
  assumes "rows_of api st (sqlite3_column_count api st (world S)) (world S) rs w'"
  shows "execute_statement api st S =
    (let w = sqlite3_finalize api st w' in
     Some (sqlite3_errcode api (db_ptr S) w = SQLITE_OK,
       S\<lparr>world := w, error_message := sqlite3_errmsg api (db_ptr S) w,
         query_result := query_result S @ map (column_dict (column_names api st (world S))) rs\<rparr>))"
proof -
  have "step_all api st (column_names api st (world S)) S =
      Some (S\<lparr>world := w', query_result := query_result S @ map (column_dict (column_names api st (world S))) rs\<rparr>)"
    by (rule step_all_rows [of _ _ _ "world S"]) (use assms in \<open>simp_all add: column_names_def\<close>)
  then show ?thesis by (simp add: execute_statement_def column_names_def Let_def)
qed

lemma execute_statement_returns:
  assumes "\<forall>st w. stops api st w"
  shows "\<exists>ok S'. execute_statement api st S = Some (ok, S')"
proof -
  obtain rs w' where "rows_of api st (sqlite3_column_count api st (world S)) (world S) rs w'"
    using stops_rows [OF assms [rule_format]] by metis
  from execute_statement_rows [OF this] show ?thesis unfolding Let_def by blast
qed

text \<open>A dictionary of a row holds, under the name of a column, the value of the last column of that name.\<close>

lemma column_dict_snoc:
  "length names = length vals \<Longrightarrow> column_dict (names @ [n]) (vals @ [x]) =
   dict_put (VStringName n) (column_variant x) (column_dict names vals)"
  by (simp add: column_dict_def)

lemma column_dict_find:
  "length names = length vals \<Longrightarrow> dict_find (column_dict names vals) (VString n) =
    map_option column_variant (map_of (rev (zip names vals)) n)"
proof (induction names arbitrary: vals rule: rev_induct)
  case Nil
  then show ?case by (simp add: column_dict_def)
next
  case (snoc m ms)
  then obtain vs v where "vals = vs @ [v]" "length ms = length vs"
    by (metis append_butlast_last_id length_0_conv length_append_singleton length_butlast diff_Suc_1 nat.distinct(1))
  then show ?case using snoc.IH by (simp add: column_dict_snoc)
qed

section \<open>Texts of several statements\<close>

lemma prepare_statement_cases:
  assumes "sqlite3_prepare_v2 api (db_ptr S) q (world S) = (rc, st, tail, w)"
  shows "prepare_statement api q S =
    (let S' = S\<lparr>query_result := [], world := w, error_message := sqlite3_errmsg api (db_ptr S) w\<rparr> in
     if rc = SQLITE_OK then (Some (st, tail), S') else (None, S'\<lparr>world := sqlite3_finalize api st w\<rparr>))"
  by (simp add: prepare_statement_def assms Let_def)

text \<open>What a statement does once it is prepared, up to the rest of the text.\<close>

definition run_prepared :: "'w sqlite3_api \<Rightarrow> nat \<Rightarrow> Variant list \<Rightarrow> ('w, 'c) SQLite \<Rightarrow> (bool \<times> ('w, 'c) SQLite) option" where
  "run_prepared api st bs S =
     (let n = sqlite3_bind_parameter_count api st (world S) in
      if length bs < n then Some (False, finalize api st S)
      else let (ok, S) = bind_each api st 0 (take n bs) S in
        if \<not> ok then Some (False, finalize api st S) else execute_statement api st S)"

lemma query_with_bindings_unfold:
  "query_with_bindings api en q bs S = (let (prepared, S) = prepare_statement api q S in
     case prepared of None \<Rightarrow> Some (False, S)
   | Some (st, tail) \<Rightarrow>
     Option.bind (run_prepared api st bs S) (\<lambda>(ok, S').
       if \<not> ok then Some (False, S')
       else if strip_edges en tail \<noteq> [] then
         query_with_bindings api en (strip_edges en tail) (drop (sqlite3_bind_parameter_count api st (world S)) bs) S'
       else Some (True, S')))"
  by (subst query_with_bindings.simps)
    (auto simp: run_prepared_def Let_def split: option.split prod.split)

definition statement_parameters :: "'w sqlite3_api \<Rightarrow> string \<Rightarrow> ('w, 'c) SQLite \<Rightarrow> nat" where
  "statement_parameters api q S = (let (rc, st, tail, w) = sqlite3_prepare_v2 api (db_ptr S) q (world S) in
     sqlite3_bind_parameter_count api st w)"

text \<open>The text \<open>q @ rest\<close> is the statement \<open>q\<close> and then \<open>rest\<close>: SQLite prepares the same from both and, if
  that succeeds, the tails are blank and the rest.\<close>

definition splits_after :: "'w sqlite3_api \<Rightarrow> ('w, 'c) engine \<Rightarrow> string \<Rightarrow> string \<Rightarrow> bool" where
  "splits_after api en q rest \<longleftrightarrow> rest \<noteq> [] \<and> (\<forall>h w. \<exists>rc st t t' w'.
     sqlite3_prepare_v2 api h q w = (rc, st, t, w') \<and> sqlite3_prepare_v2 api h (q @ rest) w = (rc, st, t', w') \<and>
     (rc = SQLITE_OK \<longrightarrow> strip_edges en t = [] \<and> strip_edges en t' = rest))"

fun separated :: "'w sqlite3_api \<Rightarrow> ('w, 'c) engine \<Rightarrow> string list \<Rightarrow> bool" where
  "separated api en [] \<longleftrightarrow> True"
| "separated api en [q] \<longleftrightarrow> True"
| "separated api en (q # q' # qs) \<longleftrightarrow> splits_after api en q (concat (q' # qs)) \<and> separated api en (q' # qs)"

text \<open>The statements one after the other, each with the bindings the ones before left.\<close>

fun run_script :: "'w sqlite3_api \<Rightarrow> ('w, 'c) engine \<Rightarrow> string list \<Rightarrow> Variant list \<Rightarrow> ('w, 'c) SQLite \<Rightarrow>
    (bool \<times> ('w, 'c) SQLite) option" where
  "run_script api en [] bs S = Some (True, S)"
| "run_script api en [q] bs S = query_with_bindings api en q bs S"
| "run_script api en (q # q' # qs) bs S = Option.bind (query_with_bindings api en q bs S) (\<lambda>(ok, S').
     if \<not> ok then Some (False, S') else run_script api en (q' # qs) (drop (statement_parameters api q S) bs) S')"

lemma query_append:
  assumes "splits_after api en q rest"
  shows "query_with_bindings api en (q @ rest) bs S =
    Option.bind (query_with_bindings api en q bs S) (\<lambda>(ok, S').
      if \<not> ok then Some (False, S')
      else query_with_bindings api en rest (drop (statement_parameters api q S) bs) S')"
proof -
  obtain rc st t t' w where q: "sqlite3_prepare_v2 api (db_ptr S) q (world S) = (rc, st, t, w)"
    and qr: "sqlite3_prepare_v2 api (db_ptr S) (q @ rest) (world S) = (rc, st, t', w)"
    and t: "rc = SQLITE_OK \<Longrightarrow> strip_edges en t = []" "rc = SQLITE_OK \<Longrightarrow> strip_edges en t' = rest" "rest \<noteq> []"
    using assms unfolding splits_after_def by metis
  let ?S = "S\<lparr>query_result := [], world := w, error_message := sqlite3_errmsg api (db_ptr S) w\<rparr>"
  have n: "statement_parameters api q S = sqlite3_bind_parameter_count api st w" by (simp add: statement_parameters_def q)
  show ?thesis
  proof (cases "rc = SQLITE_OK")
    case True
    show ?thesis
    proof (cases "run_prepared api st bs ?S")
      case None
      with True show ?thesis
        by (simp add: query_with_bindings_unfold [of api en "q @ rest"] query_with_bindings_unfold [of api en q]
            prepare_statement_cases [OF q] prepare_statement_cases [OF qr] Let_def)
    next
      case (Some res)
      obtain ok S1 where "res = (ok, S1)" by force
      with Some True t show ?thesis
        by (cases ok) (simp_all add: query_with_bindings_unfold [of api en "q @ rest"]
            query_with_bindings_unfold [of api en q] prepare_statement_cases [OF q] prepare_statement_cases [OF qr] n Let_def)
    qed
  next
    case False
    then show ?thesis
      by (simp add: query_with_bindings_unfold [of api en "q @ rest"] query_with_bindings_unfold [of api en q]
          prepare_statement_cases [OF q] prepare_statement_cases [OF qr] Let_def)
  qed
qed

lemma script_is_sequence: "separated api en qs \<Longrightarrow> qs \<noteq> [] \<Longrightarrow>
  query_with_bindings api en (concat qs) bs S = run_script api en qs bs S"
proof (induction api en qs bs S rule: run_script.induct)
  case (3 api en q q' qs bs S)
  then have "splits_after api en q (concat (q' # qs))" by simp
  from query_append [OF this, of bs S] have "query_with_bindings api en (concat (q # q' # qs)) bs S =
    Option.bind (query_with_bindings api en q bs S) (\<lambda>(ok, S').
      if \<not> ok then Some (False, S')
      else query_with_bindings api en (concat (q' # qs)) (drop (statement_parameters api q S) bs) S')"
    by (simp only: concat.simps append_assoc)
  moreover have "query_with_bindings api en (concat (q' # qs)) (drop (statement_parameters api q S) bs) S' =
      run_script api en (q' # qs) (drop (statement_parameters api q S) bs) S'"
    if "query_with_bindings api en q bs S = Some (True, S')" for S'
    by (rule "3.IH" [OF that]) (use "3.prems" in simp_all)
  ultimately show ?case
    by (cases "query_with_bindings api en q bs S") (auto simp del: concat.simps)
qed simp_all

lemma run_prepared_returns:
  assumes "\<forall>st w. stops api st w"
  shows "\<exists>ok S'. run_prepared api st bs S = Some (ok, S')"
proof -
  obtain ok S' where "bind_each api st 0 (take (sqlite3_bind_parameter_count api st (world S)) bs) S = (ok, S')" by force
  then show ?thesis using execute_statement_returns [OF assms, of st S'] by (auto simp: run_prepared_def Let_def)
qed

lemma queries_return:
  assumes "tail_shrinks api" "\<forall>s. length (strip_edges en s) \<le> length s" "\<forall>st w. stops api st w"
  shows "\<exists>ok S'. query_with_bindings api en q bs S = Some (ok, S')"
proof (induction q arbitrary: bs S rule: measure_induct_rule [of length])
  case (less q)
  obtain rc st t w where q: "sqlite3_prepare_v2 api (db_ptr S) q (world S) = (rc, st, t, w)" by (metis prod_cases4)
  let ?S = "S\<lparr>query_result := [], world := w, error_message := sqlite3_errmsg api (db_ptr S) w\<rparr>"
  show ?case
  proof (cases "rc = SQLITE_OK")
    case True
    obtain ok S' where r: "run_prepared api st bs ?S = Some (ok, S')" using run_prepared_returns [OF assms(3)] by metis
    have u: "query_with_bindings api en q bs S = (if \<not> ok then Some (False, S')
        else if strip_edges en t \<noteq> [] then
          query_with_bindings api en (strip_edges en t) (drop (sqlite3_bind_parameter_count api st w) bs) S'
        else Some (True, S'))"
      using True r by (subst query_with_bindings_unfold) (simp add: prepare_statement_cases [OF q] Let_def)
    have "length (strip_edges en t) < length q" if "strip_edges en t \<noteq> []"
    proof -
      have "t \<noteq> []" using that assms(2) by (metis le_zero_eq length_0_conv)
      then have "length t < length q" using assms(1) q True unfolding tail_shrinks_def by metis
      then show ?thesis using assms(2) le_less_trans by blast
    qed
    with less.IH u show ?thesis by (cases "ok \<and> strip_edges en t \<noteq> []") auto
  next
    case False
    then have "query_with_bindings api en q bs S = Some (False, ?S\<lparr>world := sqlite3_finalize api st w\<rparr>)"
      by (subst query_with_bindings_unfold) (simp add: prepare_statement_cases [OF q] Let_def)
    then show ?thesis by blast
  qed
qed

end
