(* ===== verification/GdsqliteSpec.thy ===== *)
theory GdsqliteSpec
  imports GdsqliteProps
begin

text \<open>
  The texts and the conversions of \<open>SQLite\<close> against declarative definitions: the columns, the primary key
  and the foreign keys of a table, the placeholders of an insertion, the values that are bound and read,
  the blobs of an export; and where the rows change, that every change ends its transaction.
\<close>

section \<open>The text of a table\<close>

definition column_of :: "('w, 'c) engine \<Rightarrow> Dictionary \<Rightarrow> Variant \<Rightarrow> Dictionary" where
  "column_of en td c = to_dict (conv en) (dict_at td c)"

text \<open>The definition of one column.\<close>

definition column_sql :: "('w, 'c) engine \<Rightarrow> bool \<Rightarrow> string \<Rightarrow> Dictionary \<Rightarrow> string" where
  "column_sql en single name cd = name @ '' '' @
     (if prefix ''int'' (to_lower en (field en cd ''data_type'')) then ''INTEGER'' else field en cd ''data_type'') @
     (if flag en cd ''primary_key'' \<and> single then '' PRIMARY KEY'' @ (if flag en cd ''auto_increment'' then '' AUTOINCREMENT'' else '''') else '''') @
     (if flag en cd ''not_null'' then '' NOT NULL'' else '''') @
     (if flag en cd ''unique'' then '' UNIQUE'' else '''') @
     (if dict_has cd (VString ''default'') then '' DEFAULT '' @ field en cd ''default'' else '''')"

definition key_columns :: "('w, 'c) engine \<Rightarrow> Dictionary \<Rightarrow> string list" where
  "key_columns en td = map (to_str (conv en)) (filter (\<lambda>c. flag en (column_of en td c) ''primary_key'') (map fst td))"

definition foreign_keys_sql :: "('w, 'c) engine \<Rightarrow> Dictionary \<Rightarrow> string" where
  "foreign_keys_sql en td = concat (map (\<lambda>c. if flag en (column_of en td c) ''foreign_key''
     then foreign_key_clause en (to_str (conv en) c) (column_of en td c) else '''') (map fst td))"

definition table_sql :: "('w, 'c) engine \<Rightarrow> bool \<Rightarrow> string \<Rightarrow> Dictionary \<Rightarrow> string" where
  "table_sql en fk name td = ''CREATE TABLE IF NOT EXISTS '' @ name @ '' ('' @
     join_with '','' (map (\<lambda>c. column_sql en (length (key_columns en td) = 1) (to_str (conv en) c) (column_of en td c)) (map fst td)) @
     (if length (key_columns en td) > 1 then '', PRIMARY KEY ('' @ join_with '', '' (key_columns en td) @ '')'' else '''') @
     (if fk then foreign_keys_sql en td else '''') @ '');''"

lemma primary_key_columns_length: "primary_key_columns en td = length (key_columns en td)"
proof -
  have "foldl (\<lambda>n c. if flag en (to_dict (conv en) (dict_at td c)) ''primary_key'' then n + 1 else n) k cs =
      k + length (filter (\<lambda>c. flag en (column_of en td c) ''primary_key'') cs)" for k cs
    by (induction cs arbitrary: k) (simp_all add: column_of_def)
  then show ?thesis by (simp add: primary_key_columns_def key_columns_def)
qed

text \<open>The string of primary keys grows by one name; it starts over as long as it is empty.\<close>

definition add_key :: "string \<Rightarrow> string \<Rightarrow> string" where
  "add_key ps name = (if ps = [] then name else ps @ '', '' @ name)"

text \<open>An appended part that depends on a condition.\<close>

lemma append_if: "(if b then s @ x else s) = s @ (if b then x else [])"
  by simp

lemma append_ifs: "(if b then s @ x else s @ y) = s @ (if b then x else y)"
  by simp

lemma column_step_parts:
  "column_step en fk td n c m (qs, ks, ps) =
    (qs @ column_sql en (n = 1) (to_str (conv en) c) (column_of en td c) @ (if m then '','' else ''''),
     ks @ (if fk \<and> flag en (column_of en td c) ''foreign_key''
       then foreign_key_clause en (to_str (conv en) c) (column_of en td c) else ''''),
     if flag en (column_of en td c) ''primary_key'' \<and> n \<noteq> 1 then add_key ps (to_str (conv en) c) else ps)"
  unfolding column_step_def column_sql_def column_of_def [symmetric] add_key_def Let_def prod.case
    append_if append_ifs append_assoc
  by (rule refl)

lemma join_with_Cons: "join_with sep (x # xs) = x @ (if xs = [] then '''' else sep @ join_with sep xs)"
  by (cases xs) simp_all

lemma column_loop_parts:
  "column_loop en fk td n cs (qs, ks, ps) =
    (qs @ join_with '','' (map (\<lambda>c. column_sql en (n = 1) (to_str (conv en) c) (column_of en td c)) cs),
     ks @ concat (map (\<lambda>c. if fk \<and> flag en (column_of en td c) ''foreign_key''
       then foreign_key_clause en (to_str (conv en) c) (column_of en td c) else '''') cs),
     if n \<noteq> 1 then foldl add_key ps (map (to_str (conv en))
       (filter (\<lambda>c. flag en (column_of en td c) ''primary_key'') cs)) else ps)"
proof (induction cs arbitrary: qs ks ps)
  case (Cons c cs)
  show ?case unfolding column_loop.simps column_step_parts Cons.IH by (simp add: join_with_Cons)
qed simp

lemma foldl_add_key: "ps \<noteq> [] \<Longrightarrow> foldl add_key ps names = join_with '', '' (ps # names)"
proof (induction names arbitrary: ps)
  case (Cons x xs)
  have "add_key ps x = ps @ '', '' @ x" using Cons.prems by (simp add: add_key_def)
  then have "foldl add_key ps (x # xs) = join_with '', '' ((ps @ '', '' @ x) # xs)"
    using Cons.IH [of "ps @ '', '' @ x"] by simp
  then show ?case by (simp add: join_with_Cons)
qed simp

lemma foldl_add_key_Nil: "[] \<notin> set names \<Longrightarrow> foldl add_key [] names = join_with '', '' names"
  by (cases names) (auto simp: add_key_def foldl_add_key)

lemma concat_map_off: "concat (map (\<lambda>c. if False \<and> P c then f c else '''') cs) = ''''"
  by (induction cs) simp_all

lemma create_table_query_spec:
  assumes "[] \<notin> set (key_columns en td)"
  shows "create_table_query en fk name td = table_sql en fk name td"
proof -
  have k: "foldl add_key [] (map (to_str (conv en)) (filter (\<lambda>c. flag en (column_of en td c) ''primary_key'') (map fst td))) =
      join_with '', '' (key_columns en td)"
    using foldl_add_key_Nil [OF assms] by (simp add: key_columns_def)
  show ?thesis
    by (cases fk) (simp_all add: create_table_query_def column_loop_parts primary_key_columns_length k table_sql_def
        foreign_keys_sql_def Let_def)
qed

text \<open>What makes a dictionary the description of a column: a type, and a default of the same type.\<close>

definition default_fits :: "string \<Rightarrow> nat \<Rightarrow> bool" where
  "default_fits ty d \<longleftrightarrow> (ty = ''int'' \<longrightarrow> d = 2) \<and> (ty = ''text'' \<longrightarrow> d = 4) \<and> (ty = ''real'' \<longrightarrow> d = 3)"

definition valid_column :: "('w, 'c) engine \<Rightarrow> Dictionary \<Rightarrow> bool" where
  "valid_column en cd \<longleftrightarrow> dict_has cd (VString ''data_type'') \<and> get_type (dict_at cd (VString ''data_type'')) = 4 \<and>
     (dict_has cd (VString ''default'') \<longrightarrow> default_fits (field en cd ''data_type'') (get_type (dict_at cd (VString ''default''))))"

lemma validate_columns_iff: "validate_columns en td cs \<longleftrightarrow>
    (\<forall>c \<in> set cs. get_type (dict_at td c) = 27 \<and> valid_column en (column_of en td c))"
proof (induction cs)
  case (Cons c cs)
  have t: "type_of_data_type s d = d \<longleftrightarrow> default_fits s d" for s d
    by (auto simp: type_of_data_type_def default_fits_def)
  show ?case
    by (auto simp: Cons.IH Let_def column_of_def valid_column_def field_def t split: if_splits)
qed simp

section \<open>The text of an insertion\<close>

lemma insert_loop_parts: "insert_loop en ks s t =
    (s @ join_with '','' (map (to_str (conv en)) ks), t @ join_with '','' (replicate (length ks) ''?''))"
proof (induction ks arbitrary: s t)
  case (Cons k ks)
  show ?case by (simp add: Let_def Cons.IH join_with_Cons)
qed simp

lemma insert_query_text: "insert_query en name row = ''INSERT INTO '' @ name @ '' ('' @
    join_with '','' (map (to_str (conv en)) (map fst row)) @ '') VALUES ('' @
    join_with '','' (replicate (length row) ''?'') @ '');''"
  by (simp add: insert_query_def insert_loop_parts)

lemma update_loop_text: "update_loop en ks qs = qs @ join_with '', '' (map (\<lambda>k. to_str (conv en) k @ ''=?'') ks)"
proof (induction ks arbitrary: qs)
  case (Cons k ks)
  show ?case by (simp add: Let_def Cons.IH join_with_Cons)
qed simp

section \<open>Values there and back\<close>

text \<open>What a script reads after it bound a value: flags become numbers, names strings, the empty blob nil.\<close>

definition read_back :: "Variant \<Rightarrow> Variant" where
  "read_back v = (case v of VBool b \<Rightarrow> VInt (if b then 1 else 0) | VStringName s \<Rightarrow> VString s
     | VBytes b \<Rightarrow> if b = [] then VNil else VBytes b | _ \<Rightarrow> v)"

lemma bind_read_back: "bound_value v = Some x \<Longrightarrow> column_variant x = read_back v"
  by (cases v) (auto simp: bound_value_def column_variant_def read_back_def split: if_splits)

lemma length_callback_args [simp]: "length (callback_args p xs) = length xs"
  by (induction xs arbitrary: p) (simp_all add: Let_def)

definition argument_of :: "sql_value \<Rightarrow> Variant" where
  "argument_of x = (case x of SqlInt i \<Rightarrow> VInt i | SqlFloat d \<Rightarrow> VFloat d | SqlText s \<Rightarrow> VString (String_of_chars s)
     | SqlBlob b \<Rightarrow> VBytes b | SqlNull \<Rightarrow> VNil)"

lemma callback_args_nth: "i < length xs \<Longrightarrow> callback_args p xs ! i =
    (if xs ! i \<noteq> SqlNull then argument_of (xs ! i) else if i = 0 then p else callback_args p xs ! (i - 1))"
proof (induction xs arbitrary: p i)
  case (Cons x xs)
  show ?case
  proof (cases i)
    case 0
    then show ?thesis by (cases x) (simp_all add: Let_def argument_of_def)
  next
    case (Suc j)
    then have j: "j < length xs" using Cons.prems by simp
    show ?thesis unfolding Suc using Cons.IH [OF j] by (cases j) (simp_all add: Let_def)
  qed
qed simp

section \<open>Blobs in an export\<close>

lemma decode_rows_Cons: "decode_rows en (c # cols) rows = decode_rows en cols (map (decode_row en (to_str (conv en) c)) rows)"
  by (simp add: decode_rows_def)

lemma encode_rows_Cons: "encode_rows en (c # cols) rows = encode_rows en cols (map (encode_row en c) rows)"
  by (simp add: encode_rows_def)

lemma encode_rows_map: "encode_rows en cols rows = map (\<lambda>r. foldl (\<lambda>r c. encode_row en c r) r cols) rows"
  by (induction cols arbitrary: rows) (simp_all add: encode_rows_Cons, simp add: encode_rows_def)

lemma encode_row_find: "dict_find (encode_row en c r) (VString s) =
    (if s = c then Some (VString (raw_to_base64 en (to_bytes (conv en) (dict_at r (VString c))))) else dict_find r (VString s))"
  by (simp add: encode_row_def)

lemma encode_all_find: "distinct cols \<Longrightarrow> dict_find (foldl (\<lambda>r c. encode_row en c r) r cols) (VString s) =
    (if s \<in> set cols then Some (VString (raw_to_base64 en (to_bytes (conv en) (dict_at r (VString s))))) else dict_find r (VString s))"
proof (induction cols arbitrary: r)
  case (Cons c cols)
  then show ?case by (simp add: encode_row_find dict_at_def dict_get_def)
qed simp

definition decode_dict :: "('w, 'c) engine \<Rightarrow> string \<Rightarrow> Dictionary \<Rightarrow> Dictionary" where
  "decode_dict en key row = (if dict_has row (VString key)
     then dict_put (VString key) (VBytes (base64_to_raw en (field en row key))) row else row)"

lemma decode_row_dict: "decode_row en key (VDict row) = VDict (decode_dict en key row)"
  by (simp add: decode_row_def decode_dict_def)

lemma decode_rows_map: "decode_rows en cols (map VDict rows) =
    map (\<lambda>r. VDict (foldl (\<lambda>r c. decode_dict en (to_str (conv en) c) r) r cols)) rows"
proof (induction cols arbitrary: rows)
  case Nil
  then show ?case by (simp add: decode_rows_def)
next
  case (Cons c cols)
  have "map (decode_row en (to_str (conv en) c)) (map VDict rows) = map VDict (map (decode_dict en (to_str (conv en) c)) rows)"
    by (simp add: decode_row_dict)
  then show ?case unfolding decode_rows_Cons by (simp only: Cons.IH) simp
qed

lemma decode_all_find: "distinct cols \<Longrightarrow> dict_find (foldl (\<lambda>r c. decode_dict en (to_str (conv en) c) r) r (map VString cols)) (VString s) =
    (if s \<in> set cols then map_option (\<lambda>v. VBytes (base64_to_raw en (to_str (conv en) v))) (dict_find r (VString s))
     else dict_find r (VString s))"
proof (induction cols arbitrary: r)
  case (Cons c cols)
  then show ?case
    by (auto simp: decode_dict_def to_str_def [of _ "VString c"] field_def dict_at_def dict_get_def dict_has_def split: option.splits)
qed simp

end
