(* ===== verification/GdsqliteRuns.thy ===== *)
theory GdsqliteRuns
  imports GdsqliteSpec
begin

text \<open>
  Properties of the class \<open>SQLite\<close>, with a small engine to apply them to: it logs the statements it
  prepares, cuts a text at its semicolons, refuses texts that begin with \<open>BAD\<close>, counts question marks as
  parameters and keeps the transaction flag.
\<close>

section \<open>A small engine\<close>

record demo_world =
  log :: "string list"
  in_transaction :: bool

definition demo_prepare :: "nat \<Rightarrow> string \<Rightarrow> demo_world \<Rightarrow> nat \<times> nat \<times> string \<times> demo_world" where
  "demo_prepare h q w = (if h = 0 \<or> prefix ''BAD'' q then (SQLITE_ERROR, 0, '''', w)
     else (SQLITE_OK, 1, tl (dropWhile (\<lambda>c. c \<noteq> CHR '';'') q),
       w\<lparr>log := log w @ [takeWhile (\<lambda>c. c \<noteq> CHR '';'') q]\<rparr>))"

definition demo_step :: "nat \<Rightarrow> demo_world \<Rightarrow> nat \<times> demo_world" where
  "demo_step st w = (SQLITE_DONE, if log w = [] then w
     else if last (log w) = ''BEGIN TRANSACTION'' then w\<lparr>in_transaction := True\<rparr>
     else if last (log w) = ''END TRANSACTION'' then w\<lparr>in_transaction := False\<rparr> else w)"

definition demo_api :: "demo_world sqlite3_api" where
  "demo_api = \<lparr>
     sqlite3_open_v2 = (\<lambda>p m v w. (if p = ''missing.db'' then SQLITE_CANTOPEN else SQLITE_OK, 1, w)),
     sqlite3_close_v2 = (\<lambda>h w. (SQLITE_OK, w)), sqlite3_close = (\<lambda>h w. (SQLITE_OK, w)),
     sqlite3_busy_timeout = (\<lambda>h n w. w), sqlite3_vfs_register = (\<lambda>w. w), sqlite3_exec = (\<lambda>h q w. (SQLITE_OK, w)),
     sqlite3_prepare_v2 = demo_prepare,
     sqlite3_bind_parameter_count = (\<lambda>st w. length (filter (\<lambda>c. c = CHR ''?'') (last (log w)))),
     sqlite3_bind_parameter_name = (\<lambda>st i w. None), sqlite3_bind = (\<lambda>st i x w. w),
     sqlite3_column_count = (\<lambda>st w. 0), sqlite3_column_name = (\<lambda>st i w. ''''),
     sqlite3_step = demo_step, sqlite3_column = (\<lambda>st i w. SqlNull), sqlite3_finalize = (\<lambda>st w. w),
     sqlite3_errcode = (\<lambda>h w. SQLITE_OK), sqlite3_errmsg = (\<lambda>h w. ''not an error''),
     sqlite3_backup_init = (\<lambda>d s w. (0, w)), sqlite3_backup_step = (\<lambda>b w. w), sqlite3_backup_finish = (\<lambda>b w. w),
     sqlite3_create_function = (\<lambda>h n a f w. (SQLITE_OK, w)), sqlite3_set_last_insert_rowid = (\<lambda>h i w. w),
     sqlite3_last_insert_rowid = (\<lambda>h w. 0), sqlite3_get_autocommit = (\<lambda>h w. if in_transaction w then 0 else 1),
     sqlite3_compileoption_used = (\<lambda>n. 0), sqlite3_enable_load_extension = (\<lambda>h b w. (SQLITE_OK, w)),
     sqlite3_db_config_load_extension = (\<lambda>h b w. w), sqlite3_load_extension = (\<lambda>h p e w. (SQLITE_ERROR, w))\<rparr>"

definition demo_converter :: converter where
  "demo_converter = \<lparr>stringify = (\<lambda>_. ''<null>''), truthy = (\<lambda>_. True), as_bytes = (\<lambda>_. []),
     as_array = (\<lambda>_. []), as_dict = (\<lambda>_. [])\<rparr>"

text \<open>The base64 of the engine stands in as the identity; its JSON parser knows one text.\<close>

definition demo_data :: Variant where
  "demo_data = VArray [VDict [(VString ''name'', VString ''t''), (VString ''sql'', VString ''CREATE TABLE t(a)''),
     (VString ''type'', VString ''table''), (VString ''row_array'', VArray [VNil])]]"

definition demo_engine :: "(demo_world, unit) engine" where
  "demo_engine = \<lparr>conv = demo_converter, globalize_path = (\<lambda>p. p), strip_edges = (\<lambda>s. s), get_extension = (\<lambda>s. ''db''),
     to_lower = (\<lambda>s. s), split_at_dots = (\<lambda>s. [s]), enable_fts5 = False, json_parse = (\<lambda>s. Some demo_data),
     json_stringify = (\<lambda>v. ''[]''), raw_to_base64 = get_string_from_utf8, base64_to_raw = to_utf8_buffer,
     read_text = (\<lambda>p w. None), write_text = (\<lambda>p s w. (True, w)), callable_is_valid = (\<lambda>_. True),
     callv = (\<lambda>_ args. VInt (int (length args)))\<rparr>"

definition demo_start :: "(demo_world, unit) SQLite" where
  "demo_start = (SQLite_new \<lparr>log = [], in_transaction = False\<rparr>)\<lparr>db_ptr := 1\<rparr>"

lemmas demo_defs = demo_api_def demo_engine_def demo_prepare_def demo_step_def demo_start_def SQLite_new_def
  demo_converter_def

lemma demo_step_done: "sqlite3_step demo_api st w = (SQLITE_DONE, snd (demo_step st w))"
  by (simp add: demo_api_def demo_step_def)

lemma demo_stops: "stops demo_api st w"
  by (rule last_step) (simp add: demo_step_done)

lemma demo_tail_shrinks: "tail_shrinks demo_api"
proof -
  have "length (tl (dropWhile P q)) < length q" if "tl (dropWhile P q) \<noteq> []" for P :: "char \<Rightarrow> bool" and q
    using that length_dropWhile_le [of P q] by (cases "dropWhile P q") auto
  then show ?thesis by (simp add: tail_shrinks_def demo_api_def demo_prepare_def)
qed

section \<open>Texts of several statements\<close>

text \<open>C33: A text of several statements runs them one after the other. When SQLite cuts a text after each of
  its statements, \<open>query_with_bindings\<close> on the whole text does what it does on the first statement, then, if
  that succeeded, on the next with the bindings that are left, and so on; the first failure ends it.\<close>

theorem script_runs_in_order:
  assumes "separated api en qs" "qs \<noteq> []"
  shows "query_with_bindings api en (concat qs) bs S = run_script api en qs bs S"
  using assms by (rule script_is_sequence)

theorem script_runs_in_order_witness:
  "query_with_bindings demo_api demo_engine ''A ?;B'' [VInt 1] demo_start =
   run_script demo_api demo_engine [''A ?;'', ''B''] [VInt 1] demo_start"
proof -
  have "separated demo_api demo_engine [''A ?;'', ''B'']"
    by (simp add: splits_after_def demo_api_def demo_engine_def demo_prepare_def)
  from script_runs_in_order [OF this, of "[VInt 1]" demo_start] show ?thesis by simp
qed



section \<open>Tables and rows\<close>


definition demo_table :: Dictionary where
  "demo_table = [(VString ''id'', VDict [(VString ''data_type'', VString ''int''), (VString ''primary_key'', VBool True)]),
     (VString ''n'', VDict [(VString ''data_type'', VString ''text''), (VString ''not_null'', VBool True)])]"

lemmas demo_table_defs = demo_table_def valid_column_def default_fits_def column_of_def flag_def field_def dict_get_def dict_at_def dict_has_def dict_find_def
  variant_conversions get_type_def demo_engine_def demo_converter_def dict_key_def


text \<open>The state after a method is the one after \<open>END TRANSACTION\<close>, but for the message.\<close>

definition ended :: "'w sqlite3_api \<Rightarrow> ('w, 'c) engine \<Rightarrow> ('w, 'c) SQLite \<Rightarrow> bool" where
  "ended api en S \<longleftrightarrow> (\<exists>S0 ok S1. query api en ''END TRANSACTION;'' S0 = Some (ok, S1) \<and>
     S = S1\<lparr>error_message := error_message S\<rparr>)"

lemma query_then_ended: "query_then api en ''END TRANSACTION;'' S0 = Some S \<Longrightarrow> ended api en S"
  by (cases "query api en ''END TRANSACTION;'' S0") (auto simp: query_then_def ended_def intro!: exI [of _ S0])

lemma end_transaction_ended: "end_transaction api en S0 = Some S \<Longrightarrow> ended api en S"
  by (auto simp: end_transaction_def query_then_def ended_def bind_eq_Some_conv intro!: exI [of _ S0])

lemma insert_each_ended: "insert_each api en name rows S = Some (ok, S') \<Longrightarrow> ended api en S'"
proof (induction rows arbitrary: S)
  case Nil
  then show ?case by (auto simp: bind_eq_Some_conv intro: query_then_ended)
next
  case (Cons r rs)
  show ?case
  proof (cases "get_type r \<noteq> 27")
    case True
    then show ?thesis using Cons.prems by (auto simp: bind_eq_Some_conv intro: query_then_ended)
  next
    case False
    then obtain b S1 where "insert_row api en name (to_dict (conv en) r) S = Some (b, S1)"
      and "(if \<not> b then Option.bind (end_transaction api en S1) (\<lambda>S. Some (False, S)) else insert_each api en name rs S1) = Some (ok, S')"
      using Cons.prems by (auto simp: bind_eq_Some_conv)
    then show ?thesis using Cons.IH by (cases b) (auto simp: bind_eq_Some_conv intro: end_transaction_ended)
  qed
qed

text \<open>C36: Every change of rows ends its transaction. Whenever \<open>insert_rows\<close>, \<open>update_rows\<close> or \<open>delete_rows\<close>
  returns, whatever failed in between, the last statement it ran is \<open>END TRANSACTION\<close>; only the message of
  an earlier error may be put back after it.\<close>

theorem changes_end_transaction:
  "(insert_rows api en name rows S = Some (ok, S') \<longrightarrow> ended api en S') \<and>
   (update_rows api en name cond row S = Some (ok, S') \<longrightarrow> ended api en S') \<and>
   (delete_rows api en name cond S = Some (ok, S') \<longrightarrow> ended api en S')"
  by (auto simp: insert_rows_def update_rows_def delete_rows_def bind_eq_Some_conv split_beta
      intro: insert_each_ended end_transaction_ended)

theorem changes_end_transaction_witness:
  "\<exists>S'. delete_rows demo_api demo_engine ''t'' ''*'' demo_start = Some (True, S') \<and> ended demo_api demo_engine S'"
proof -
  have "\<exists>S'. delete_rows demo_api demo_engine ''t'' ''*'' demo_start = Some (True, S')"
    by (simp add: delete_rows_def query_then_def end_transaction_def query_def query_with_bindings.simps
        prepare_statement_def execute_statement_def step_all.simps demo_defs)
  then show ?thesis using changes_end_transaction [of demo_api demo_engine] by blast
qed

section \<open>Blobs through an export\<close>

text \<open>C37: Blobs survive an export and an import. When decoding undoes the base64 encoding, every row that
  was encoded for an export and decoded again by an import holds, in each encoded column, the bytes of the
  value it had, and in every other column the value itself. So rows with blobs in those columns come back
  entry for entry; another value in a column that the first row made binary is lost but for what the
  engine reads from it as bytes.\<close>

theorem blobs_survive_export:
  assumes "\<forall>b. base64_to_raw en (raw_to_base64 en b) = b" "distinct cols" "i < length rows"
  shows "\<exists>d. decode_rows en (map VString cols) (map VDict (encode_rows en cols rows)) ! i = VDict d \<and>
    (\<forall>s. dict_find d (VString s) =
      (if s \<in> set cols then Some (VBytes (to_bytes (conv en) (dict_at (rows ! i) (VString s))))
       else dict_find (rows ! i) (VString s))) \<and>
    ((\<forall>s \<in> set cols. \<exists>b. dict_find (rows ! i) (VString s) = Some (VBytes b)) \<longrightarrow>
      (\<forall>s. dict_find d (VString s) = dict_find (rows ! i) (VString s)))"
proof -
  let ?e = "foldl (\<lambda>r c. encode_row en c r) (rows ! i) cols"
  let ?d = "foldl (\<lambda>r c. decode_dict en (to_str (conv en) c) r) ?e (map VString cols)"
  have n: "decode_rows en (map VString cols) (map VDict (encode_rows en cols rows)) ! i = VDict ?d"
    unfolding decode_rows_map encode_rows_map using assms(3) by simp
  have f: "dict_find ?d (VString s) =
      (if s \<in> set cols then Some (VBytes (to_bytes (conv en) (dict_at (rows ! i) (VString s))))
       else dict_find (rows ! i) (VString s))" for s
    unfolding decode_all_find [OF assms(2)] encode_all_find [OF assms(2)]
    by (simp add: to_str_def assms(1) [rule_format])
  moreover have "dict_find ?d (VString s) = dict_find (rows ! i) (VString s)"
    if "\<forall>s \<in> set cols. \<exists>b. dict_find (rows ! i) (VString s) = Some (VBytes b)" for s
    unfolding f using that by (auto simp: dict_at_def dict_get_def to_bytes_def)
  ultimately show ?thesis using n by blast
qed

theorem blobs_survive_export_witness:
  "\<exists>d. decode_rows demo_engine [VString ''b''] (map VDict (encode_rows demo_engine [''b'']
      [[(VString ''b'', VBytes [1, 2]), (VString ''n'', VInt 5)]])) ! 0 = VDict d \<and>
    dict_find d (VString ''b'') = Some (VBytes [1, 2]) \<and> dict_find d (VString ''n'') = Some (VInt 5)"
proof -
  have "unat y mod 256 = unat y" for y :: byte using unsigned_less [of y, where ?'a = nat] by simp
  then have b: "to_utf8_buffer (get_string_from_utf8 x) = x" for x
    by (simp add: get_string_from_utf8_def to_utf8_buffer_def comp_def)
  have "\<forall>b. base64_to_raw demo_engine (raw_to_base64 demo_engine b) = b" by (simp add: demo_engine_def b)
  from blobs_survive_export [OF this, of "[''b'']" 0 "[[(VString ''b'', VBytes [1, 2]), (VString ''n'', VInt 5)]]"]
  obtain d where "decode_rows demo_engine [VString ''b''] (map VDict (encode_rows demo_engine [''b'']
      [[(VString ''b'', VBytes [1, 2]), (VString ''n'', VInt 5)]])) ! 0 = VDict d"
    and d: "\<forall>s. dict_find d (VString s) = dict_find [(VString ''b'', VBytes [1, 2]), (VString ''n'', VInt 5)] (VString s)"
    by (auto simp: dict_find_def)
  moreover have "dict_find d (VString ''b'') = Some (VBytes [1, 2])" "dict_find d (VString ''n'') = Some (VInt 5)"
    using d by (simp_all add: dict_find_def)
  ultimately show ?thesis by blast
qed

section \<open>Arguments of a function\<close>

text \<open>A null argument repeats the argument before it. A valid callable is called with as many arguments
  as SQLite passes; an argument that is not null is its value, the first one is nil if it is null, but any
  other null argument is passed as the value of its predecessor.\<close>

theorem null_argument_repeats:
  "function_callback en f xs = (if \<not> callable_is_valid en f then Result SqlNull
     else callback_output (callv en f (callback_args VNil xs))) \<and>
   length (callback_args VNil xs) = length xs \<and>
   (\<forall>i < length xs. callback_args VNil xs ! i =
     (if xs ! i \<noteq> SqlNull then argument_of (xs ! i) else if i = 0 then VNil else callback_args VNil xs ! (i - 1)))"
  by (simp add: function_callback_def callback_args_nth)

theorem null_argument_repeats_witness: "callback_args VNil [SqlInt 5, SqlNull] = [VInt 5, VInt 5]"
proof -
  have "length (callback_args VNil [SqlInt 5, SqlNull]) = 2 \<and> callback_args VNil [SqlInt 5, SqlNull] ! 0 = VInt 5 \<and>
      callback_args VNil [SqlInt 5, SqlNull] ! 1 = callback_args VNil [SqlInt 5, SqlNull] ! 0"
    using null_argument_repeats [of demo_engine "()" "[SqlInt 5, SqlNull]"]
    by (auto simp: argument_of_def numeral_2_eq_2)
  then show ?thesis by (simp add: Let_def)
qed

section \<open>A database that cannot be opened\<close>

text \<open>C38: A failed open keeps its handle. SQLite gives a connection to be closed even when it cannot open the
  file. \<open>open_db\<close> stores it and answers false; from then on every \<open>open_db\<close>, with whatever path, answers false
  without trying, and only a \<open>close_db\<close> that succeeds makes the object usable again.\<close>

theorem failed_open_keeps_handle:
  assumes "db_ptr S = 0" "read_only S = False"
    and "sqlite3_open_v2 api (normalize_path en (full_path en S) False) OpenReadwriteCreateUri None (world S) = (rc, h, w)"
    and "rc \<noteq> SQLITE_OK" "h \<noteq> 0"
  shows "\<exists>S'. open_db api en S = (False, S') \<and> db_ptr S' = h \<and>
      (\<forall>p ro. open_db api en (S'\<lparr>path := p, read_only := ro\<rparr>) = (False, S'\<lparr>path := p, read_only := ro\<rparr>)) \<and>
      (\<forall>w'. sqlite3_close_v2 api h w = (SQLITE_OK, w') \<longrightarrow> close_db api S' = (True, S'\<lparr>db_ptr := 0, world := w'\<rparr>))"
proof -
  let ?S = "S\<lparr>path := normalize_path en (full_path en S) False, db_ptr := h, world := w\<rparr>"
  have "open_db api en S = (False, ?S)" using assms by (simp add: open_db_def Let_def)
  then show ?thesis using assms(5) by (auto simp: open_db_def close_db_def)
qed

theorem failed_open_keeps_handle_witness:
  "\<exists>S'. open_db demo_api demo_engine (demo_start\<lparr>db_ptr := 0, path := ''missing.db''\<rparr>) = (False, S') \<and>
    open_db demo_api demo_engine (S'\<lparr>path := ''other.db'', read_only := False\<rparr>) = (False, S'\<lparr>path := ''other.db'', read_only := False\<rparr>)"
proof -
  let ?S = "demo_start\<lparr>db_ptr := 0, path := ''missing.db''\<rparr>"
  have "\<exists>S'. open_db demo_api demo_engine ?S = (False, S') \<and> db_ptr S' = 1 \<and>
      (\<forall>p ro. open_db demo_api demo_engine (S'\<lparr>path := p, read_only := ro\<rparr>) = (False, S'\<lparr>path := p, read_only := ro\<rparr>)) \<and>
      (\<forall>w'. sqlite3_close_v2 demo_api 1 (world demo_start) = (SQLITE_OK, w') \<longrightarrow> close_db demo_api S' = (True, S'\<lparr>db_ptr := 0, world := w'\<rparr>))"
    by (rule failed_open_keeps_handle [of ?S demo_api demo_engine SQLITE_CANTOPEN 1 "world demo_start"])
      (simp_all add: demo_defs full_path_def normalize_path_def)
  then show ?thesis by blast
qed

text \<open>The class \<open>SQLiteDB\<close> closes the connection in the same situation and holds none.\<close>

lemma SQLiteDB_closes_failed_open:
  "sqlite3_open_v2 api (fs (String_of_chars p)) OpenReadwriteCreate None w = (rc, h, w') \<Longrightarrow> rc \<noteq> SQLITE_OK \<Longrightarrow>
   h \<noteq> 0 \<Longrightarrow> SQLiteDB_new api fs p False w = (0, snd (sqlite3_close api h w'))"
  by (simp add: SQLiteDB_new_def)

section \<open>An import that fails\<close>

text \<open>A run in which a row of the imported table is not a dictionary: the import answers false and leaves the
  transaction it began open, with all old tables dropped.\<close>

lemma failed_import_leaves_transaction:
  "map_option (\<lambda>(ok, S). (ok, drop 2 (log (world S)), get_autocommit demo_api S))
     (import_from_buffer demo_api demo_engine [] demo_start) =
   Some (False, [''BEGIN TRANSACTION'', ''PRAGMA defer_foreign_keys=on'', ''CREATE TABLE t(a)''], 0)"
  by (simp add: import_from_buffer_def drop_everything_def import_objects_def query_then_def query_def
      query_with_bindings.simps prepare_statement_def execute_statement_def step_all.simps demo_defs
      validate_object_def demo_data_def dict_find_def dict_has_def dict_at_def dict_get_def is_text_def field_def
      variant_conversions get_type_def drop_views_def drop_tables_def decode_rows_def get_autocommit_def)

end
