(* ===== verification/GodotVfs.thy ===== *)
theory GodotVfs
  imports SqliteApi
begin

unbundle bit_operations_syntax

text \<open>
  The file system that the extension gives to SQLite for databases opened read-only
  (src/src/gdsqlite/vfs): \<open>gdsqlite_file\<close>, an open file, and the operations of the VFS named \<open>godot\<close>. The
  file classes of the engine (\<open>FileAccess\<close>, \<open>DirAccess\<close>), its clock and the generator of the C library are a
  record of functions on the world; a file is a reference, 0 the null reference. \<open>None\<close> stands for
  undefined behaviour: memory read or written outside a buffer, a null reference used, a variable read
  before it is set.
\<close>

section \<open>The engine\<close>

datatype ModeFlags = READ | READ_WRITE | WRITE_READ

record 'w file_access =
  fa_open :: "string \<Rightarrow> ModeFlags \<Rightarrow> 'w \<Rightarrow> nat \<times> nat \<times> 'w"
  file_exists :: "string \<Rightarrow> 'w \<Rightarrow> bool"
  is_open :: "nat \<Rightarrow> 'w \<Rightarrow> bool"
  fa_close :: "nat \<Rightarrow> 'w \<Rightarrow> 'w"
  fa_seek :: "nat \<Rightarrow> nat \<Rightarrow> 'w \<Rightarrow> 'w"
  get_position :: "nat \<Rightarrow> 'w \<Rightarrow> nat"
  get_length :: "nat \<Rightarrow> 'w \<Rightarrow> nat"
  get_buffer :: "nat \<Rightarrow> nat \<Rightarrow> 'w \<Rightarrow> byte list \<times> 'w"
  store_buffer :: "nat \<Rightarrow> byte list \<Rightarrow> 'w \<Rightarrow> 'w"
  get_base_dir :: "string \<Rightarrow> string"
  dir_open :: "string \<Rightarrow> 'w \<Rightarrow> nat \<times> 'w"
  dir_remove :: "nat \<Rightarrow> string \<Rightarrow> 'w \<Rightarrow> 'w"
  unix_time :: "'w \<Rightarrow> nat"
  c_srand :: "nat \<Rightarrow> 'w \<Rightarrow> 'w"
  c_rand :: "'w \<Rightarrow> int \<times> 'w"
  delay_usec :: "int \<Rightarrow> 'w \<Rightarrow> 'w"

abbreviation SQLITE_IOERR :: nat where "SQLITE_IOERR \<equiv> 10"
abbreviation SQLITE_NOTFOUND :: nat where "SQLITE_NOTFOUND \<equiv> 12"
abbreviation SQLITE_IOERR_READ :: nat where "SQLITE_IOERR_READ \<equiv> 266"
abbreviation SQLITE_IOERR_SHORT_READ :: nat where "SQLITE_IOERR_SHORT_READ \<equiv> 522"
abbreviation SQLITE_IOERR_WRITE :: nat where "SQLITE_IOERR_WRITE \<equiv> 778"
abbreviation SQLITE_IOERR_CLOSE :: nat where "SQLITE_IOERR_CLOSE \<equiv> 4106"

section \<open>An open file\<close>

text \<open>\<open>p\<close> is the reference held by the \<open>gdsqlite_file\<close>, not null while SQLite uses the file. A result is the code SQLite gets, what the operation
  writes through its pointers, and the world.\<close>

definition vfs_close :: "'w file_access \<Rightarrow> nat \<Rightarrow> 'w \<Rightarrow> nat \<times> nat \<times> 'w" where
  "vfs_close fa p w = (if \<not> is_open fa p w then (SQLITE_IOERR_CLOSE, p, w)
     else (SQLITE_OK, 0, fa_close fa p w))"

definition vfs_read :: "'w file_access \<Rightarrow> nat \<Rightarrow> byte list \<Rightarrow> nat \<Rightarrow> nat \<Rightarrow> 'w \<Rightarrow> (nat \<times> byte list \<times> 'w) option" where
  "vfs_read fa p zBuf iAmt iOfst w = (if \<not> is_open fa p w then Some (SQLITE_IOERR_CLOSE, zBuf, w) else
     let w = fa_seek fa p iOfst w in
     if get_position fa p w \<noteq> iOfst then Some (SQLITE_IOERR_READ, zBuf, w) else
     let (arr, w) = get_buffer fa p iAmt w in
     if length arr < iAmt \<or> length zBuf < iAmt then None else
     let zBuf = take iAmt arr @ drop iAmt zBuf in
     if length arr = iAmt then Some (SQLITE_OK, zBuf, w) else Some (SQLITE_IOERR_SHORT_READ, zBuf, w))"

definition vfs_write :: "'w file_access \<Rightarrow> nat \<Rightarrow> byte list \<Rightarrow> nat \<Rightarrow> nat \<Rightarrow> 'w \<Rightarrow> (nat \<times> 'w) option" where
  "vfs_write fa p zBuf iAmt iOfst w = (if \<not> is_open fa p w then Some (SQLITE_IOERR_CLOSE, w) else
     let w = fa_seek fa p iOfst w in
     if get_position fa p w \<noteq> iOfst then Some (SQLITE_IOERR_READ, w) else
     if length zBuf < iAmt then None else
     let w = store_buffer fa p (take iAmt zBuf) w in
     if int (get_position fa p w) - int iOfst \<noteq> int iAmt then Some (SQLITE_IOERR_WRITE, w) else Some (SQLITE_OK, w))"

definition vfs_truncate :: "nat \<Rightarrow> 'w \<Rightarrow> nat \<times> 'w" where
  "vfs_truncate sz w = (SQLITE_OK, w)"

definition vfs_sync :: "'w \<Rightarrow> nat \<times> 'w" where
  "vfs_sync w = (SQLITE_OK, w)"

definition vfs_fileSize :: "'w file_access \<Rightarrow> nat \<Rightarrow> 'w \<Rightarrow> nat \<times> nat option" where
  "vfs_fileSize fa p w = (if \<not> is_open fa p w then (SQLITE_IOERR_CLOSE, None)
     else (SQLITE_OK, Some (get_length fa p w)))"

definition vfs_lock :: "nat \<Rightarrow> nat" where
  "vfs_lock eLock = SQLITE_OK"

definition vfs_unlock :: "nat \<Rightarrow> nat" where
  "vfs_unlock eLock = SQLITE_OK"

definition vfs_checkReservedLock :: "nat \<times> int" where
  "vfs_checkReservedLock = (SQLITE_OK, 0)"

definition vfs_fileControl :: "nat \<Rightarrow> nat" where
  "vfs_fileControl op = SQLITE_NOTFOUND"

definition vfs_sectorSize :: int where
  "vfs_sectorSize = 0"

definition vfs_deviceCharacteristics :: int where
  "vfs_deviceCharacteristics = 0"

section \<open>The file system\<close>

text \<open>The mode for the flags of SQLite; \<open>None\<close> when no flag sets \<open>godot_flags\<close>.\<close>

definition godot_mode :: "'w file_access \<Rightarrow> string \<Rightarrow> 32 word \<Rightarrow> 'w \<Rightarrow> ModeFlags option" where
  "godot_mode fa name flags w =
     (let m = (if flags AND 1 \<noteq> 0 then Some READ else None) in
      if flags AND 2 \<noteq> 0 then
        (if flags AND 4 \<noteq> 0 then (if file_exists fa name w then Some READ_WRITE else Some WRITE_READ)
         else Some READ_WRITE)
      else m)"

text \<open>The code, the file, \<open>*pOutFlags\<close> if it is set, and the world. \<open>zName\<close> is \<open>None\<close> for the null pointer.\<close>

definition gdsqlite_vfs_open :: "'w file_access \<Rightarrow> string option \<Rightarrow> 32 word \<Rightarrow> bool \<Rightarrow> 'w \<Rightarrow>
    (nat \<times> nat \<times> 32 word option \<times> 'w) option" where
  "gdsqlite_vfs_open fa zName flags hasOut w = (case zName of None \<Rightarrow> Some (SQLITE_IOERR, 0, None, w)
     | Some name \<Rightarrow> Option.bind (godot_mode fa (String_of_chars name) flags w) (\<lambda>mode.
         let (f, err, w) = fa_open fa (String_of_chars name) mode w in
         if err \<noteq> 0 then Some (SQLITE_CANTOPEN, 0, None, w)
         else Some (SQLITE_OK, f, if hasOut then Some flags else None, w)))"

definition gdsqlite_vfs_delete :: "'w file_access \<Rightarrow> string \<Rightarrow> 'w \<Rightarrow> (nat \<times> 'w) option" where
  "gdsqlite_vfs_delete fa zPath w =
     (let (dir, w) = dir_open fa (get_base_dir fa (String_of_chars zPath)) w in
      if dir = 0 then None else Some (SQLITE_OK, dir_remove fa dir (String_of_chars zPath) w))"

text \<open>The flags are 0 for existence, 1 for reading and writing, 2 for reading; \<open>res\<close> is \<open>*pResOut\<close> before.
  A file opened only to see whether it can be is closed with its reference.\<close>

definition gdsqlite_vfs_access :: "'w file_access \<Rightarrow> string \<Rightarrow> nat \<Rightarrow> bool \<Rightarrow> 'w \<Rightarrow> nat \<times> bool \<times> 'w" where
  "gdsqlite_vfs_access fa zPath flags res w =
     (if flags = 0 then (SQLITE_OK, file_exists fa (String_of_chars zPath) w, w)
      else if flags = 1 then
        (let (f, err, w) = fa_open fa (String_of_chars zPath) READ_WRITE w in
         (SQLITE_OK, err = 0, if f = 0 then w else fa_close fa f w))
      else if flags = 2 then
        (let (f, err, w) = fa_open fa (String_of_chars zPath) READ w in
         (SQLITE_OK, err = 0, if f = 0 then w else fa_close fa f w))
      else (SQLITE_OK, res, w))"

abbreviation NUL :: char where "NUL \<equiv> CHR 0x00"

text \<open>\<open>zPath\<close> with its final NUL is the memory \<open>zPath[0], zPath[1], ...\<close>.\<close>

fun path_loop :: "nat \<Rightarrow> nat \<Rightarrow> string \<Rightarrow> string \<Rightarrow> string option" where
  "path_loop 0 i zPath out = Some out"
| "path_loop (Suc n) i zPath out = (if i \<ge> length zPath \<or> i \<ge> length out then None else
     let out = out[i := zPath ! i] in
     if zPath ! i = NUL then Some out else path_loop n (i + 1) zPath out)"

definition gdsqlite_vfs_fullPathname :: "string \<Rightarrow> nat \<Rightarrow> string \<Rightarrow> (nat \<times> string) option" where
  "gdsqlite_vfs_fullPathname zPath nPathOut out =
     map_option (\<lambda>out. (SQLITE_OK, out)) (path_loop nPathOut 0 zPath out)"

definition gdsqlite_vfs_dlOpen :: nat where
  "gdsqlite_vfs_dlOpen = 0"

text \<open>\<open>sqlite3_snprintf(n, buf, text)\<close> writes at most \<open>n - 1\<close> characters and a NUL, nothing if \<open>n\<close> is 0.\<close>

definition sqlite3_snprintf :: "nat \<Rightarrow> string \<Rightarrow> string \<Rightarrow> string" where
  "sqlite3_snprintf n buf text = (if n = 0 then buf else
     let s = take (n - 1) text @ [NUL] in s @ drop (length s) buf)"

definition gdsqlite_vfs_dlError :: "nat \<Rightarrow> string \<Rightarrow> string option" where
  "gdsqlite_vfs_dlError nBytes errMsg =
     (let buf = sqlite3_snprintf nBytes errMsg ''Loadable extensions are not supported'' in
      if nBytes = 0 \<or> length buf < nBytes then None else Some (buf[nBytes - 1 := NUL]))"

definition gdsqlite_vfs_dlSym :: nat where
  "gdsqlite_vfs_dlSym = 0"

definition gdsqlite_vfs_dlClose :: "'w \<Rightarrow> 'w" where
  "gdsqlite_vfs_dlClose w = w"

fun random_bytes :: "'w file_access \<Rightarrow> nat \<Rightarrow> 'w \<Rightarrow> byte list \<times> 'w" where
  "random_bytes fa 0 w = ([], w)"
| "random_bytes fa (Suc n) w = (let (r, w) = c_rand fa w; (bs, w) = random_bytes fa n w in (word_of_int r # bs, w))"

definition gdsqlite_vfs_randomness :: "'w file_access \<Rightarrow> nat \<Rightarrow> 'w \<Rightarrow> nat \<times> byte list \<times> 'w" where
  "gdsqlite_vfs_randomness fa nByte w =
     (let (bs, w) = random_bytes fa nByte (c_srand fa (unix_time fa w mod 2 ^ 32) w) in (SQLITE_OK, bs, w))"

definition gdsqlite_vfs_sleep :: "'w file_access \<Rightarrow> int \<Rightarrow> 'w \<Rightarrow> int \<times> 'w" where
  "gdsqlite_vfs_sleep fa nMicro w = (nMicro, delay_usec fa nMicro w)"

text \<open>The day is computed without the rounding of doubles.\<close>

definition gdsqlite_vfs_currentTime :: "'w file_access \<Rightarrow> 'w \<Rightarrow> nat \<times> rat" where
  "gdsqlite_vfs_currentTime fa w = (SQLITE_OK, of_nat (unix_time fa w) / 86400 + 4881175 / 2)"

definition gdsqlite_vfs_getLastError :: nat where
  "gdsqlite_vfs_getLastError = 0"

definition gdsqlite_vfs_currentTimeInt64 :: "'w file_access \<Rightarrow> 'w \<Rightarrow> nat \<times> 64 word" where
  "gdsqlite_vfs_currentTimeInt64 fa w = (SQLITE_OK, of_nat (unix_time fa w) + 210866760000)"

section \<open>Files of bytes\<close>

text \<open>What the documentation of \<open>FileAccess\<close> says of an open file, where \<open>contents\<close> are its bytes: \<open>seek\<close> sets the
  position, \<open>get_buffer\<close> returns the bytes from there on, fewer when the file ends, and \<open>store_buffer\<close>
  writes over the bytes from there on and moves the position behind them.\<close>

definition overwrite :: "nat \<Rightarrow> byte list \<Rightarrow> byte list \<Rightarrow> byte list" where
  "overwrite n b xs = take n (xs @ replicate (n - length xs) 0) @ b @ drop (n + length b) xs"

definition seek_documented :: "'w file_access \<Rightarrow> (nat \<Rightarrow> 'w \<Rightarrow> byte list) \<Rightarrow> bool" where
  "seek_documented fa contents \<longleftrightarrow> (\<forall>f n w. is_open fa f w \<longrightarrow> is_open fa f (fa_seek fa f n w) \<and>
     get_position fa f (fa_seek fa f n w) = n \<and> contents f (fa_seek fa f n w) = contents f w)"

definition get_buffer_documented :: "'w file_access \<Rightarrow> (nat \<Rightarrow> 'w \<Rightarrow> byte list) \<Rightarrow> bool" where
  "get_buffer_documented fa contents \<longleftrightarrow> (\<forall>f n w. is_open fa f w \<longrightarrow>
     fst (get_buffer fa f n w) = take n (drop (get_position fa f w) (contents f w)) \<and>
     is_open fa f (snd (get_buffer fa f n w)) \<and> contents f (snd (get_buffer fa f n w)) = contents f w)"

definition store_buffer_documented :: "'w file_access \<Rightarrow> (nat \<Rightarrow> 'w \<Rightarrow> byte list) \<Rightarrow> bool" where
  "store_buffer_documented fa contents \<longleftrightarrow> (\<forall>f b w. is_open fa f w \<longrightarrow> is_open fa f (store_buffer fa f b w) \<and>
     get_position fa f (store_buffer fa f b w) = get_position fa f w + length b \<and>
     contents f (store_buffer fa f b w) = overwrite (get_position fa f w) b (contents f w))"

lemma length_overwrite: "length (overwrite n b xs) = max (length xs) (n + length b)"
  by (simp add: overwrite_def)

lemma overwrite_there: "take (length b) (drop n (overwrite n b xs)) = b"
  by (simp add: overwrite_def)

lemma overwrite_elsewhere:
  assumes "i < length xs" "i < n \<or> n + length b \<le> i"
  shows "overwrite n b xs ! i = xs ! i"
  using assms by (auto simp: overwrite_def nth_append min_def)

lemma vfs_read_documented:
  assumes "seek_documented fa contents" "get_buffer_documented fa contents" "is_open fa p w" "n \<le> length zBuf"
  shows "if n = 0 \<or> ofs + n \<le> length (contents p w) then
      \<exists>w'. vfs_read fa p zBuf n ofs w = Some (SQLITE_OK, take n (drop ofs (contents p w)) @ drop n zBuf, w') \<and>
        is_open fa p w' \<and> contents p w' = contents p w
    else vfs_read fa p zBuf n ofs w = None"
proof -
  let ?w = "fa_seek fa p ofs w"
  have s: "is_open fa p ?w" "get_position fa p ?w = ofs" "contents p ?w = contents p w"
    using assms(1,3) by (simp_all add: seek_documented_def)
  obtain arr w' where g: "get_buffer fa p n ?w = (arr, w')" by force
  have "fst (get_buffer fa p n ?w) = take n (drop ofs (contents p w)) \<and>
      is_open fa p (snd (get_buffer fa p n ?w)) \<and> contents p (snd (get_buffer fa p n ?w)) = contents p ?w"
    using assms(2) s unfolding get_buffer_documented_def by metis
  then have b: "arr = take n (drop ofs (contents p w))" "is_open fa p w'" "contents p w' = contents p w"
    using g s(3) by auto
  show ?thesis using assms(3,4) b by (auto simp: vfs_read_def Let_def s g)
qed

lemma vfs_write_documented:
  assumes "seek_documented fa contents" "store_buffer_documented fa contents" "is_open fa p w"
  shows "\<exists>w'. vfs_write fa p buf (length buf) ofs w = Some (SQLITE_OK, w') \<and> is_open fa p w' \<and>
    contents p w' = overwrite ofs buf (contents p w)"
proof -
  let ?w = "fa_seek fa p ofs w"
  have s: "is_open fa p ?w" "get_position fa p ?w = ofs" "contents p ?w = contents p w"
    using assms(1,3) by (simp_all add: seek_documented_def)
  have b: "is_open fa p (store_buffer fa p buf ?w)" "get_position fa p (store_buffer fa p buf ?w) = ofs + length buf"
    "contents p (store_buffer fa p buf ?w) = overwrite ofs buf (contents p w)"
    using assms(2) s unfolding store_buffer_documented_def by (metis, metis, metis)
  then show ?thesis using assms(3) by (simp add: vfs_write_def s Let_def)
qed

text \<open>A file in memory that behaves as documented: its bytes and the position.\<close>

definition memory_file :: "(byte list \<times> nat) file_access" where
  "memory_file = \<lparr>fa_open = (\<lambda>_ _ w. (1, 0, w)), file_exists = (\<lambda>_ _. True), is_open = (\<lambda>_ _. True),
     fa_close = (\<lambda>_ w. w), fa_seek = (\<lambda>_ n w. (fst w, n)), get_position = (\<lambda>_ w. snd w),
     get_length = (\<lambda>_ w. length (fst w)),
     get_buffer = (\<lambda>_ n w. (take n (drop (snd w) (fst w)), (fst w, min (snd w + n) (length (fst w))))),
     store_buffer = (\<lambda>_ b w. (overwrite (snd w) b (fst w), snd w + length b)),
     get_base_dir = (\<lambda>s. s), dir_open = (\<lambda>_ w. (1, w)), dir_remove = (\<lambda>_ _ w. w), unix_time = (\<lambda>_. 0),
     c_srand = (\<lambda>_ w. w), c_rand = (\<lambda>w. (4, w)), delay_usec = (\<lambda>_ w. w)\<rparr>"

lemma memory_file_documented:
  "seek_documented memory_file (\<lambda>_. fst)" "get_buffer_documented memory_file (\<lambda>_. fst)"
  "store_buffer_documented memory_file (\<lambda>_. fst)"
  by (simp_all add: seek_documented_def get_buffer_documented_def store_buffer_documented_def memory_file_def)

section \<open>Properties\<close>



text \<open>C40: A read that goes past the end of the file is undefined. With files as documented, a read inside
  the file succeeds and returns its bytes; of every other read the code copies more bytes than
  \<open>get_buffer\<close> returned, so it never gets to its answer \<open>SQLITE_IOERR_SHORT_READ\<close>, which SQLite relies on
  when it reads the header of an empty file.\<close>

theorem vfs_read_never_short:
  assumes "seek_documented fa contents" "get_buffer_documented fa contents"
    and "is_open fa p w" "n \<le> length zBuf" "0 < n"
  shows "(vfs_read fa p zBuf n ofs w = None \<longleftrightarrow> length (contents p w) < ofs + n) \<and>
    (\<forall>rc out w'. vfs_read fa p zBuf n ofs w = Some (rc, out, w') \<longrightarrow>
      rc = SQLITE_OK \<and> out = take n (drop ofs (contents p w)) @ drop n zBuf \<and> contents p w' = contents p w)"
  using vfs_read_documented [OF assms(1-4), of ofs] assms(5) by (auto split: if_splits)

theorem vfs_read_never_short_witness:
  "vfs_read memory_file 1 [0, 0] 2 3 ([1, 2], 0) = None"
  using vfs_read_never_short [OF memory_file_documented(1,2), of 1 "([1, 2], 0)" 2 "[0, 0]" 3]
  by (simp add: memory_file_def)

text \<open>The clock in milliseconds counts seconds: a thousand times its value is the Julian day of the other
  clock in milliseconds.\<close>

lemma clocks_disagree:
  assumes "unix_time fa w < 2 ^ 60"
  shows "of_nat (unat (snd (gdsqlite_vfs_currentTimeInt64 fa w))) * 1000 = snd (gdsqlite_vfs_currentTime fa w) * 86400000"
proof -
  have "unat (of_nat (unix_time fa w) + 210866760000 :: 64 word) = unix_time fa w + 210866760000"
    using assms by (simp add: unat_of_nat unat_word_ariths)
  then show ?thesis
    by (simp add: gdsqlite_vfs_currentTimeInt64_def gdsqlite_vfs_currentTime_def field_simps)
qed

text \<open>The path is copied with its NUL, unless it is as long as the buffer: then there is no NUL in it.\<close>

lemma path_loop_copies:
  assumes "NUL \<notin> set p" "i \<le> length p" "i + n \<le> length out"
  shows "path_loop n i (p @ [NUL]) out =
    Some (take i out @ take n (drop i (p @ [NUL])) @ drop (min (i + n) (Suc (length p))) out)"
  using assms(2,3)
proof (induction n arbitrary: i out)
  case (Suc n)
  have up: "take (Suc i) (out[i := c]) = take i out @ [c]" for c using Suc.prems by (simp add: take_Suc_conv_app_nth take_update_cancel)
  show ?case
  proof (cases "i = length p")
    case True
    then show ?thesis using Suc.prems by (simp add: upd_conv_take_nth_drop nth_append)
  next
    case False
    then have i: "i < length p" using Suc.prems by simp
    then have c: "(p @ [NUL]) ! i = p ! i" "p ! i \<noteq> NUL" using assms(1) by (auto simp: nth_append in_set_conv_nth)
    have d: "drop i p = p ! i # drop (Suc i) p" using i by (simp add: Cons_nth_drop_Suc [symmetric])
    have "drop (min (Suc i + n) (Suc (length p))) (out[i := p ! i]) = drop (min (Suc i + n) (Suc (length p))) out"
      using i by (simp add: drop_update_cancel)
    then show ?thesis using Suc.IH [of "Suc i" "out[i := p ! i]"] Suc.prems i c up by (simp add: d)
  qed
qed simp

lemma fullPathname_copies:
  "NUL \<notin> set p \<Longrightarrow> n \<le> length out \<Longrightarrow> gdsqlite_vfs_fullPathname (p @ [NUL]) n out =
    Some (SQLITE_OK, take n (p @ [NUL]) @ drop (min n (Suc (length p))) out)"
  by (simp add: gdsqlite_vfs_fullPathname_def path_loop_copies)

end
