(* ===== verification/Spec2Isabelle.thy ===== *)
theory Spec2Isabelle
  imports Prelude Wyhash HashTable HashTableInv HashTableLoops HashTableOps HashTableProps HashTableApi HashTableSpec SegmentedVector
    CachePolicy Cache Memo Uuid Sha1 UuidGenerators Float32 Geometry Chunk
    SqliteDb StreamDb StreamDbFacts StreamDbInv StreamDbProps StreamDbBoxes
    SceneCache AsyncWorker StreamNodes StreamManager StreamManagerInv StreamManagerProps StreamFlush StreamSystem
    Variant SqliteApi Gdsqlite GdsqliteTables GdsqliteJson GdsqliteProps GdsqliteSpec GdsqliteRuns GodotVfs
begin

text \<open>
  The streaming world extension for the Godot engine, modelled and verified.

  The program. A \<open>StreamManager\<close> node keeps the part of a large world loaded that lies around the probes
  (\<open>StreamWorldProbe\<close>). Its children are \<open>StreamObjectNode\<close>s, each with an identifier and a box; what is not
  loaded lies as scene files on the disk and as rows in an SQLite database. The manager never talks to the
  database itself: it pushes tasks to a worker thread (\<open>AsyncDbWorker\<close>), which runs them on
  \<open>StreamSqliteDB\<close> and hands the results back to the main thread, once per frame. A query for the boxes of
  the probes returns the objects whose tile meets one of them; the manager then unloads, keeps or queues
  objects. Changes collect over a frame and are flushed as one task that files the objects, their boxes,
  their tiles and those of their ancestors. Unloaded nodes and loaded scenes rest in two LRU caches
  (\<open>ObjectSceneCache\<close>). Beside that the extension registers a class \<open>SQLite\<close> for scripts and a file system
  for SQLite on the files of the engine.

  How the model is written. Data are records and datatypes with the members of the code, integers of a
  width are words or are cut to their width where it matters, and every method is a function from the old
  state to the new one, with every guard and early return a branch. A result in \<open>option\<close> is \<open>None\<close> where the
  C++ has none: an access outside a vector, a dereferenced iterator that is gone, a null reference, an
  undefined shift, a loop that does not end. The proofs show where this cannot happen. What is not source
  code of the repository is an argument: the engine, the C interface of SQLite where the script class uses
  it, \<open>std::log2\<close>, the JSON parser and base64; the hypotheses on them state what their documentation says,
  each as a named predicate, and a witness theorem beside the property applies it to a concrete instance.

  The parts, each with its theories and sources under src/src.

  Containers. \<open>Prelude\<close>: facts on lists and options, and the map and the set of the program as lists of their
  elements in the order of iteration. \<open>Wyhash\<close>: the hash of ankerl/unordered_dense.h. \<open>HashTable\<close>: the table
  itself, robin hood buckets over a dense vector, with every operation of the map and the set;
  \<open>HashTableInv\<close>, \<open>HashTableLoops\<close> and \<open>HashTableOps\<close>: its invariant, what each loop over the buckets does, and
  that the operations keep the invariant; \<open>HashTableProps\<close> and \<open>HashTableApi\<close>: each operation from outside;
  \<open>HashTableSpec\<close>: the contract on lists as the locales \<open>dense_table\<close> and \<open>dense_map\<close>, interpreted on the table,
  and the refinement of lists by every run. That is why the other theories may use the lists of \<open>Prelude\<close>.
  Bound: 6,710,886 elements, four fifths of \<open>2 ^ 23\<close> buckets, because a bucket keeps its distance from
  home in 24 bits; up to there no distance can overflow, for any hash function. \<open>SegmentedVector\<close>: the
  container of blocks the header offers for tables that must not move their elements, as a list.

  Caches. \<open>CachePolicy\<close>: cpp_caches/cache_policy.hpp and the LRU, FIFO and LFU policies, with the nodes of their
  lists and the iterators into them. \<open>Cache\<close>: cpp_caches/cache.hpp over any policy; an LRU cache refines a
  bounded move-to-front list. \<open>Memo\<close>: the contract its clients use, as a locale, interpreted on the LRU cache.

  Identifiers and geometry. \<open>Uuid\<close> and \<open>Sha1\<close>: uuid.h; parsing, printing, generation, and the hasher as a
  state machine against padding and folding, below \<open>2 ^ 29\<close> bytes, where its length counter is exact.
  \<open>UuidGenerators\<close>: the same for wide strings, and the generators on the system and the clock.
  \<open>Float32\<close>: rational numbers rounded to binary32 after every operation. \<open>Geometry\<close>: the vectors and boxes of
  godot-cpp that the program uses. \<open>Chunk\<close>: core/components/chunk.h, the tile of a box.

  Database. \<open>SqliteDb\<close>: core/components/sqlite_db.cpp, the life of a prepared statement. \<open>StreamDb\<close>:
  stream_sqlite_db.cpp; the tables as lists of rows, each statement of the class as a function written from
  its SQL with the constraints, the cascade and the trigger of the schema, each method with its caches.
  \<open>StreamDbFacts\<close>, \<open>StreamDbInv\<close>, \<open>StreamDbProps\<close>, \<open>StreamDbBoxes\<close>: what the methods return, the schema as an
  invariant of every sequence of calls, the subtree a removal deletes, the index and the cache of boxes.
  Tiles are numbered below \<open>2 ^ 31\<close>, since the code reads the rowid as an \<open>int\<close>.

  Streaming. \<open>SceneCache\<close>: object_scene_cache.cpp, the two caches and the asynchronous loads. \<open>AsyncWorker\<close>:
  async_db_worker.cpp; each critical section is a step of an inductive relation over all interleavings of
  the threads. \<open>StreamNodes\<close>: stream_object.cpp and stream_world_probe.cpp. \<open>StreamManager\<close>: stream_manager.cpp,
  every handler with the handlers the engine calls from inside it; \<open>StreamManagerInv\<close> and
  \<open>StreamManagerProps\<close>: the invariant of the queues over every sequence of calls, the removal of a subtree, the
  answer of a query, a frame (at most \<open>max_loads_per_frame\<close>, that is 4, entries of the load queue), unloading
  and loading again. \<open>StreamFlush\<close>: the database tasks, with the loop over the ancestors as a partial
  function, because it does not end on a cycle of parents, which the schema allows; it ends when the chains
  of parents do. The last theorem there goes from the boxes of the probes through the database to the
  registry and the load queue. \<open>StreamSystem\<close>: manager, worker thread and database together, as a step
  relation over all interleavings; every run agrees with the tasks run one after the other, and every
  task can be answered; two theorems show what an answer does that was computed before an object was
  removed or added, a third what is written and what is lost when the manager leaves the tree.

  The class for scripts. \<open>Variant\<close> and \<open>SqliteApi\<close>: the values of scripts, the C interface of SQLite as a
  record, and the connection class of the streaming database on it. \<open>Gdsqlite\<close>, \<open>GdsqliteTables\<close>,
  \<open>GdsqliteJson\<close>: gdsqlite/gdsqlite.cpp; queries, the SQL the class writes, import and export. \<open>GdsqliteProps\<close>,
  \<open>GdsqliteSpec\<close>, \<open>GdsqliteRuns\<close>: a text of several statements is their sequence and returns, the text of a
  table against a declarative definition, transactions, blobs, and the runs in which a failed open, a failed
  import or a null argument go wrong. \<open>GodotVfs\<close>: gdsqlite/vfs; what is written is read back, and a read past
  the end of a file is undefined.

  The properties are the theorems whose text begins with a claim number; each is stated over the
  definitions of the code and followed by its witness. The lemmas before them are shared: one per operation
  for an invariant, one per loop for what it computes.

  Not modelled. SQLite itself (gdsqlite/sqlite, 270,000 lines of a library) and its shell; the bindings of
  the engine in godot-cpp beyond what is named above; the registration of classes and methods, property
  lists, editor warnings and printed messages; in uuid.h stream output; in unordered_dense.h the big bucket, polymorphic
  allocators and heterogeneous lookup, which the program does not instantiate; exceptions of allocation. The
  model of the manager is sequential, as the code is: only the queue of the worker is shared by threads.
  \<open>StreamSystem\<close> follows one manager and one worker from their making to the manager's exit from the tree.
\<close>

end
